(* ===== verification/Prelude.thy ===== *)
theory Prelude
  imports Main "HOL-Library.Word" "HOL-Library.FSet" "HOL-Library.List_Lexorder"
    "HOL-Library.Char_ord"
begin

text \<open>
  What every component of the development shares: the outcome of a Go call (a value, a
  returned error, or a panic), the names of Go's integer types, the development's
  collections of simplification rules, and the generic lemmas about lists, sorted lists and
  finite sets that the component theories use.

  A Go \<open>string\<close> is a sequence of bytes, which is exactly Isabelle's \<open>string\<close>
  (a \<open>char\<close> is a byte); Go compares strings bytewise and lexicographically, which is the
  order of \<open>List_Lexorder\<close> over \<open>Char_ord\<close>. A Go map with an empty value type
  (\<open>map[T]struct{}\<close>) is a finite set, \<open>'a fset\<close>.
\<close>

named_theorems go_defs \<open>definitions of the modelled Go operations, for unfolding\<close>
named_theorems eval_rules \<open>equations that evaluate the model on closed terms\<close>

type_synonym uint64 = "64 word"
type_synonym int64 = "64 word"

section \<open>Outcomes of Go calls\<close>

text \<open>
  A call of type \<open>(T, error)\<close> returns a value with a nil error, or an error; it may
  also panic. The three are kept apart, so that "never panics" is a statement about the model.
\<close>

datatype ('e, 'a) outcome = Ok 'a | Err 'e | Panic string

fun bind_outcome :: "('e, 'a) outcome \<Rightarrow> ('a \<Rightarrow> ('e, 'b) outcome) \<Rightarrow> ('e, 'b) outcome" where
  "bind_outcome (Ok x) f = f x"
| "bind_outcome (Err e) f = Err e"
| "bind_outcome (Panic m) f = Panic m"

fun is_panic :: "('e, 'a) outcome \<Rightarrow> bool" where
  "is_panic (Panic m) = True"
| "is_panic _ = False"

lemma bind_outcome_Ok_iff:
  "bind_outcome r f = Ok y \<longleftrightarrow> (\<exists>x. r = Ok x \<and> f x = Ok y)"
  by (cases r) auto

lemma bind_outcome_is_panic:
  "is_panic (bind_outcome r f) \<longleftrightarrow> is_panic r \<or> (\<exists>x. r = Ok x \<and> is_panic (f x))"
  by (cases r) auto

lemma not_panic_cases:
  assumes "\<not> is_panic r"
  obtains (Ok) x where "r = Ok x" | (Err) e where "r = Err e"
  using assms by (cases r) auto

section \<open>64-bit integers\<close>

lemma unat_bound64: "unat (n :: 64 word) < 2 ^ 64"
  using unsigned_less [of n, where ?'a = nat] by simp

lemma uint_sint64: "uint (n :: 64 word) = sint n mod 2 ^ 64"
  using uint_word_of_int [of "sint n", where ?'a = 64] by simp

lemma sint_nonneg_uint:
  fixes n :: int64
  assumes "0 \<le> sint n"
  shows "sint n = uint n"
proof -
  have "sint n < 2 ^ 64" using sint_lt [of n] by simp
  with assms have "sint n mod 2 ^ 64 = sint n" by (rule mod_pos_pos_trivial)
  with uint_sint64 [of n] show ?thesis by (simp only:)
qed

lemma sint_nonneg_iff: "0 \<le> sint (n :: int64) \<longleftrightarrow> n < 2 ^ 63"
proof
  assume "0 \<le> sint n"
  then show "n < 2 ^ 63"
    using sint_nonneg_uint [of n] sint_lt [of n] by (simp add: word_less_def)
next
  assume "n < 2 ^ 63"
  then have "uint n < 2 ^ 63" by (simp add: word_less_def)
  moreover have "uint n = sint n + 2 ^ 64" if "sint n < 0"
  proof -
    have "- (2 ^ 63) \<le> sint n" using sint_ge [of n] by simp
    then have "(sint n + 2 ^ 64) mod 2 ^ 64 = sint n + 2 ^ 64"
      using that by (intro mod_pos_pos_trivial) simp_all
    then show ?thesis by (simp only: uint_sint64 mod_add_self2)
  qed
  moreover have "- (2 ^ 63) \<le> sint n" using sint_ge [of n] by simp
  ultimately show "0 \<le> sint n" by (cases "sint n < 0") simp_all
qed

lemma sint_nonneg_unat:
  fixes n :: int64
  assumes "0 \<le> sint n"
  shows "nat (sint n) = unat n"
  by (simp add: sint_nonneg_uint [OF assms])

section \<open>Finite sets as Go maps with empty values\<close>

text \<open>
  The iteration order of a Go map is unspecified. Sorting any enumeration of a finite set
  gives the one sorted enumeration, so what a Go program sorts after collecting it from a map
  is determined.
\<close>

lemma sorted_list_of_fset_set [simp]: "sorted_list_of_fset (fset_of_list xs) = sort (remdups xs)"
  by (simp add: sorted_list_of_fset.rep_eq fset_of_list.rep_eq sorted_list_of_set_sort_remdups)

lemma sorted_list_of_fset_sorted [simp]: "sorted (sorted_list_of_fset S)"
  by (simp add: sorted_list_of_fset.rep_eq)

lemma sorted_list_of_fset_distinct [simp]: "distinct (sorted_list_of_fset S)"
  by (simp add: sorted_list_of_fset.rep_eq)

lemma sorted_list_of_fset_length [simp]: "length (sorted_list_of_fset S) = fcard S"
  by (simp add: sorted_list_of_fset.rep_eq fcard.rep_eq)

lemma sorted_list_of_fset_empty_iff [simp]:
  "sorted_list_of_fset S = [] \<longleftrightarrow> S = {||}"
  by (metis fset_of_list_simps(1) sorted_list_of_fset_simps(2) sorted_list_of_fset_set
      remdups.simps(1) sort_key_simps(1))

lemma sort_enumeration_fset:
  assumes "distinct xs" and "set xs = fset S"
  shows "sort xs = sorted_list_of_fset S"
proof -
  have "fset_of_list xs = S"
    using assms(2) by (metis fset_inverse fset_of_list.rep_eq)
  then have "sorted_list_of_fset S = sort (remdups xs)"
    using sorted_list_of_fset_set by metis
  also have "\<dots> = sort xs" using assms(1) by (simp only: distinct_remdups_id)
  finally show ?thesis by (rule sym)
qed

lemma sorted_list_of_fset_insert [eval_rules]:
  "sorted_list_of_fset (finsert x S) =
     (if x |\<in>| S then sorted_list_of_fset S else insort x (sorted_list_of_fset S))"
proof (cases "x |\<in>| S")
  case True
  then show ?thesis by (simp add: finsert_absorb)
next
  case False
  then show ?thesis by (simp add: sorted_list_of_fset.rep_eq)
qed

lemma sorted_list_of_fset_empty [eval_rules]: "sorted_list_of_fset {||} = []"
  by simp

lemma list_all2_left_mem: "list_all2 P xs ys \<Longrightarrow> x \<in> set xs \<Longrightarrow> \<exists>y \<in> set ys. P x y"
  by (induction rule: list_all2_induct) auto

end
