(* ===== verification/Go_Strings.thy ===== *)
theory Go_Strings
  imports Prelude
begin

text \<open>
  The parts of Go's \<open>unicode/utf8\<close>, \<open>unicode\<close> and \<open>strings\<close> packages that the
  program uses, on byte strings: decoding a string into runes as a \<open>range\<close> loop does
  (an invalid byte is the replacement rune and consumes one byte), \<open>unicode.IsSpace\<close>,
  \<open>strings.ContainsFunc\<close>, \<open>strings.Join\<close>, \<open>strings.HasPrefix\<close> and
  \<open>strings.TrimPrefix\<close>; and PostgreSQL's \<open>string_to_array\<close> with a one-byte
  delimiter, which is the inverse of \<open>Join\<close> on the other side of the wire.
\<close>

section \<open>Decoding UTF-8\<close>

abbreviation byte :: "char \<Rightarrow> nat" where
  "byte c \<equiv> of_char c"

definition in_range :: "nat \<Rightarrow> nat \<Rightarrow> char \<Rightarrow> bool" where
  "in_range lo hi c \<longleftrightarrow> lo \<le> byte c \<and> byte c \<le> hi"

abbreviation continuation :: "char \<Rightarrow> bool" where
  "continuation \<equiv> in_range 0x80 0xBF"

definition rune_error :: nat where
  "rune_error = 0xFFFD"

text \<open>The accepted range of the second byte depends on the first.\<close>

definition second3 :: "nat \<Rightarrow> char \<Rightarrow> bool" where
  "second3 b0 c =
     (if b0 = 0xE0 then in_range 0xA0 0xBF c
      else if b0 = 0xED then in_range 0x80 0x9F c
      else continuation c)"

definition second4 :: "nat \<Rightarrow> char \<Rightarrow> bool" where
  "second4 b0 c =
     (if b0 = 0xF0 then in_range 0x90 0xBF c
      else if b0 = 0xF4 then in_range 0x80 0x8F c
      else continuation c)"

fun decode2 :: "nat \<Rightarrow> string \<Rightarrow> nat \<times> string" where
  "decode2 b0 (c1 # r) =
     (if continuation c1 then ((b0 - 0xC0) * 64 + (byte c1 - 0x80), r)
      else (rune_error, c1 # r))"
| "decode2 b0 r = (rune_error, r)"

fun decode3 :: "nat \<Rightarrow> string \<Rightarrow> nat \<times> string" where
  "decode3 b0 (c1 # c2 # r) =
     (if second3 b0 c1 \<and> continuation c2
      then ((b0 - 0xE0) * 4096 + (byte c1 - 0x80) * 64 + (byte c2 - 0x80), r)
      else (rune_error, c1 # c2 # r))"
| "decode3 b0 r = (rune_error, r)"

fun decode4 :: "nat \<Rightarrow> string \<Rightarrow> nat \<times> string" where
  "decode4 b0 (c1 # c2 # c3 # r) =
     (if second4 b0 c1 \<and> continuation c2 \<and> continuation c3
      then ((b0 - 0xF0) * 262144 + (byte c1 - 0x80) * 4096 + (byte c2 - 0x80) * 64
              + (byte c3 - 0x80), r)
      else (rune_error, c1 # c2 # c3 # r))"
| "decode4 b0 r = (rune_error, r)"

definition decode_rune :: "char \<Rightarrow> string \<Rightarrow> nat \<times> string" where
  "decode_rune c cs =
     (let b0 = byte c in
      if b0 < 0x80 then (b0, cs)
      else if 0xC2 \<le> b0 \<and> b0 \<le> 0xDF then decode2 b0 cs
      else if 0xE0 \<le> b0 \<and> b0 \<le> 0xEF then decode3 b0 cs
      else if 0xF0 \<le> b0 \<and> b0 \<le> 0xF4 then decode4 b0 cs
      else (rune_error, cs))"

lemma decode2_length: "length (snd (decode2 b cs)) \<le> length cs"
  by (induction b cs rule: decode2.induct) auto

lemma decode3_length: "length (snd (decode3 b cs)) \<le> length cs"
  by (induction b cs rule: decode3.induct) auto

lemma decode4_length: "length (snd (decode4 b cs)) \<le> length cs"
  by (induction b cs rule: decode4.induct) auto

lemma decode_rune_length: "length (snd (decode_rune c cs)) \<le> length cs"
  by (simp add: decode_rune_def Let_def decode2_length decode3_length decode4_length)

function runes :: "string \<Rightarrow> nat list" where
  "runes [] = []"
| "runes (c # cs) = fst (decode_rune c cs) # runes (snd (decode_rune c cs))"
  by pat_completeness auto
termination
  by (relation "measure length") (auto simp: decode_rune_length less_Suc_eq_le)

text \<open>A byte below \<open>0x80\<close> is never part of a longer rune, so decoding splits there.\<close>

lemma ascii_not_continuation:
  "byte a < 0x80 \<Longrightarrow> \<not> continuation a \<and> \<not> second3 b a \<and> \<not> second4 b a"
  by (auto simp: in_range_def second3_def second4_def split: if_splits)

lemma decode_rune_ascii: "byte c < 0x80 \<Longrightarrow> decode_rune c cs = (byte c, cs)"
  by (simp add: decode_rune_def)

lemma decode2_append:
  "byte a < 0x80 \<Longrightarrow> decode2 b (cs @ a # v) = (fst (decode2 b cs), snd (decode2 b cs) @ a # v)"
  using ascii_not_continuation [of a b] by (cases cs) auto

lemma decode3_append:
  "byte a < 0x80 \<Longrightarrow> decode3 b (cs @ a # v) = (fst (decode3 b cs), snd (decode3 b cs) @ a # v)"
  using ascii_not_continuation [of a b]
  by (cases "(b, cs)" rule: decode3.cases; cases v) auto

lemma decode4_append:
  "byte a < 0x80 \<Longrightarrow> decode4 b (cs @ a # v) = (fst (decode4 b cs), snd (decode4 b cs) @ a # v)"
  using ascii_not_continuation [of a b]
  by (cases "(b, cs)" rule: decode4.cases; cases v; cases "tl v") auto

lemma decode_rune_append:
  "byte a < 0x80 \<Longrightarrow>
   decode_rune c (cs @ a # v) = (fst (decode_rune c cs), snd (decode_rune c cs) @ a # v)"
  by (simp add: decode_rune_def Let_def decode2_append decode3_append decode4_append)

lemma runes_append_ascii:
  "byte a < 0x80 \<Longrightarrow> runes (u @ a # v) = runes u @ byte a # runes v"
  by (induction u rule: runes.induct) (auto simp: decode_rune_ascii decode_rune_append)

lemma runes_ascii: "list_all (\<lambda>c. byte c < 0x80) s \<Longrightarrow> runes s = map byte s"
  by (induction s) (auto simp: decode_rune_ascii)

section \<open>Spaces, Join and its inverse\<close>

definition IsSpace :: "nat \<Rightarrow> bool" where
  "IsSpace r \<longleftrightarrow>
     (9 \<le> r \<and> r \<le> 13) \<or> r = 0x20 \<or> r = 0x85 \<or> r = 0xA0 \<or> r = 0x1680
     \<or> (0x2000 \<le> r \<and> r \<le> 0x200A) \<or> r = 0x2028 \<or> r = 0x2029 \<or> r = 0x202F
     \<or> r = 0x205F \<or> r = 0x3000"

definition ContainsFunc :: "string \<Rightarrow> (nat \<Rightarrow> bool) \<Rightarrow> bool" where
  "ContainsFunc s f = list_ex f (runes s)"

fun Join :: "string list \<Rightarrow> string \<Rightarrow> string" where
  "Join [] sep = []"
| "Join [x] sep = x"
| "Join (x # y # ys) sep = x @ sep @ Join (y # ys) sep"

fun split_on :: "char \<Rightarrow> string \<Rightarrow> string \<Rightarrow> string list" where
  "split_on d acc [] = [acc]"
| "split_on d acc (c # cs) =
     (if c = d then acc # split_on d [] cs else split_on d (acc @ [c]) cs)"

definition string_to_array :: "string \<Rightarrow> char \<Rightarrow> string list" where
  "string_to_array s d = (if s = [] then [] else split_on d [] s)"

definition HasPrefix :: "string \<Rightarrow> string \<Rightarrow> bool" where
  "HasPrefix s p \<longleftrightarrow> take (length p) s = p"

definition TrimPrefix :: "string \<Rightarrow> string \<Rightarrow> string" where
  "TrimPrefix s p = (if HasPrefix s p then drop (length p) s else s)"

lemma HasPrefix_append [simp]: "HasPrefix (p @ s) p"
  by (simp add: HasPrefix_def)

lemma TrimPrefix_append [simp]: "TrimPrefix (p @ s) p = s"
  by (simp add: TrimPrefix_def)

lemma split_on_clean: "d \<notin> set x \<Longrightarrow> split_on d acc x = [acc @ x]"
  by (induction x arbitrary: acc) auto

lemma split_on_append:
  "d \<notin> set x \<Longrightarrow> split_on d acc (x @ d # s) = (acc @ x) # split_on d [] s"
  by (induction x arbitrary: acc) auto

lemma split_on_Join:
  assumes "xs \<noteq> []" and "\<forall>x \<in> set xs. d \<notin> set x"
  shows "split_on d [] (Join xs [d]) = xs"
  using assms
  by (induction xs "[d]" rule: Join.induct) (auto simp: split_on_clean split_on_append)

lemma Join_Nil_iff:
  assumes "\<forall>x \<in> set xs. x \<noteq> []"
  shows "Join xs sep = [] \<longleftrightarrow> xs = []"
  using assms by (induction xs sep rule: Join.induct) auto

lemma split_on_pieces: "x \<in> set (split_on d acc s) \<Longrightarrow> d \<notin> set acc \<Longrightarrow> d \<notin> set x"
  by (induction d acc s rule: split_on.induct) (auto split: if_splits)

lemma string_to_array_pieces: "x \<in> set (string_to_array s d) \<Longrightarrow> d \<notin> set x"
  by (auto simp: string_to_array_def dest: split_on_pieces split: if_splits)

lemma string_to_array_Join:
  assumes "\<forall>x \<in> set xs. x \<noteq> [] \<and> d \<notin> set x"
  shows "string_to_array (Join xs [d]) d = xs"
  using assms by (cases "xs = []") (auto simp: string_to_array_def Join_Nil_iff split_on_Join)

end
