(* ===== verification/Tags.thy ===== *)
theory Tags
  imports Go_Strings
begin

text \<open>
  \<open>eventstore/tags.go\<close>: the immutable set of tag values of an event or a query item.
  The \<open>map[string]struct{}\<close> of the source is a finite set. \<open>Values\<close> is the sorted
  enumeration; \<open>Tags_Equal\<close> compares cardinalities and then membership, as the source
  does, and is proved to be equality of the sets. \<open>TagsFromMap\<close> takes the map as the list
  of its entries in the order the \<open>range\<close> loop happens to visit them: which error is
  reported may depend on it, whether the call succeeds and with which tags may not.
\<close>

record Tags =
  tag_values :: "string fset"

definition Values :: "Tags \<Rightarrow> string list" where
  "Values t = sorted_list_of_fset (tag_values t)"

definition Tags_Len :: "Tags \<Rightarrow> nat" where
  "Tags_Len t = fcard (tag_values t)"

definition Tags_Equal :: "Tags \<Rightarrow> Tags \<Rightarrow> bool" where
  "Tags_Equal t other =
     (if fcard (tag_values t) \<noteq> fcard (tag_values other) then False
      else list_all (\<lambda>v. v |\<in>| tag_values other) (sorted_list_of_fset (tag_values t)))"

definition isValidTagToken :: "string \<Rightarrow> bool" where
  "isValidTagToken s = (if s = [] then False else \<not> ContainsFunc s IsSpace)"

datatype tag_error =
    InvalidTagValue string
  | EmptyTagObject
  | InvalidTagKey string
  | InvalidTagValueForKey string string

fun first_invalid :: "string list \<Rightarrow> string option" where
  "first_invalid [] = None"
| "first_invalid (v # vs) = (if \<not> isValidTagToken v then Some v else first_invalid vs)"

fun insert_all :: "string list \<Rightarrow> string fset \<Rightarrow> string fset" where
  "insert_all [] S = S"
| "insert_all (v # vs) S = insert_all vs (finsert v S)"

definition TagsFrom :: "string list \<Rightarrow> tag_error + Tags" where
  "TagsFrom vs =
     (case first_invalid vs of
        Some v \<Rightarrow> Inl (InvalidTagValue v)
      | None \<Rightarrow> Inr \<lparr>tag_values = insert_all vs {||}\<rparr>)"

fun tags_from_entries ::
  "(string \<times> string) list \<Rightarrow> string fset \<Rightarrow> tag_error + string fset" where
  "tags_from_entries [] S = Inr S"
| "tags_from_entries ((k, v) # kvs) S =
     (if \<not> isValidTagToken k then Inl (InvalidTagKey k)
      else if \<not> isValidTagToken v then Inl (InvalidTagValueForKey v k)
      else tags_from_entries kvs (finsert (k @ ''='' @ v) S))"

definition TagsFromMap :: "(string \<times> string) list \<Rightarrow> tag_error + Tags" where
  "TagsFromMap obj =
     (if length obj = 0 then Inl EmptyTagObject
      else case tags_from_entries obj {||} of
             Inl e \<Rightarrow> Inl e
           | Inr S \<Rightarrow> Inr \<lparr>tag_values = S\<rparr>)"

definition EmptyTags :: Tags where
  "EmptyTags = \<lparr>tag_values = {||}\<rparr>"

text \<open>The well-formedness every constructor establishes: each value is a valid token.\<close>

definition tags_ok :: "Tags \<Rightarrow> bool" where
  "tags_ok t \<longleftrightarrow> (\<forall>v \<in> fset (tag_values t). isValidTagToken v)"

section \<open>Values\<close>

lemma set_Values [simp]: "set (Values t) = fset (tag_values t)"
  by (simp add: Values_def)

lemma distinct_Values [simp]: "distinct (Values t)"
  by (simp add: Values_def)

lemma sorted_Values [simp]: "sorted (Values t)"
  by (simp add: Values_def)

lemma length_Values [simp]: "length (Values t) = Tags_Len t"
  by (simp add: Values_def Tags_Len_def)

lemma Values_Nil_iff [simp]: "Values t = [] \<longleftrightarrow> Tags_Len t = 0"
  by (simp add: Values_def Tags_Len_def)

lemma Tags_Len_0_iff: "Tags_Len t = 0 \<longleftrightarrow> tag_values t = {||}"
  by (simp add: Tags_Len_def)

lemma Values_any_order:
  "distinct xs \<Longrightarrow> set xs = fset (tag_values t) \<Longrightarrow> sort xs = Values t"
  by (simp add: Values_def sort_enumeration_fset)

section \<open>Constructors\<close>

lemma first_invalid_None_iff: "first_invalid vs = None \<longleftrightarrow> (\<forall>v \<in> set vs. isValidTagToken v)"
  by (induction vs) auto

lemma insert_all_eq: "insert_all vs S = fset_of_list vs |\<union>| S"
  by (induction vs arbitrary: S) auto

lemma TagsFrom_Inr_iff:
  "TagsFrom vs = Inr t \<longleftrightarrow>
     (\<forall>v \<in> set vs. isValidTagToken v) \<and> t = \<lparr>tag_values = fset_of_list vs\<rparr>"
  by (auto simp: TagsFrom_def first_invalid_None_iff [symmetric] insert_all_eq split: option.splits)

lemma TagsFrom_ok: "TagsFrom vs = Inr t \<Longrightarrow> tags_ok t"
  by (auto simp: TagsFrom_Inr_iff tags_ok_def fset_of_list.rep_eq)

lemma isValidTagToken_entry:
  assumes "isValidTagToken k" and "isValidTagToken v"
  shows "isValidTagToken (k @ ''='' @ v)"
  using assms runes_append_ascii [of "CHR ''=''" k v]
  by (auto simp: isValidTagToken_def ContainsFunc_def IsSpace_def split: if_splits)

lemma tags_from_entries_Inr_iff:
  "tags_from_entries kvs S = Inr T \<longleftrightarrow>
     (\<forall>(k, v) \<in> set kvs. isValidTagToken k \<and> isValidTagToken v)
     \<and> T = fset_of_list (map (\<lambda>(k, v). k @ ''='' @ v) kvs) |\<union>| S"
  by (induction kvs S rule: tags_from_entries.induct) auto

lemma Tags_Equal_iff: "Tags_Equal t u \<longleftrightarrow> t = u"
proof
  assume eq: "Tags_Equal t u"
  then have "tag_values t |\<subseteq>| tag_values u" and "fcard (tag_values t) = fcard (tag_values u)"
    by (auto simp: Tags_Equal_def list_all_iff split: if_splits)
  then have "tag_values t = tag_values u"
    by (metis fcard_seteq order_refl)
  then show "t = u" by simp
qed (auto simp: Tags_Equal_def list_all_iff)

text \<open>
  C36: \<open>TagsFrom\<close> succeeds exactly when every value is a valid token, with the set of the
  values (duplicates collapse); otherwise it reports the first invalid value. The resulting
  \<open>Values\<close> is sorted, without duplicates, and has \<open>Len\<close> elements.
\<close>

theorem TagsFrom_correct:
  "TagsFrom vs =
     (case find (\<lambda>v. \<not> isValidTagToken v) vs of
        Some v \<Rightarrow> Inl (InvalidTagValue v)
      | None \<Rightarrow> Inr \<lparr>tag_values = fset_of_list vs\<rparr>)
   \<and> Values \<lparr>tag_values = fset_of_list vs\<rparr> = sort (remdups vs)
   \<and> Tags_Len \<lparr>tag_values = fset_of_list vs\<rparr> = length (remdups vs)"
proof -
  have "first_invalid vs = find (\<lambda>v. \<not> isValidTagToken v) vs"
    by (induction vs) auto
  moreover have "fcard (fset_of_list vs) = length (remdups vs)"
    by (simp add: fcard.rep_eq fset_of_list.rep_eq length_remdups_card_conv)
  ultimately show ?thesis
    by (simp add: TagsFrom_def insert_all_eq Values_def Tags_Len_def split: option.splits)
qed

lemma TagsFromMap_Inr_iff:
  "TagsFromMap obj = Inr t \<longleftrightarrow>
     obj \<noteq> [] \<and> (\<forall>(k, v) \<in> set obj. isValidTagToken k \<and> isValidTagToken v)
     \<and> t = \<lparr>tag_values = fset_of_list (map (\<lambda>(k, v). k @ ''='' @ v) obj)\<rparr>"
proof (cases "tags_from_entries obj {||}")
  case (Inl e)
  moreover have "tags_from_entries obj {||} \<noteq> Inr T" for T using Inl by simp
  ultimately show ?thesis unfolding tags_from_entries_Inr_iff by (auto simp: TagsFromMap_def)
next
  case (Inr S)
  moreover from this have "(\<forall>(k, v) \<in> set obj. isValidTagToken k \<and> isValidTagToken v)
      \<and> S = fset_of_list (map (\<lambda>(k, v). k @ ''='' @ v) obj)"
    unfolding tags_from_entries_Inr_iff by simp
  ultimately show ?thesis by (auto simp: TagsFromMap_def)
qed

lemma tags_from_entries_find:
  "tags_from_entries kvs S =
     (case find (\<lambda>(k, v). \<not> (isValidTagToken k \<and> isValidTagToken v)) kvs of
        Some (k, v) \<Rightarrow> Inl (if isValidTagToken k then InvalidTagValueForKey v k else InvalidTagKey k)
      | None \<Rightarrow> Inr (fset_of_list (map (\<lambda>(k, v). k @ ''='' @ v) kvs) |\<union>| S))"
  by (induction kvs S rule: tags_from_entries.induct) (auto split: option.split)

text \<open>
  C35: \<open>TagsFromMap\<close> on every map, in whatever order its entries are visited. The empty map
  is refused; otherwise the first visited entry with an invalid key or value is reported, the
  key before the value; otherwise the result is that of \<open>TagsFrom\<close> on the texts
  "key=value", which then succeeds. So whether the call succeeds, and with which tags, does
  not depend on the order: it does exactly when the map is not empty and all keys and values
  are valid tokens.
\<close>

theorem TagsFromMap_correct:
  "TagsFromMap obj =
     (if obj = [] then Inl EmptyTagObject
      else case find (\<lambda>(k, v). \<not> (isValidTagToken k \<and> isValidTagToken v)) obj of
             Some (k, v) \<Rightarrow> Inl (if isValidTagToken k then InvalidTagValueForKey v k else InvalidTagKey k)
           | None \<Rightarrow> TagsFrom (map (\<lambda>(k, v). k @ ''='' @ v) obj))
   \<and> (\<forall>t. TagsFromMap obj = Inr t \<longleftrightarrow>
        obj \<noteq> [] \<and> (\<forall>(k, v) \<in> set obj. isValidTagToken k \<and> isValidTagToken v)
        \<and> t = \<lparr>tag_values = fset_of_list (map (\<lambda>(k, v). k @ ''='' @ v) obj)\<rparr>)
   \<and> (set obj' = set obj \<longrightarrow> (\<forall>t. TagsFromMap obj' = Inr t \<longleftrightarrow> TagsFromMap obj = Inr t))"
proof (intro conjI impI allI)
  show "TagsFromMap obj =
     (if obj = [] then Inl EmptyTagObject
      else case find (\<lambda>(k, v). \<not> (isValidTagToken k \<and> isValidTagToken v)) obj of
             Some (k, v) \<Rightarrow> Inl (if isValidTagToken k then InvalidTagValueForKey v k else InvalidTagKey k)
           | None \<Rightarrow> TagsFrom (map (\<lambda>(k, v). k @ ''='' @ v) obj))"
  proof (cases "find (\<lambda>(k, v). \<not> (isValidTagToken k \<and> isValidTagToken v)) obj")
    case None
    then have "\<forall>(k, v) \<in> set obj. isValidTagToken k \<and> isValidTagToken v"
      by (auto simp: find_None_iff)
    then have "TagsFrom (map (\<lambda>(k, v). k @ ''='' @ v) obj)
        = Inr \<lparr>tag_values = fset_of_list (map (\<lambda>(k, v). k @ ''='' @ v) obj)\<rparr>"
      by (auto simp: TagsFrom_Inr_iff isValidTagToken_entry simp del: append_Cons append_Nil)
    then show ?thesis using None by (simp add: TagsFromMap_def tags_from_entries_find)
  qed (auto simp: TagsFromMap_def tags_from_entries_find)
next
  fix t
  show "TagsFromMap obj = Inr t \<longleftrightarrow>
      obj \<noteq> [] \<and> (\<forall>(k, v) \<in> set obj. isValidTagToken k \<and> isValidTagToken v)
      \<and> t = \<lparr>tag_values = fset_of_list (map (\<lambda>(k, v). k @ ''='' @ v) obj)\<rparr>"
    by (rule TagsFromMap_Inr_iff)
next
  fix t
  assume same: "set obj' = set obj"
  then have "fset_of_list (map (\<lambda>(k, v). k @ ''='' @ v) obj') = fset_of_list (map (\<lambda>(k, v). k @ ''='' @ v) obj)"
    by (intro fset_inject [THEN iffD1]) (simp add: fset_of_list.rep_eq)
  then show "TagsFromMap obj' = Inr t \<longleftrightarrow> TagsFromMap obj = Inr t"
    unfolding TagsFromMap_Inr_iff using same by (metis set_empty)
qed

theorem TagsFromMap_correct_witness:
  "TagsFromMap [(''b'', ''2''), (''a'', ''1'')] = Inr \<lparr>tag_values = {|''a=1'', ''b=2''|}\<rparr>
   \<and> TagsFromMap [(''a'', ''1''), (''b'', ''2'')] = Inr \<lparr>tag_values = {|''a=1'', ''b=2''|}\<rparr>
   \<and> TagsFromMap [(''a'', ''1''), ([], ''2'')] = Inl (InvalidTagKey [])"
proof -
  let ?a = "[(''a'', ''1''), (''b'', ''2'')]" and ?b = "[(''b'', ''2''), (''a'', ''1'')]"
  have v: "isValidTagToken ''a''" "isValidTagToken ''b''" "isValidTagToken ''1''" "isValidTagToken ''2''"
      "\<not> isValidTagToken []"
    by (simp_all add: isValidTagToken_def ContainsFunc_def decode_rune_def IsSpace_def)
  have a: "TagsFromMap ?a = Inr \<lparr>tag_values = {|''a=1'', ''b=2''|}\<rparr>"
    using TagsFromMap_correct [of ?a ?b] v by auto
  moreover have "TagsFromMap ?b = Inr \<lparr>tag_values = {|''a=1'', ''b=2''|}\<rparr>"
    using conjunct2 [OF conjunct2 [OF TagsFromMap_correct [of ?a ?b]]] a by (simp add: insert_commute)
  moreover have "TagsFromMap [(''a'', ''1''), ([], ''2'')] = Inl (InvalidTagKey [])"
    using TagsFromMap_correct [of "[(''a'', ''1''), ([], ''2'')]"] v by simp
  ultimately show ?thesis by blast
qed

end
