(* ===== verification/Go_Strconv.thy ===== *)
theory Go_Strconv
  imports Prelude
begin

text \<open>
  The parts of Go's \<open>strconv\<close> package that the program uses: \<open>FormatUint\<close> and
  \<open>FormatInt\<close> in base 10, and \<open>ParseUint\<close>, \<open>ParseInt\<close> and \<open>Atoi\<close> in
  base 10 at 64 bits, with the overflow tests of the library's loop kept at 64-bit width.
  The lemmas relate the loops to the mathematical value of a digit string and show that
  parsing inverts formatting.
\<close>

section \<open>Formatting\<close>

definition digit_char :: "nat \<Rightarrow> char" where
  "digit_char d = char_of (48 + d)"

fun format_nat :: "nat \<Rightarrow> string" where
  "format_nat n =
     (if n < 10 then [digit_char n] else format_nat (n div 10) @ [digit_char (n mod 10)])"

declare format_nat.simps [simp del]

definition FormatUint :: "uint64 \<Rightarrow> string" where
  "FormatUint n = format_nat (unat n)"

definition format_int :: "int \<Rightarrow> string" where
  "format_int n = (if n < 0 then CHR ''-'' # format_nat (nat (- n)) else format_nat (nat n))"

definition FormatInt :: "int64 \<Rightarrow> string" where
  "FormatInt n = format_int (sint n)"

section \<open>Parsing\<close>

datatype num_error = ErrSyntax | ErrRange

definition digit_val :: "char \<Rightarrow> nat option" where
  "digit_val c =
     (let n = of_char c :: nat in if 48 \<le> n \<and> n \<le> 57 then Some (n - 48) else None)"

definition parse_cutoff :: uint64 where
  "parse_cutoff = 1844674407370955162"

fun parse_uint_loop :: "uint64 \<Rightarrow> string \<Rightarrow> num_error + uint64" where
  "parse_uint_loop n [] = Inr n"
| "parse_uint_loop n (c # cs) =
     (case digit_val c of
        None \<Rightarrow> Inl ErrSyntax
      | Some d \<Rightarrow>
          if parse_cutoff \<le> n then Inl ErrRange
          else
            let n' = n * 10; n1 = n' + of_nat d
            in if n1 < n' then Inl ErrRange else parse_uint_loop n1 cs)"

definition ParseUint :: "string \<Rightarrow> num_error + uint64" where
  "ParseUint s = (if s = [] then Inl ErrSyntax else parse_uint_loop 0 s)"

text \<open>
  \<open>ParseInt\<close> strips one sign, parses the rest as unsigned and checks the signed range; a
  range error of the unsigned parse comes with the largest value and so is a range error here.
\<close>

definition parse_int_abs :: "bool \<Rightarrow> string \<Rightarrow> num_error + int64" where
  "parse_int_abs neg s =
     (case ParseUint s of
        Inl ErrSyntax \<Rightarrow> Inl ErrSyntax
      | Inl ErrRange \<Rightarrow> Inl ErrRange
      | Inr un \<Rightarrow>
          if \<not> neg \<and> 2 ^ 63 \<le> un then Inl ErrRange
          else if neg \<and> 2 ^ 63 < un then Inl ErrRange
          else Inr (if neg then - un else un))"

fun ParseInt :: "string \<Rightarrow> num_error + int64" where
  "ParseInt [] = Inl ErrSyntax"
| "ParseInt (c # cs) =
     (if c = CHR ''+'' then parse_int_abs False cs
      else if c = CHR ''-'' then parse_int_abs True cs
      else parse_int_abs False (c # cs))"

definition Atoi :: "string \<Rightarrow> num_error + int64" where
  "Atoi s = ParseInt s"

section \<open>The value of a digit string\<close>

fun digits_value :: "nat \<Rightarrow> string \<Rightarrow> nat" where
  "digits_value acc [] = acc"
| "digits_value acc (c # cs) = digits_value (acc * 10 + the (digit_val c)) cs"

definition all_digits :: "string \<Rightarrow> bool" where
  "all_digits s \<longleftrightarrow> list_all (\<lambda>c. digit_val c \<noteq> None) s"

lemma all_digits_simps [simp]:
  "all_digits []"
  "all_digits (c # cs) \<longleftrightarrow> digit_val c \<noteq> None \<and> all_digits cs"
  "all_digits (s @ t) \<longleftrightarrow> all_digits s \<and> all_digits t"
  by (auto simp: all_digits_def)

lemma digit_val_digit_char [simp]: "d < 10 \<Longrightarrow> digit_val (digit_char d) = Some d"
  by (simp add: digit_val_def digit_char_def of_char_of take_bit_eq_mod)

lemma digit_val_less: "digit_val c = Some d \<Longrightarrow> d < 10"
  by (auto simp: digit_val_def Let_def split: if_splits)

lemma digit_val_sign [simp]:
  "digit_val (CHR ''-'') = None" "digit_val (CHR ''+'') = None"
  by (simp_all add: digit_val_def)

lemma digits_value_append: "digits_value acc (s @ t) = digits_value (digits_value acc s) t"
  by (induction s arbitrary: acc) auto

lemma digits_value_ge: "acc \<le> digits_value acc s"
proof (induction s arbitrary: acc)
  case (Cons c cs)
  have "acc \<le> acc * 10 + the (digit_val c)" by simp
  also have "\<dots> \<le> digits_value (acc * 10 + the (digit_val c)) cs" by (rule Cons.IH)
  finally show ?case by simp
qed simp

lemma format_nat_nonempty [simp]: "format_nat n \<noteq> []"
  by (subst format_nat.simps) simp

lemma all_digits_format_nat [simp]: "all_digits (format_nat n)"
proof (induction n rule: format_nat.induct)
  case (1 n)
  then show ?case by (subst format_nat.simps) auto
qed

lemma digits_value_format_nat [simp]: "digits_value 0 (format_nat n) = n"
proof (induction n rule: format_nat.induct)
  case (1 n)
  show ?case
  proof (cases "n < 10")
    case True
    then show ?thesis by (subst format_nat.simps) simp
  next
    case False
    with "1" show ?thesis by (subst format_nat.simps) (simp add: digits_value_append)
  qed
qed

lemma format_nat_inj: "format_nat m = format_nat n \<longleftrightarrow> m = n"
  by (metis digits_value_format_nat)

lemma digit_char_eval [eval_rules]:
  "digit_char 0 = CHR ''0''" "digit_char (Suc 0) = CHR ''1''" "digit_char 1 = CHR ''1''"
  "digit_char 2 = CHR ''2''" "digit_char 3 = CHR ''3''" "digit_char 4 = CHR ''4''"
  "digit_char 5 = CHR ''5''" "digit_char 6 = CHR ''6''" "digit_char 7 = CHR ''7''"
  "digit_char 8 = CHR ''8''" "digit_char 9 = CHR ''9''"
  by (simp_all add: digit_char_def char_of_def bit_Suc_0_iff)

section \<open>The parsing loop computes the value, or reports overflow\<close>

lemma unat_mult10:
  assumes "n < parse_cutoff"
  shows "unat (n * 10) = unat n * 10"
proof -
  have "unat n < 1844674407370955162"
    using assms by (simp add: parse_cutoff_def word_less_nat_alt)
  then show ?thesis by (simp add: unat_word_ariths)
qed

lemma parse_step_ok:
  fixes n :: uint64
  assumes "n < parse_cutoff" and "d < 10" and "unat n * 10 + d < 2 ^ 64"
  shows "unat (n * 10 + of_nat d) = unat n * 10 + d" and "\<not> n * 10 + of_nat d < n * 10"
proof -
  have d: "unat (of_nat d :: uint64) = d"
    using assms(2) by (simp add: unat_of_nat)
  show u: "unat (n * 10 + of_nat d) = unat n * 10 + d"
    using assms(3) by (simp add: unat_word_ariths(1) unat_mult10 [OF assms(1)] d)
  show "\<not> n * 10 + of_nat d < n * 10"
    by (simp add: word_less_nat_alt u unat_mult10 [OF assms(1)])
qed

lemma parse_step_overflow:
  fixes n :: uint64
  assumes "n < parse_cutoff" and "d < 10" and "2 ^ 64 \<le> unat n * 10 + d"
  shows "n * 10 + of_nat d < n * 10"
proof -
  have d: "unat (of_nat d :: uint64) = d"
    using assms(2) by (simp add: unat_of_nat)
  have "unat (n * 10) < 2 ^ 64"
    using unat_bound64 [of "n * 10"] by simp
  then have lt: "unat n * 10 < 2 ^ 64" by (simp add: unat_mult10 [OF assms(1)])
  have "unat (n * 10 + of_nat d) = (unat n * 10 + d) mod 2 ^ 64"
    by (simp add: unat_word_ariths(1) unat_mult10 [OF assms(1)] d)
  also have "\<dots> = unat n * 10 + d - 2 ^ 64"
    using assms(2,3) lt by (simp add: mod_if)
  finally have "unat (n * 10 + of_nat d) < unat n * 10"
    using assms(2,3) by simp
  then show ?thesis by (simp add: word_less_nat_alt unat_mult10 [OF assms(1)])
qed

lemma cutoff_overflow:
  fixes n :: uint64
  assumes "parse_cutoff \<le> n"
  shows "2 ^ 64 \<le> unat n * 10"
  using assms by (simp add: parse_cutoff_def word_le_nat_alt)

lemma parse_uint_loop_value:
  assumes "all_digits s"
  shows "parse_uint_loop n s =
    (if digits_value (unat n) s < 2 ^ 64 then Inr (of_nat (digits_value (unat n) s))
     else Inl ErrRange)"
  using assms
proof (induction s arbitrary: n)
  case Nil
  have "unat n < 2 ^ 64" using unat_bound64 [of n] by simp
  then show ?case by simp
next
  case (Cons c cs)
  then obtain d where d: "digit_val c = Some d" by auto
  then have d10: "d < 10" by (rule digit_val_less)
  have ge: "unat n * 10 + d \<le> digits_value (unat n * 10 + d) cs" by (rule digits_value_ge)
  consider (cut) "parse_cutoff \<le> n"
    | (ok) "n < parse_cutoff" "unat n * 10 + d < 2 ^ 64"
    | (over) "n < parse_cutoff" "2 ^ 64 \<le> unat n * 10 + d" by fastforce
  then show ?case
  proof cases
    case cut
    then show ?thesis using ge cutoff_overflow [OF cut] d by simp
  next
    case ok
    note step = parse_step_ok [OF ok(1) d10 ok(2)]
    show ?thesis using ok(1) step Cons d by (simp add: Let_def linorder_not_less [symmetric])
  next
    case over
    note step = parse_step_overflow [OF over(1) d10 over(2)]
    show ?thesis using over ge step d by (simp add: Let_def not_le)
  qed
qed

lemma parse_uint_loop_Inr_digits: "parse_uint_loop n s = Inr m \<Longrightarrow> all_digits s"
  by (induction n s rule: parse_uint_loop.induct) (auto split: option.splits if_splits simp: Let_def)

lemma ParseUint_FormatUint [simp]: "ParseUint (FormatUint n) = Inr n"
proof -
  have "unat n < 2 ^ 64" using unat_bound64 [of n] by simp
  then show ?thesis
    by (simp add: ParseUint_def FormatUint_def parse_uint_loop_value)
qed

lemma FormatUint_inj [simp]: "FormatUint m = FormatUint n \<longleftrightarrow> m = n"
  by (metis ParseUint_FormatUint sum.inject(2))

lemma ParseInt_digits:
  assumes "all_digits s" and "s \<noteq> []"
  shows "ParseInt s = parse_int_abs False s"
  using assms by (cases s) auto

lemma all_digits_FormatUint [simp]: "all_digits (FormatUint n)"
  by (simp add: FormatUint_def)

lemma FormatUint_nonempty [simp]: "FormatUint n \<noteq> []"
  by (simp add: FormatUint_def)

lemma ParseInt_FormatUint:
  "ParseInt (FormatUint n) = (if 2 ^ 63 \<le> n then Inl ErrRange else Inr n)"
  by (simp add: ParseInt_digits parse_int_abs_def)

end
