(* ===== verification/Sequence_Position.thy ===== *)
theory Sequence_Position
  imports Go_Strconv
begin

text \<open>
  \<open>eventstore/sequence_position.go\<close>: the opaque 64-bit position of an event in the
  global stream, its comparisons, its decimal text form and the parser that accepts exactly
  the canonical text forms. The type is made an instance of \<open>linorder\<close>, so that sorted
  lists of positions are the library's.
\<close>

datatype SequencePosition = SequencePosition (pos_value: uint64)

definition IsAfter :: "SequencePosition \<Rightarrow> SequencePosition \<Rightarrow> bool" where
  "IsAfter p other \<longleftrightarrow> pos_value p > pos_value other"

definition IsBefore :: "SequencePosition \<Rightarrow> SequencePosition \<Rightarrow> bool" where
  "IsBefore p other \<longleftrightarrow> pos_value p < pos_value other"

definition SequencePosition_Equal :: "SequencePosition \<Rightarrow> SequencePosition \<Rightarrow> bool" where
  "SequencePosition_Equal p other \<longleftrightarrow> pos_value p = pos_value other"

definition SequencePosition_String :: "SequencePosition \<Rightarrow> string" where
  "SequencePosition_String p = FormatUint (pos_value p)"

definition SequencePositionInitial :: SequencePosition where
  "SequencePositionInitial = SequencePosition 0"

text \<open>The only error carries the rejected text, as the message of the source does.\<close>

datatype position_error = InvalidPositionString string

definition ParseSequencePosition :: "string \<Rightarrow> position_error + SequencePosition" where
  "ParseSequencePosition s =
     (case ParseUint s of
        Inl _ \<Rightarrow> Inl (InvalidPositionString s)
      | Inr n \<Rightarrow>
          if FormatUint n \<noteq> s then Inl (InvalidPositionString s)
          else Inr (SequencePosition n))"

definition CompareSequencePosition :: "SequencePosition \<Rightarrow> SequencePosition \<Rightarrow> int" where
  "CompareSequencePosition a b =
     (if pos_value a < pos_value b then -1
      else if pos_value a > pos_value b then 1
      else 0)"

section \<open>The order of positions\<close>

instantiation SequencePosition :: linorder
begin

definition less_eq_SequencePosition :: "SequencePosition \<Rightarrow> SequencePosition \<Rightarrow> bool" where
  "less_eq_SequencePosition p q \<longleftrightarrow> pos_value p \<le> pos_value q"

definition less_SequencePosition :: "SequencePosition \<Rightarrow> SequencePosition \<Rightarrow> bool" where
  "less_SequencePosition p q \<longleftrightarrow> pos_value p < pos_value q"

instance
  by standard
    (auto simp: less_eq_SequencePosition_def less_SequencePosition_def SequencePosition.expand)

end

lemmas position_order_defs = less_eq_SequencePosition_def less_SequencePosition_def

lemma IsAfter_less [simp]: "IsAfter p q \<longleftrightarrow> q < p"
  by (simp add: IsAfter_def less_SequencePosition_def)

lemma IsBefore_less [simp]: "IsBefore p q \<longleftrightarrow> p < q"
  by (simp add: IsBefore_def less_SequencePosition_def)

lemma SequencePosition_Equal_eq [simp]: "SequencePosition_Equal p q \<longleftrightarrow> p = q"
  by (simp add: SequencePosition_Equal_def SequencePosition.expand) (metis SequencePosition.expand)

lemma initial_least: "SequencePositionInitial \<le> p"
  by (simp add: SequencePositionInitial_def less_eq_SequencePosition_def)

section \<open>Text form\<close>

lemma Parse_SequencePosition_String [simp]:
  "ParseSequencePosition (SequencePosition_String p) = Inr p"
  by (simp add: ParseSequencePosition_def SequencePosition_String_def)

lemma ParseSequencePosition_Inr_iff:
  "ParseSequencePosition s = Inr p \<longleftrightarrow> s = SequencePosition_String p"
  by (auto simp: ParseSequencePosition_def SequencePosition_String_def
      split: sum.splits if_splits)

lemma SequencePosition_String_inj [simp]:
  "SequencePosition_String p = SequencePosition_String q \<longleftrightarrow> p = q"
  by (simp add: SequencePosition_String_def SequencePosition.expand) (metis SequencePosition.expand)

text \<open>
  C32: parsing accepts exactly the canonical decimal forms below \<open>2 ^ 64\<close> (no leading
  zeros, no sign, no fraction) and is the exact inverse of \<open>String\<close>; every other text is
  reported back in the error.
\<close>

theorem parse_position_exact:
  "ParseSequencePosition s =
     (if \<exists>n < 2 ^ 64. s = format_nat n
      then Inr (SequencePosition (of_nat (digits_value 0 s)))
      else Inl (InvalidPositionString s))"
proof (cases "\<exists>n < 2 ^ 64. s = format_nat n")
  case True
  then obtain n where n: "n < 2 ^ 64" "s = format_nat n" by blast
  then have "s = SequencePosition_String (SequencePosition (of_nat n))"
    by (simp add: SequencePosition_String_def FormatUint_def unat_of_nat)
  with n True show ?thesis by (simp add: ParseSequencePosition_Inr_iff)
next
  case False
  have "ParseSequencePosition s \<noteq> Inr p" for p
    using False unat_bound64 [of "pos_value p"]
    by (auto simp: ParseSequencePosition_Inr_iff SequencePosition_String_def FormatUint_def)
  moreover have "ParseSequencePosition s = Inl e \<Longrightarrow> e = InvalidPositionString s" for e
    by (auto simp: ParseSequencePosition_def split: sum.splits if_splits)
  ultimately show ?thesis using False by (cases "ParseSequencePosition s") auto
qed

text \<open>
  The comparator agrees with the comparisons: it is negative, zero or positive exactly
  when its first argument is before, equal to or after the second, and it is antisymmetric, so
  sorting with it sorts by position.
\<close>

theorem compare_position_correct:
  "(CompareSequencePosition a b = -1 \<longleftrightarrow> IsBefore a b)
   \<and> (CompareSequencePosition a b = 0 \<longleftrightarrow> SequencePosition_Equal a b)
   \<and> (CompareSequencePosition a b = 1 \<longleftrightarrow> IsAfter a b)
   \<and> CompareSequencePosition a b \<in> {-1, 0, 1}
   \<and> CompareSequencePosition b a = - CompareSequencePosition a b"
  by (auto simp: CompareSequencePosition_def SequencePosition_Equal_def IsAfter_def IsBefore_def
      simp del: IsAfter_less IsBefore_less SequencePosition_Equal_eq)

end
