(* ===== verification/Query.thy ===== *)
theory Query
  imports Tags Sequence_Position
begin

text \<open>
  The data model of package \<open>eventstore\<close>: events (\<open>event.go\<close>), queries
  (\<open>query.go\<close>), append conditions and commands (\<open>append_condition.go\<close>,
  \<open>append_command.go\<close>, \<open>append_condition_error.go\<close>) and the options of the store
  interface (\<open>store.go\<close>), with the validating constructors. A \<open>json.RawMessage\<close> is
  \<open>None\<close> when nil and the raw bytes otherwise; a nil pointer is \<open>None\<close>. The
  \<open>error\<close> values of the whole program are the constructors of one datatype.
\<close>

record Event =
  evType :: string
  evTags :: Tags
  evData :: "string option"
  evMetadata :: "string option"

record SequencedEvent =
  seEvent :: Event
  sePosition :: SequencePosition

record QueryItem =
  itemTypes :: "string list"
  itemTags :: Tags

record Query =
  query_items :: "QueryItem list"
  query_all :: bool

record AppendCondition =
  FailIfEventsMatch :: Query
  condAfter :: "SequencePosition option"

record AppendCommand =
  cmdEvents :: "Event list"
  cmdCondition :: "AppendCondition option"

record AppendConditionError =
  errCondition :: AppendCondition
  errCommandIndex :: "nat option"

record ReadOptions =
  Backwards :: bool
  readAfter :: "SequencePosition option"
  Limit :: int

record SubscribeOptions =
  subAfter :: "SequencePosition option"
  PollInterval :: int

datatype ctx_error = Canceled | DeadlineExceeded

datatype error =
    EmptyQueryItems
  | QueryItemWithoutTypes nat
  | UnscopedCondition
  | UnscopedConditionItem
  | ConditionViolated AppendConditionError
  | ZeroEvents
  | CtxError ctx_error
  | InvalidTableName string
  | TagsError tag_error
  | JsonError
  | PgError string
  | DriverError string

section \<open>Queries\<close>

definition QueryAll :: Query where
  "QueryAll = \<lparr>query_items = [], query_all = True\<rparr>"

fun item_without_types :: "nat \<Rightarrow> QueryItem list \<Rightarrow> nat option" where
  "item_without_types i [] = None"
| "item_without_types i (item # items) =
     (if length (itemTypes item) = 0 then Some i else item_without_types (Suc i) items)"

definition QueryFromItems :: "QueryItem list \<Rightarrow> error + Query" where
  "QueryFromItems items =
     (if length items = 0 then Inl EmptyQueryItems
      else case item_without_types 0 items of
             Some i \<Rightarrow> Inl (QueryItemWithoutTypes i)
           | None \<Rightarrow> Inr \<lparr>query_items = items, query_all = False\<rparr>)"

text \<open>Queries that the package's constructors build.\<close>

definition constructed :: "Query \<Rightarrow> bool" where
  "constructed q \<longleftrightarrow> q = QueryAll \<or> (\<exists>items. QueryFromItems items = Inr q)"

definition IsAll :: "Query \<Rightarrow> bool" where
  "IsAll q = query_all q"

definition Items :: "Query \<Rightarrow> QueryItem list" where
  "Items q = query_items q"

section \<open>Append conditions\<close>

fun unscoped_item :: "QueryItem list \<Rightarrow> bool" where
  "unscoped_item [] = False"
| "unscoped_item (item # items) =
     (if length (itemTypes item) = 0 \<or> Tags_Len (itemTags item) = 0 then True
      else unscoped_item items)"

definition ValidateAppendCondition :: "AppendCondition \<Rightarrow> error option" where
  "ValidateAppendCondition condition =
     (if IsAll (FailIfEventsMatch condition) then Some UnscopedCondition
      else if unscoped_item (Items (FailIfEventsMatch condition)) then Some UnscopedConditionItem
      else None)"

definition AppendConditionError_Error :: "AppendConditionError \<Rightarrow> string" where
  "AppendConditionError_Error e =
     (case errCommandIndex e of
        None \<Rightarrow> ''expected version fail: new events matching appendCondition found''
      | Some i \<Rightarrow>
          ''expected version fail: new events matching appendCondition found (command ''
            @ format_nat i @ '')'')"

text \<open>Short forms for concrete events and one-item conditions, as the conformance suite's helpers.\<close>

definition event_of :: "string \<Rightarrow> string list \<Rightarrow> Event" where
  "event_of t tags =
     \<lparr>evType = t, evTags = \<lparr>tag_values = fset_of_list tags\<rparr>, evData = None, evMetadata = None\<rparr>"

definition condition_of :: "string list \<Rightarrow> string list \<Rightarrow> SequencePosition option \<Rightarrow> AppendCondition" where
  "condition_of types tags after =
     \<lparr>FailIfEventsMatch =
        \<lparr>query_items = [\<lparr>itemTypes = types, itemTags = \<lparr>tag_values = fset_of_list tags\<rparr>\<rparr>],
         query_all = False\<rparr>,
      condAfter = after\<rparr>"

section \<open>What a query means\<close>

text \<open>
  The documented meaning: an event matches an item if its type is one of the item's types and
  its tags are a superset of the item's tags; a query is the match-all query or the union of
  its items.
\<close>

definition item_matches :: "QueryItem \<Rightarrow> Event \<Rightarrow> bool" where
  "item_matches item ev \<longleftrightarrow>
     evType ev \<in> set (itemTypes item) \<and> tag_values (itemTags item) |\<subseteq>| tag_values (evTags ev)"

definition query_matches :: "Query \<Rightarrow> Event \<Rightarrow> bool" where
  "query_matches q ev \<longleftrightarrow> query_all q \<or> (\<exists>item \<in> set (query_items q). item_matches item ev)"

definition condition_violated_by :: "AppendCondition \<Rightarrow> SequencedEvent \<Rightarrow> bool" where
  "condition_violated_by c se \<longleftrightarrow>
     query_matches (FailIfEventsMatch c) (seEvent se)
     \<and> (case condAfter c of None \<Rightarrow> True | Some p \<Rightarrow> p < sePosition se)"

definition item_scoped :: "QueryItem \<Rightarrow> bool" where
  "item_scoped item \<longleftrightarrow> itemTypes item \<noteq> [] \<and> tag_values (itemTags item) \<noteq> {||}"

definition condition_scoped :: "AppendCondition \<Rightarrow> bool" where
  "condition_scoped c \<longleftrightarrow>
     \<not> query_all (FailIfEventsMatch c) \<and> (\<forall>item \<in> set (query_items (FailIfEventsMatch c)). item_scoped item)"

lemma query_matches_QueryAll [simp]: "query_matches QueryAll ev"
  by (simp add: query_matches_def QueryAll_def)

lemma unscoped_item_iff: "unscoped_item items \<longleftrightarrow> (\<exists>item \<in> set items. \<not> item_scoped item)"
  by (induction items) (auto simp: item_scoped_def Tags_Len_0_iff)

lemma ValidateAppendCondition_None_iff:
  "ValidateAppendCondition c = None \<longleftrightarrow> condition_scoped c"
  by (auto simp: ValidateAppendCondition_def condition_scoped_def IsAll_def Items_def unscoped_item_iff)

lemma item_without_types_None_iff:
  "item_without_types i items = None \<longleftrightarrow> (\<forall>item \<in> set items. itemTypes item \<noteq> [])"
  by (induction items arbitrary: i) auto

lemma item_without_types_Some:
  "item_without_types i items = Some j \<Longrightarrow>
     i \<le> j \<and> j - i < length items \<and> itemTypes (items ! (j - i)) = []
     \<and> (\<forall>k < j - i. itemTypes (items ! k) \<noteq> [])"
proof (induction items arbitrary: i)
  case (Cons item items)
  show ?case
  proof (cases "itemTypes item = []")
    case True
    with Cons.prems show ?thesis by simp
  next
    case False
    with Cons.prems Cons.IH [of "Suc i"] have IH: "Suc i \<le> j \<and> j - Suc i < length items
      \<and> itemTypes (items ! (j - Suc i)) = [] \<and> (\<forall>k < j - Suc i. itemTypes (items ! k) \<noteq> [])"
      by simp
    then have "j - i = Suc (j - Suc i)" by linarith
    with IH False show ?thesis by (auto simp: less_Suc_eq_0_disj)
  qed
qed simp

text \<open>
  \<open>QueryFromItems\<close> rejects an empty slice, reports the first item without types by its
  index, and otherwise returns a query with exactly the given items that is not the match-all
  query and matches an event exactly when one of the items does.
\<close>

theorem QueryFromItems_correct:
  "case QueryFromItems items of
     Inl EmptyQueryItems \<Rightarrow> items = []
   | Inl (QueryItemWithoutTypes i) \<Rightarrow>
       i < length items \<and> itemTypes (items ! i) = [] \<and> (\<forall>k < i. itemTypes (items ! k) \<noteq> [])
   | Inl e \<Rightarrow> False
   | Inr q \<Rightarrow>
       items \<noteq> [] \<and> (\<forall>item \<in> set items. itemTypes item \<noteq> []) \<and> Items q = items \<and> \<not> IsAll q
       \<and> (\<forall>ev. query_matches q ev \<longleftrightarrow> (\<exists>item \<in> set items. item_matches item ev))"
proof (cases "item_without_types 0 items")
  case None
  then show ?thesis
    using item_without_types_None_iff [of 0 items]
    by (auto simp: QueryFromItems_def Items_def IsAll_def query_matches_def)
next
  case (Some i)
  then have "items \<noteq> []" by auto
  with Some show ?thesis
    using item_without_types_Some [OF Some] by (simp add: QueryFromItems_def)
qed

theorem QueryFromItems_correct_witness:
  "(\<exists>q. QueryFromItems [\<lparr>itemTypes = [''A''], itemTags = EmptyTags\<rparr>] = Inr q
        \<and> query_matches q \<lparr>evType = ''A'', evTags = EmptyTags, evData = None, evMetadata = None\<rparr>)
   \<and> QueryFromItems [\<lparr>itemTypes = [''A''], itemTags = EmptyTags\<rparr>, \<lparr>itemTypes = [], itemTags = EmptyTags\<rparr>]
        = Inl (QueryItemWithoutTypes 1)"
proof -
  let ?item = "\<lparr>itemTypes = [''A''], itemTags = EmptyTags\<rparr>"
  have "QueryFromItems [?item] = Inr \<lparr>query_items = [?item], query_all = False\<rparr>"
    by (simp add: QueryFromItems_def)
  then show ?thesis
    using QueryFromItems_correct [of "[?item]"]
    by (simp add: QueryFromItems_def item_matches_def)
qed

text \<open>
  C33: \<open>ValidateAppendCondition\<close> accepts exactly the scoped conditions: not the match-all
  query, and at least one type and one tag in every item. An accepted condition can therefore
  only be violated by an event that shares a type and a tag with one of its items.
\<close>

theorem ValidateAppendCondition_scoped:
  "(ValidateAppendCondition c = None) = condition_scoped c
   \<and> (condition_scoped c \<and> condition_violated_by c se \<longrightarrow>
        (\<exists>item \<in> set (Items (FailIfEventsMatch c)). \<exists>tag.
           evType (seEvent se) \<in> set (itemTypes item)
           \<and> tag |\<in>| tag_values (itemTags item) \<and> tag |\<in>| tag_values (evTags (seEvent se))))"
proof (intro conjI impI)
  show "(ValidateAppendCondition c = None) = condition_scoped c"
    by (rule ValidateAppendCondition_None_iff)
next
  assume a: "condition_scoped c \<and> condition_violated_by c se"
  then obtain item where item: "item \<in> set (query_items (FailIfEventsMatch c))"
      "item_matches item (seEvent se)" "item_scoped item"
    by (auto simp: condition_scoped_def condition_violated_by_def query_matches_def)
  then obtain tag where "tag |\<in>| tag_values (itemTags item)"
    by (auto simp: item_scoped_def)
  with item show "\<exists>item \<in> set (Items (FailIfEventsMatch c)). \<exists>tag.
      evType (seEvent se) \<in> set (itemTypes item)
      \<and> tag |\<in>| tag_values (itemTags item) \<and> tag |\<in>| tag_values (evTags (seEvent se))"
    by (auto simp: Items_def item_matches_def)
qed

theorem ValidateAppendCondition_scoped_witness:
  "let c = \<lparr>FailIfEventsMatch = \<lparr>query_items = [\<lparr>itemTypes = [''A''], itemTags = \<lparr>tag_values = {|''x''|}\<rparr>\<rparr>],
                                     query_all = False\<rparr>, condAfter = None\<rparr>;
       se = \<lparr>seEvent = \<lparr>evType = ''A'', evTags = \<lparr>tag_values = {|''x'', ''y''|}\<rparr>, evData = None, evMetadata = None\<rparr>,
             sePosition = SequencePosition 1\<rparr>
   in ValidateAppendCondition c = None \<and> condition_violated_by c se
      \<and> (\<exists>item \<in> set (Items (FailIfEventsMatch c)). \<exists>tag. tag |\<in>| tag_values (itemTags item))"
proof -
  let ?c = "\<lparr>FailIfEventsMatch = \<lparr>query_items = [\<lparr>itemTypes = [''A''], itemTags = \<lparr>tag_values = {|''x''|}\<rparr>\<rparr>],
                                     query_all = False\<rparr>, condAfter = None\<rparr>"
  let ?se = "\<lparr>seEvent = \<lparr>evType = ''A'', evTags = \<lparr>tag_values = {|''x'', ''y''|}\<rparr>, evData = None, evMetadata = None\<rparr>,
             sePosition = SequencePosition 1\<rparr>"
  have s: "condition_scoped ?c" by (simp add: condition_scoped_def item_scoped_def)
  have v: "condition_violated_by ?c ?se"
    by (simp add: condition_violated_by_def query_matches_def item_matches_def)
  show ?thesis
    using s v ValidateAppendCondition_scoped [of ?c ?se] unfolding Let_def by blast
qed

end
