(* ===== verification/Event_Iterator.thy ===== *)
theory Event_Iterator
  imports Query
begin

text \<open>
  \<open>eventstore/event_iterator.go\<close>: the \<open>EventIterator\<close> interface as a record of its
  four methods over the iterator's own state (\<open>Next\<close> may panic), and the two loops that drain one, \<open>Collect\<close>
  and \<open>All\<close> (here \<open>Collect_it\<close> and \<open>All_it\<close>). Nothing bounds the loop of an arbitrary iterator, so both are partial
  functions into \<open>option\<close>, with \<open>None\<close> for a loop that does not end. The locale
  \<open>bounded_iterator\<close> is what a Read iterator promises: a list of events still to come
  and the error, if any, it will end with. The loops are proved correct, and to end, for every
  iterator that keeps that promise; the stores interpret it for theirs.
\<close>

record 's EventIterator =
  it_Next :: "'s \<Rightarrow> (error, bool) outcome \<times> 's"
  it_Event :: "'s \<Rightarrow> (error, SequencedEvent) outcome"
  it_Err :: "'s \<Rightarrow> error option"
  it_Close :: "'s \<Rightarrow> 's"

partial_function (option) collect_loop ::
  "'s EventIterator \<Rightarrow> 's \<Rightarrow> SequencedEvent list \<Rightarrow>
     ((error, SequencedEvent list) outcome \<times> 's) option" where
  "collect_loop I s acc =
     (case fst (it_Next I s) of
        Ok again \<Rightarrow>
          (if again then
             (case it_Event I (snd (it_Next I s)) of
                Ok ev \<Rightarrow> collect_loop I (snd (it_Next I s)) (acc @ [ev])
              | Err e \<Rightarrow> Some (Err e, snd (it_Next I s))
              | Panic m \<Rightarrow> Some (Panic m, snd (it_Next I s)))
           else Some (Ok acc, snd (it_Next I s)))
      | Err e \<Rightarrow> Some (Err e, snd (it_Next I s))
      | Panic m \<Rightarrow> Some (Panic m, snd (it_Next I s)))"

text \<open>
  \<open>Collect\<close> returns the events and the iterator's error together, and closes the iterator
  on the way out whatever happened.
\<close>

definition Collect_it ::
  "'s EventIterator \<Rightarrow> 's \<Rightarrow>
     ((error, SequencedEvent list \<times> error option) outcome \<times> 's) option" where
  "Collect_it I s =
     map_option
       (\<lambda>(r, s'). (bind_outcome r (\<lambda>evs. Ok (evs, it_Err I s')), it_Close I s'))
       (collect_loop I s [])"

text \<open>
  \<open>All\<close> pushes each event to a callback \<open>yield\<close>, here a function on the consumer's
  state that also says whether to go on; a final error is pushed with a zero event.
\<close>

partial_function (option) all_loop ::
  "'s EventIterator \<Rightarrow> ('y \<Rightarrow> SequencedEvent option \<times> error option \<Rightarrow> bool \<times> 'y) \<Rightarrow> 's \<Rightarrow> 'y \<Rightarrow>
     ((error, 'y) outcome \<times> 's) option" where
  "all_loop I yield s y =
     (case fst (it_Next I s) of
        Ok again \<Rightarrow>
          (if again then
             (case it_Event I (snd (it_Next I s)) of
                Ok ev \<Rightarrow>
                  (if fst (yield y (Some ev, None))
                   then all_loop I yield (snd (it_Next I s)) (snd (yield y (Some ev, None)))
                   else Some (Ok (snd (yield y (Some ev, None))), snd (it_Next I s)))
              | Err e \<Rightarrow> Some (Err e, snd (it_Next I s))
              | Panic m \<Rightarrow> Some (Panic m, snd (it_Next I s)))
           else
             (case it_Err I (snd (it_Next I s)) of
                None \<Rightarrow> Some (Ok y, snd (it_Next I s))
              | Some e \<Rightarrow> Some (Ok (snd (yield y (None, Some e))), snd (it_Next I s))))
      | Err e \<Rightarrow> Some (Err e, snd (it_Next I s))
      | Panic m \<Rightarrow> Some (Panic m, snd (it_Next I s)))"

definition All_it ::
  "'s EventIterator \<Rightarrow> ('y \<Rightarrow> SequencedEvent option \<times> error option \<Rightarrow> bool \<times> 'y) \<Rightarrow> 's \<Rightarrow> 'y \<Rightarrow>
     ((error, 'y) outcome \<times> 's) option" where
  "All_it I yield s y = map_option (\<lambda>(r, s'). (r, it_Close I s')) (all_loop I yield s y)"

section \<open>The contract of a bounded iterator\<close>

text \<open>What a consumer of a range loop sees: the events in order until it stops, then the error.\<close>

fun consume ::
  "('y \<Rightarrow> SequencedEvent option \<times> error option \<Rightarrow> bool \<times> 'y) \<Rightarrow> 'y \<Rightarrow> SequencedEvent list \<Rightarrow>
     error option \<Rightarrow> 'y" where
  "consume yield y [] None = y"
| "consume yield y [] (Some e) = snd (yield y (None, Some e))"
| "consume yield y (ev # evs) f =
     (case yield y (Some ev, None) of
        (False, y') \<Rightarrow> y'
      | (True, y') \<Rightarrow> consume yield y' evs f)"

locale bounded_iterator =
  fixes I :: "'s EventIterator"
    and invar :: "'s \<Rightarrow> bool"
    and remaining :: "'s \<Rightarrow> SequencedEvent list"
    and fate :: "'s \<Rightarrow> error option"
    and released :: "'s \<Rightarrow> bool"
  assumes next_done:
      "invar s \<Longrightarrow> remaining s = [] \<Longrightarrow>
         fst (it_Next I s) = Ok False \<and> invar (snd (it_Next I s))
         \<and> it_Err I (snd (it_Next I s)) = fate s"
    and next_more:
      "invar s \<Longrightarrow> remaining s = ev # evs \<Longrightarrow>
         fst (it_Next I s) = Ok True \<and> invar (snd (it_Next I s))
         \<and> it_Event I (snd (it_Next I s)) = Ok ev
         \<and> remaining (snd (it_Next I s)) = evs \<and> fate (snd (it_Next I s)) = fate s"
    and close_releases: "invar s \<Longrightarrow> released (it_Close I s)"
begin

lemma collect_loop_remaining:
  "invar s \<Longrightarrow> \<exists>s'. collect_loop I s acc = Some (Ok (acc @ remaining s), s')
     \<and> it_Err I s' = fate s \<and> invar s'"
proof (induction "remaining s" arbitrary: s acc)
  case Nil
  then show ?case
    using next_done [of s]
    by (subst collect_loop.simps) (auto split: prod.splits bool.splits)
next
  case (Cons ev evs)
  have step: "fst (it_Next I s) = Ok True" "invar (snd (it_Next I s))"
      "it_Event I (snd (it_Next I s)) = Ok ev" "evs = remaining (snd (it_Next I s))"
      "fate (snd (it_Next I s)) = fate s"
    using next_more [OF Cons.prems Cons.hyps(2) [symmetric]] by auto
  have "collect_loop I s acc = collect_loop I (snd (it_Next I s)) (acc @ [ev])"
    using step(1,3) by (subst collect_loop.simps) (auto split: prod.splits bool.splits)
  then show ?case
    using Cons.hyps(1) [OF step(4,2), of "acc @ [ev]"] step(4,5) Cons.hyps(2) by auto
qed

lemma Collect_it_remaining:
  assumes "invar s"
  shows "\<exists>s'. Collect_it I s = Some (Ok (remaining s, fate s), s') \<and> released s'"
  using collect_loop_remaining [OF assms, of "[]"] close_releases
  by (auto simp: Collect_it_def)

lemma all_loop_remaining:
  "invar s \<Longrightarrow> \<exists>s'. all_loop I yield s y = Some (Ok (consume yield y (remaining s) (fate s)), s')
     \<and> invar s'"
proof (induction "remaining s" arbitrary: s y)
  case Nil
  then show ?case
    using next_done [of s]
    by (subst all_loop.simps) (cases "fate s"; auto split: prod.splits bool.splits option.splits)
next
  case (Cons ev evs)
  have step: "fst (it_Next I s) = Ok True" "invar (snd (it_Next I s))"
      "it_Event I (snd (it_Next I s)) = Ok ev" "evs = remaining (snd (it_Next I s))"
      "fate (snd (it_Next I s)) = fate s"
    using next_more [OF Cons.prems Cons.hyps(2) [symmetric]] by auto
  obtain b y' where y': "yield y (Some ev, None) = (b, y')" by fastforce
  have "all_loop I yield s y =
      (if b then all_loop I yield (snd (it_Next I s)) y' else Some (Ok y', snd (it_Next I s)))"
    using step(1,3) y' by (subst all_loop.simps) (auto split: prod.splits bool.splits)
  moreover have "consume yield y (remaining s) (fate s)
      = (if b then consume yield y' evs (fate s) else y')"
    using y' by (simp add: Cons.hyps(2) [symmetric])
  ultimately show ?case
    using Cons.hyps(1) [OF step(4,2), of y'] step(2,4,5) by auto
qed

lemma All_it_remaining:
  assumes "invar s"
  shows "\<exists>s'. All_it I yield s y = Some (Ok (consume yield y (remaining s) (fate s)), s')
           \<and> released s'"
  using all_loop_remaining [OF assms, of yield y] close_releases
  by (auto simp: All_it_def)

end

section \<open>Iterators that can only run out\<close>

text \<open>
  A weaker promise, which an iterator over data of unknown quality can still keep: every event
  it hands out is \<open>good\<close>, and each one uses up some of a rank. Then draining it ends,
  with a result, an error or a panic, in a \<open>final\<close> state.
\<close>

locale ranked_iterator =
  fixes I :: "'s EventIterator"
    and invar :: "'s \<Rightarrow> bool"
    and rank :: "'s \<Rightarrow> nat"
    and good :: "SequencedEvent \<Rightarrow> bool"
    and final :: "'s \<Rightarrow> bool"
  assumes next_yields:
      "invar s \<Longrightarrow> fst (it_Next I s) = Ok True \<Longrightarrow>
         invar (snd (it_Next I s)) \<and> rank (snd (it_Next I s)) < rank s
         \<and> (\<exists>ev. it_Event I (snd (it_Next I s)) = Ok ev \<and> good ev)"
    and next_stops: "invar s \<Longrightarrow> fst (it_Next I s) \<noteq> Ok True \<Longrightarrow> final (snd (it_Next I s))"
begin

lemma collect_loop_ends:
  "invar s \<Longrightarrow> \<exists>r s'. collect_loop I s acc = Some (r, s') \<and> final s'
     \<and> (\<forall>evs. r = Ok evs \<longrightarrow> (\<exists>new. evs = acc @ new \<and> list_all good new \<and> length new \<le> rank s))"
proof (induction "rank s" arbitrary: s acc rule: less_induct)
  case less
  let ?s' = "snd (it_Next I s)"
  show ?case
  proof (cases "fst (it_Next I s) = Ok True")
    case True
    then obtain ev where ev: "it_Event I ?s' = Ok ev" "good ev" and s': "invar ?s'" "rank ?s' < rank s"
      using next_yields [OF less.prems] by blast
    have "collect_loop I s acc = collect_loop I ?s' (acc @ [ev])"
      using True ev(1) by (subst collect_loop.simps) simp
    then show ?thesis
      using less.hyps [OF s'(2,1), of "acc @ [ev]"] ev(2) s'(2) by fastforce
  next
    case False
    then show ?thesis
      using next_stops [OF less.prems] by (subst collect_loop.simps) (auto split: outcome.splits if_splits)
  qed
qed

lemma Collect_it_ends:
  assumes "invar s"
  shows "\<exists>r s'. Collect_it I s = Some (r, it_Close I s') \<and> final s'
     \<and> (\<forall>evs e. r = Ok (evs, e) \<longrightarrow> list_all good evs \<and> length evs \<le> rank s)"
  using collect_loop_ends [OF assms, of "[]"] by (auto simp: Collect_it_def bind_outcome_Ok_iff)

end

text \<open>An iterator that keeps the stronger promise has its remaining events as its rank.\<close>

sublocale bounded_iterator \<subseteq> ranked: ranked_iterator I invar "\<lambda>s. length (remaining s)" "\<lambda>_. True" invar
proof
  fix s
  assume "invar s"
  then show "fst (it_Next I s) = Ok True \<Longrightarrow>
      invar (snd (it_Next I s)) \<and> length (remaining (snd (it_Next I s))) < length (remaining s)
      \<and> (\<exists>ev. it_Event I (snd (it_Next I s)) = Ok ev \<and> True)"
    and "fst (it_Next I s) \<noteq> Ok True \<Longrightarrow> invar (snd (it_Next I s))"
    using next_done [of s] next_more [of s] by (cases "remaining s"; auto)+
qed

end
