(* ===== verification/Store_Contract.thy ===== *)
theory Store_Contract
  imports Event_Iterator
begin

text \<open>
  The contract of \<open>eventstore.Store\<close> (\<open>store.go\<close>) for \<open>Append\<close>, as a locale:
  an implementation is a state with an append operation, and its contents are a log of
  sequenced events. The laws say when an append succeeds, what it then adds to the log, which
  error it reports when a condition is violated, and that a failed append changes nothing.
  The client lemmas are the guarantees of the conformance suite
  (\<open>eventstoretest/append.go\<close>, \<open>eventstoretest/concurrency.go\<close>), proved once for
  every implementation: an implementation that serializes its appends runs racing calls as
  some sequence of calls, and the lemmas hold for every sequence.
\<close>

section \<open>Commands, logs and conditions\<close>

definition command_events :: "AppendCommand list \<Rightarrow> Event list" where
  "command_events cmds = concat (map cmdEvents cmds)"

definition conditions_scoped :: "AppendCommand list \<Rightarrow> bool" where
  "conditions_scoped cmds \<longleftrightarrow>
     (\<forall>cmd \<in> set cmds. \<forall>c. cmdCondition cmd = Some c \<longrightarrow> condition_scoped c)"

definition command_violated :: "SequencedEvent list \<Rightarrow> AppendCommand \<Rightarrow> bool" where
  "command_violated lg cmd \<longleftrightarrow>
     (case cmdCondition cmd of
        None \<Rightarrow> False
      | Some c \<Rightarrow> (\<exists>se \<in> set lg. condition_violated_by c se))"

text \<open>The index of the first command whose condition the log violates.\<close>

fun first_violated :: "nat \<Rightarrow> SequencedEvent list \<Rightarrow> AppendCommand list \<Rightarrow> (nat \<times> AppendCondition) option" where
  "first_violated i lg [] = None"
| "first_violated i lg (cmd # cmds) =
     (case cmdCondition cmd of
        Some c \<Rightarrow>
          (if \<exists>se \<in> set lg. condition_violated_by c se then Some (i, c)
           else first_violated (Suc i) lg cmds)
      | None \<Rightarrow> first_violated (Suc i) lg cmds)"

text \<open>The loop both stores start an append with: the error of the first condition that is not scoped.\<close>

fun validate_commands :: "AppendCommand list \<Rightarrow> error option" where
  "validate_commands [] = None"
| "validate_commands (cmd # cmds) =
     (case cmdCondition cmd of
        None \<Rightarrow> validate_commands cmds
      | Some c \<Rightarrow>
          (case ValidateAppendCondition c of
             Some e \<Rightarrow> Some e
           | None \<Rightarrow> validate_commands cmds))"

text \<open>No event of the earlier call matches a condition of the later one.\<close>

definition leaves_unviolated :: "AppendCommand list \<Rightarrow> AppendCommand list \<Rightarrow> bool" where
  "leaves_unviolated earlier later \<longleftrightarrow>
     (\<forall>cmd \<in> set later. \<forall>c. cmdCondition cmd = Some c \<longrightarrow>
        (\<forall>ev \<in> set (command_events earlier). \<not> query_matches (FailIfEventsMatch c) ev))"

definition violation_error :: "AppendCommand list \<Rightarrow> nat \<Rightarrow> AppendCondition \<Rightarrow> error" where
  "violation_error cmds i c =
     ConditionViolated
       \<lparr>errCondition = c, errCommandIndex = (if length cmds > 1 then Some i else None)\<rparr>"

definition positions_ascend :: "SequencedEvent list \<Rightarrow> bool" where
  "positions_ascend lg \<longleftrightarrow> sorted_wrt (<) (map sePosition lg)"

lemma command_events_simps [simp]:
  "command_events [] = []"
  "command_events (cmd # cmds) = cmdEvents cmd @ command_events cmds"
  by (simp_all add: command_events_def)

lemma conditions_scoped_simps [simp]:
  "conditions_scoped []"
  "conditions_scoped (cmd # cmds) \<longleftrightarrow>
     (\<forall>c. cmdCondition cmd = Some c \<longrightarrow> condition_scoped c) \<and> conditions_scoped cmds"
  by (auto simp: conditions_scoped_def)

lemma validate_commands_None_iff: "validate_commands cmds = None \<longleftrightarrow> conditions_scoped cmds"
  by (induction cmds)
    (auto simp: ValidateAppendCondition_None_iff [symmetric] split: option.splits)

lemma first_violated_None_iff:
  "first_violated i lg cmds = None \<longleftrightarrow> (\<forall>cmd \<in> set cmds. \<not> command_violated lg cmd)"
  by (induction cmds arbitrary: i) (auto simp: command_violated_def split: option.splits)

lemma first_violated_Some:
  "first_violated i lg cmds = Some (j, c) \<Longrightarrow>
     i \<le> j \<and> j - i < length cmds \<and> cmdCondition (cmds ! (j - i)) = Some c
     \<and> command_violated lg (cmds ! (j - i)) \<and> (\<forall>k < j - i. \<not> command_violated lg (cmds ! k))"
proof (induction cmds arbitrary: i)
  case (Cons cmd cmds)
  show ?case
  proof (cases "command_violated lg cmd")
    case True
    with Cons.prems show ?thesis by (auto simp: command_violated_def split: option.splits)
  next
    case False
    then have eq: "first_violated i lg (cmd # cmds) = first_violated (Suc i) lg cmds"
      by (auto simp: command_violated_def split: option.splits)
    note IH = Cons.IH [OF Cons.prems [unfolded eq]]
    then have "j - i = Suc (j - Suc i)" by linarith
    with IH False show ?thesis by (auto simp: less_Suc_eq_0_disj)
  qed
qed simp

section \<open>What a read selects\<close>

text \<open>Which events the position restriction of a read admits.\<close>

definition in_read_range :: "ReadOptions \<Rightarrow> SequencePosition \<Rightarrow> bool" where
  "in_read_range opts p =
     (case readAfter opts of
        None \<Rightarrow> True
      | Some a \<Rightarrow> if Backwards opts then p < a else a < p)"

definition limited :: "int \<Rightarrow> 'a list \<Rightarrow> 'a list" where
  "limited n xs = (if n > 0 then take (nat n) xs else xs)"

lemma limited_long: "int (length xs) \<le> n \<Longrightarrow> limited n xs = xs"
  by (simp add: limited_def)

text \<open>The order and the limit that a read applies, on rows and on events alike.\<close>

definition read_view :: "ReadOptions \<Rightarrow> 'a list \<Rightarrow> 'a list" where
  "read_view opts xs = limited (Limit opts) ((if Backwards opts then rev else (\<lambda>xs. xs)) xs)"

lemma map_read_view: "map f (read_view opts xs) = read_view opts (map f xs)"
  by (simp add: read_view_def limited_def take_map rev_map)

lemma set_read_view: "set (read_view opts xs) \<subseteq> set xs"
  by (auto simp: read_view_def limited_def dest: in_set_takeD)

text \<open>Reading after the last delivered position of an ascending log gives what is not delivered yet.\<close>

lemma filter_after_delivered:
  assumes "sorted_wrt (<) (map sePosition (del @ rest))"
    and "\<forall>se \<in> set (del @ rest). start < sePosition se"
  shows "filter (\<lambda>se. (if del = [] then start else sePosition (last del)) < sePosition se) (del @ rest)
           = rest"
proof (cases del rule: rev_cases)
  case Nil
  with assms show ?thesis by (simp add: filter_id_conv)
next
  case (snoc xs x)
  with assms(1) have "\<forall>y \<in> set xs. sePosition y < sePosition x"
      "\<forall>y \<in> set rest. sePosition x < sePosition y"
    by (auto simp: sorted_wrt_append)
  then show ?thesis
    using snoc by (auto simp: filter_empty_conv filter_id_conv not_less less_imp_le)
qed

section \<open>The append contract\<close>

fun run_appends ::
  "('st \<Rightarrow> AppendCommand list \<Rightarrow> (error, SequencePosition) outcome \<times> 'st) \<Rightarrow> 'st \<Rightarrow>
     AppendCommand list list \<Rightarrow> (error, SequencePosition) outcome list \<times> 'st" where
  "run_appends f s [] = ([], s)"
| "run_appends f s (cmds # rest) =
     (let (r, s') = f s cmds; (rs, s'') = run_appends f s' rest in (r # rs, s''))"

locale append_store =
  fixes append :: "'st \<Rightarrow> AppendCommand list \<Rightarrow> (error, SequencePosition) outcome \<times> 'st"
    and lg :: "'st \<Rightarrow> SequencedEvent list"
    and invar :: "'st \<Rightarrow> bool"
    and room :: "'st \<Rightarrow> nat \<Rightarrow> bool"
    and storable :: "AppendCommand list \<Rightarrow> bool"
    and stored :: "Event \<Rightarrow> Event"
  assumes append_succeeds:
      "invar s \<Longrightarrow> storable cmds \<Longrightarrow> room s (length (command_events cmds)) \<Longrightarrow>
       conditions_scoped cmds \<Longrightarrow> command_events cmds \<noteq> [] \<Longrightarrow>
       \<forall>cmd \<in> set cmds. \<not> command_violated (lg s) cmd \<Longrightarrow>
       \<exists>s' new. append s cmds = (Ok (sePosition (last new)), s') \<and> lg s' = lg s @ new
         \<and> map seEvent new = map stored (command_events cmds)
         \<and> invar s' \<and> (\<forall>n. room s (length (command_events cmds) + n) \<longrightarrow> room s' n)"
    and append_violated:
      "invar s \<Longrightarrow> storable cmds \<Longrightarrow> conditions_scoped cmds \<Longrightarrow> command_events cmds \<noteq> [] \<Longrightarrow>
       first_violated 0 (lg s) cmds = Some (i, c) \<Longrightarrow>
       append s cmds = (Err (violation_error cmds i c), s)"
    and append_rejected:
      "invar s \<Longrightarrow> storable cmds \<Longrightarrow> \<not> conditions_scoped cmds \<or> command_events cmds = [] \<Longrightarrow>
       \<exists>e. append s cmds = (Err e, s)"
    and room_mono: "room s (m + n) \<Longrightarrow> room s m"
    and log_ascends: "invar s \<Longrightarrow> positions_ascend (lg s)"
    and stored_type: "evType (stored ev) = evType ev"
    and stored_tags: "evTags (stored ev) = evTags ev"
begin

lemma stored_matches: "query_matches q (stored ev) \<longleftrightarrow> query_matches q ev"
  by (simp add: query_matches_def item_matches_def stored_type stored_tags)

lemma append_failure_keeps_state:
  assumes "invar s" and "storable cmds" and "room s (length (command_events cmds))"
    and "append s cmds = (r, s')" and "\<nexists>p. r = Ok p"
  shows "s' = s"
proof (cases "conditions_scoped cmds \<and> command_events cmds \<noteq> []")
  case False
  with append_rejected [OF assms(1,2)] assms(4) show ?thesis by auto
next
  case True
  show ?thesis
  proof (cases "first_violated 0 (lg s) cmds")
    case None
    with True append_succeeds [OF assms(1,2,3)] assms(4,5) show ?thesis
      by (fastforce simp: first_violated_None_iff)
  next
    case (Some ic)
    obtain i c where ic: "ic = (i, c)" by fastforce
    have "append s cmds = (Err (violation_error cmds i c), s)"
      using append_violated [OF assms(1,2)] True Some ic by simp
    then show ?thesis using assms(4) by simp
  qed
qed

lemma new_position_after_log:
  assumes "invar s'" and "lg s' = lg s @ new" and "se \<in> set (lg s)" and "n \<in> set new"
  shows "sePosition se < sePosition n"
  using log_ascends [OF assms(1)] assms(2,3,4)
  by (auto simp: positions_ascend_def sorted_wrt_append)

text \<open>
  A single conditional append of one event that the condition itself matches: it can succeed
  only once, however often it is retried.
\<close>

lemma retry_violated:
  assumes "invar s" and "storable [cmd]" and "cmdCondition cmd = Some c" and "condition_scoped c"
    and "cmdEvents cmd = [ev]" and "se \<in> set (lg s)" and "condition_violated_by c se"
  shows "run_appends append s (replicate n [cmd]) =
           (replicate n (Err (violation_error [cmd] 0 c)), s)"
proof -
  have "first_violated 0 (lg s) [cmd] = Some (0, c)"
    using assms(3,6,7) by auto
  then have "append s [cmd] = (Err (violation_error [cmd] 0 c), s)"
    using append_violated [OF assms(1,2)] assms(3,4,5) by simp
  then show ?thesis by (induction n) auto
qed

lemma race_one_winner:
  assumes "invar s" and "storable [cmd]" and "room s 1"
    and "cmdCondition cmd = Some c" and "condition_scoped c"
    and "cmdEvents cmd = [ev]" and "query_matches (FailIfEventsMatch c) ev"
    and "\<forall>se \<in> set (lg s). \<not> condition_violated_by c se"
    and "condAfter c = None \<or> (\<exists>a. \<exists>se \<in> set (lg s). condAfter c = Some a \<and> a \<le> sePosition se)"
  shows "\<exists>p s'. run_appends append s (replicate (Suc n) [cmd]) =
           (Ok p # replicate n (Err (violation_error [cmd] 0 c)), s')
         \<and> lg s' = lg s @ [\<lparr>seEvent = stored ev, sePosition = p\<rparr>] \<and> invar s'"
proof -
  have "\<exists>s' new. append s [cmd] = (Ok (sePosition (last new)), s') \<and> lg s' = lg s @ new
      \<and> map seEvent new = map stored (command_events [cmd]) \<and> invar s'
      \<and> (\<forall>n. room s (length (command_events [cmd]) + n) \<longrightarrow> room s' n)"
    by (rule append_succeeds) (use assms in \<open>auto simp: command_violated_def\<close>)
  then obtain s' new where s': "append s [cmd] = (Ok (sePosition (last new)), s')"
      "lg s' = lg s @ new" "map seEvent new = map stored (command_events [cmd])" "invar s'"
    by blast
  then obtain se where new: "new = [se]" "seEvent se = stored ev"
    using assms(6) by (cases new) auto
  have "condition_violated_by c se"
  proof (cases "condAfter c")
    case None
    then show ?thesis using assms(7) new by (simp add: condition_violated_by_def stored_matches)
  next
    case (Some a)
    then obtain old where old: "old \<in> set (lg s)" "a \<le> sePosition old" using assms(9) by auto
    then have "sePosition old < sePosition se"
      using new_position_after_log [OF s'(4,2)] new by simp
    then show ?thesis using assms(7) new Some old by (auto simp: condition_violated_by_def stored_matches)
  qed
  then have "run_appends append s' (replicate n [cmd]) =
      (replicate n (Err (violation_error [cmd] 0 c)), s')"
    using retry_violated [OF s'(4) assms(2,4,5,6)] s'(2) new by auto
  moreover have "se = \<lparr>seEvent = stored ev, sePosition = sePosition se\<rparr>"
    using new(2) by simp
  ultimately show ?thesis using s' new by auto
qed

text \<open>
  A sequence of appends whose conditions are violated neither by the log nor by the events of
  the appends before them: all of them succeed, and the log grows by exactly their events.
\<close>

lemma independent_appends_succeed:
  assumes "invar s" and "room s (length (concat (map command_events batches)))"
    and "\<forall>cmds \<in> set batches. storable cmds \<and> conditions_scoped cmds \<and> command_events cmds \<noteq> []"
    and "\<forall>cmds \<in> set batches. \<forall>cmd \<in> set cmds. \<not> command_violated (lg s) cmd"
    and "sorted_wrt leaves_unviolated batches"
  shows "\<exists>ps s' new. run_appends append s batches = (map Ok ps, s') \<and> lg s' = lg s @ new
           \<and> map seEvent new = map stored (concat (map command_events batches))
           \<and> set ps \<subseteq> sePosition ` set new \<and> sorted_wrt (<) ps \<and> length ps = length batches
           \<and> invar s'"
  using assms
proof (induction batches arbitrary: s)
  case Nil
  then show ?case by auto
next
  case (Cons cmds batches)
  let ?rest = "concat (map command_events batches)"
  have room1: "room s (length (command_events cmds) + length ?rest)"
    using Cons.prems(2) by simp
  have "\<exists>s' new. append s cmds = (Ok (sePosition (last new)), s') \<and> lg s' = lg s @ new
      \<and> map seEvent new = map stored (command_events cmds)
      \<and> invar s' \<and> (\<forall>n. room s (length (command_events cmds) + n) \<longrightarrow> room s' n)"
    by (rule append_succeeds) (use Cons.prems room_mono [OF room1] in auto)
  then obtain s1 new1 where s1: "append s cmds = (Ok (sePosition (last new1)), s1)"
      "lg s1 = lg s @ new1" "map seEvent new1 = map stored (command_events cmds)"
      "invar s1" "room s1 (length ?rest)"
    using room1 by blast
  have ev1: "\<exists>ev \<in> set (command_events cmds). seEvent se = stored ev" if "se \<in> set new1" for se
    using s1(3) that by (metis (mono_tags, lifting) image_iff image_set)
  have later: "\<forall>cmds' \<in> set batches. \<forall>cmd \<in> set cmds'. \<not> command_violated (lg s1) cmd"
    using Cons.prems(4,5) s1(2)
    by (fastforce dest: ev1 simp: command_violated_def leaves_unviolated_def condition_violated_by_def
        stored_matches split: option.splits)
  have "\<exists>ps s' new. run_appends append s1 batches = (map Ok ps, s') \<and> lg s' = lg s1 @ new
      \<and> map seEvent new = map stored ?rest \<and> set ps \<subseteq> sePosition ` set new
      \<and> sorted_wrt (<) ps \<and> length ps = length batches \<and> invar s'"
    by (rule Cons.IH [OF s1(4,5) _ later]) (use Cons.prems(3,5) in simp_all)
  then obtain ps s' new where IH: "run_appends append s1 batches = (map Ok ps, s')"
      "lg s' = lg s1 @ new" "map seEvent new = map stored ?rest"
      "set ps \<subseteq> sePosition ` set new" "sorted_wrt (<) ps" "length ps = length batches" "invar s'"
    by blast
  have ne: "new1 \<noteq> []" using s1(3) Cons.prems(3) by fastforce
  have "\<forall>q \<in> set ps. sePosition (last new1) < q"
    using new_position_after_log [OF IH(7,2)] s1(2) ne IH(4) by fastforce
  then have "run_appends append s (cmds # batches) = (map Ok (sePosition (last new1) # ps), s')
      \<and> lg s' = lg s @ new1 @ new
      \<and> map seEvent (new1 @ new) = map stored (concat (map command_events (cmds # batches)))
      \<and> set (sePosition (last new1) # ps) \<subseteq> sePosition ` set (new1 @ new)
      \<and> sorted_wrt (<) (sePosition (last new1) # ps)
      \<and> length (sePosition (last new1) # ps) = length (cmds # batches) \<and> invar s'"
    using s1 IH ne by auto
  then show ?case by blast
qed

end

section \<open>The read contract\<close>

text \<open>
  A store that can be read as well: the iterator of a read drains to the matching events of
  the log, in the order and up to the limit of the options. The law speaks of the queries on
  which every implementation has to agree (at most one tag per item) and of positions that the
  store has handed out.
\<close>

definition single_tags :: "Query \<Rightarrow> bool" where
  "single_tags q \<longleftrightarrow> (\<forall>item \<in> set (Items q). Tags_Len (itemTags item) \<le> 1)"

definition known_after :: "SequencedEvent list \<Rightarrow> ReadOptions \<Rightarrow> bool" where
  "known_after lg opts \<longleftrightarrow> (\<forall>a. readAfter opts = Some a \<longrightarrow> a \<in> sePosition ` set lg)"

definition is_condition_error :: "error \<Rightarrow> bool" where
  "is_condition_error e \<longleftrightarrow> (case e of ConditionViolated c \<Rightarrow> True | _ \<Rightarrow> False)"

lemma validate_commands_plain: "validate_commands cmds = Some e \<Longrightarrow> \<not> is_condition_error e"
  by (induction cmds) (auto simp: ValidateAppendCondition_def is_condition_error_def split: option.splits if_splits)

locale event_store = append_store append lg invar room storable stored
  for append :: "'st \<Rightarrow> AppendCommand list \<Rightarrow> (error, SequencePosition) outcome \<times> 'st"
    and lg :: "'st \<Rightarrow> SequencedEvent list"
    and invar :: "'st \<Rightarrow> bool"
    and room :: "'st \<Rightarrow> nat \<Rightarrow> bool"
    and storable :: "AppendCommand list \<Rightarrow> bool"
    and stored :: "Event \<Rightarrow> Event" +
  fixes read :: "'st \<Rightarrow> Query \<Rightarrow> ReadOptions \<Rightarrow> (error, 'it) outcome"
    and methods :: "'it EventIterator"
  assumes read_selects:
      "invar s \<Longrightarrow> constructed q \<Longrightarrow> single_tags q \<Longrightarrow> known_after (lg s) opts \<Longrightarrow>
       \<exists>it it'. read s q opts = Ok it
         \<and> Collect_it methods it =
             Some (Ok (read_view opts (filter (\<lambda>se. in_read_range opts (sePosition se)
                                         \<and> query_matches q (seEvent se)) (lg s)), None), it')"
    and append_after_initial:
      "invar s \<Longrightarrow> storable cmds \<Longrightarrow> room s (length (command_events cmds)) \<Longrightarrow>
       append s cmds = (Ok p, s') \<Longrightarrow> SequencePositionInitial < p"
    and append_rejected_plainly:
      "invar s \<Longrightarrow> storable cmds \<Longrightarrow> lg s = [] \<Longrightarrow> \<not> conditions_scoped cmds \<or> command_events cmds = [] \<Longrightarrow>
       \<exists>e. append s cmds = (Err e, s) \<and> \<not> is_condition_error e"

end
