(* ===== verification/Memory_Matching.thy ===== *)
theory Memory_Matching
  imports Store_Contract
begin

text \<open>
  \<open>memory/matching.go\<close> and \<open>memory/position.go\<close>: the loops that decide whether an
  event matches a query, whether any event violates a condition, and which events a read
  returns; and the conversions between positions and the store's counter, with their panics.
  The lemmas state each loop against the documented meaning of queries and read options.
\<close>

section \<open>Matching\<close>

fun isTagSubset_loop :: "string list \<Rightarrow> Tags \<Rightarrow> bool" where
  "isTagSubset_loop [] tags = True"
| "isTagSubset_loop (v # vs) tags =
     (if v \<notin> set (Values tags) then False else isTagSubset_loop vs tags)"

definition isTagSubset :: "Tags \<Rightarrow> Tags \<Rightarrow> bool" where
  "isTagSubset filt tags = isTagSubset_loop (Values filt) tags"

definition matchesQueryItem :: "QueryItem \<Rightarrow> Event \<Rightarrow> bool" where
  "matchesQueryItem item ev \<longleftrightarrow>
     evType ev \<in> set (itemTypes item) \<and> isTagSubset (itemTags item) (evTags ev)"

fun matchesQuery_loop :: "QueryItem list \<Rightarrow> Event \<Rightarrow> bool" where
  "matchesQuery_loop [] ev = False"
| "matchesQuery_loop (item # items) ev =
     (if matchesQueryItem item ev then True else matchesQuery_loop items ev)"

definition matchesQuery :: "Query \<Rightarrow> Event \<Rightarrow> bool" where
  "matchesQuery query ev = (if IsAll query then True else matchesQuery_loop (Items query) ev)"

fun anyMatchAfter ::
  "SequencedEvent list \<Rightarrow> Query \<Rightarrow> SequencePosition option \<Rightarrow> bool" where
  "anyMatchAfter [] query after = False"
| "anyMatchAfter (se # events) query after =
     (if (case after of None \<Rightarrow> False | Some a \<Rightarrow> \<not> IsAfter (sePosition se) a)
      then anyMatchAfter events query after
      else if matchesQuery query (seEvent se) then True
      else anyMatchAfter events query after)"

fun matchingEvents_loop ::
  "SequencedEvent list \<Rightarrow> Query \<Rightarrow> ReadOptions \<Rightarrow> SequencedEvent list \<Rightarrow> SequencedEvent list" where
  "matchingEvents_loop [] query opts result = result"
| "matchingEvents_loop (se # events) query opts result =
     (if (case readAfter opts of
            None \<Rightarrow> False
          | Some a \<Rightarrow>
              if Backwards opts then \<not> IsBefore (sePosition se) a
              else \<not> IsAfter (sePosition se) a)
      then matchingEvents_loop events query opts result
      else if \<not> matchesQuery query (seEvent se) then matchingEvents_loop events query opts result
      else matchingEvents_loop events query opts (result @ [se]))"

definition matchingEvents ::
  "SequencedEvent list \<Rightarrow> Query \<Rightarrow> ReadOptions \<Rightarrow> SequencedEvent list" where
  "matchingEvents events query opts =
     (let result = matchingEvents_loop events query opts [];
          result = (if Backwards opts then rev result else result)
      in if Limit opts > 0 \<and> int (length result) > Limit opts
         then take (nat (Limit opts)) result else result)"

section \<open>Positions and the counter\<close>

definition lastPosition :: "SequencedEvent list \<Rightarrow> SequencePosition" where
  "lastPosition events =
     (if length events = 0 then SequencePositionInitial
      else sePosition (events ! (length events - 1)))"

definition counterFrom :: "SequencePosition \<Rightarrow> (error, uint64) outcome" where
  "counterFrom pos =
     (case ParseUint (SequencePosition_String pos) of
        Inl _ \<Rightarrow> Panic ''memory: impossible non-numeric position''
      | Inr n \<Rightarrow> Ok n)"

definition positionFromCounter :: "uint64 \<Rightarrow> (error, SequencePosition) outcome" where
  "positionFromCounter n =
     (case ParseSequencePosition (FormatUint n) of
        Inl _ \<Rightarrow> Panic ''memory: impossible invalid counter''
      | Inr pos \<Rightarrow> Ok pos)"

section \<open>The loops against the meaning of queries\<close>

lemma isTagSubset_loop_iff: "isTagSubset_loop vs tags \<longleftrightarrow> set vs \<subseteq> fset (tag_values tags)"
  by (induction vs) auto

lemma isTagSubset_iff [simp]: "isTagSubset f t \<longleftrightarrow> tag_values f |\<subseteq>| tag_values t"
  by (simp add: isTagSubset_def isTagSubset_loop_iff less_eq_fset.rep_eq)

lemma matchesQueryItem_iff [simp]: "matchesQueryItem item ev \<longleftrightarrow> item_matches item ev"
  by (simp add: matchesQueryItem_def item_matches_def)

lemma matchesQuery_loop_iff:
  "matchesQuery_loop items ev \<longleftrightarrow> (\<exists>item \<in> set items. item_matches item ev)"
  by (induction items) auto

lemma matchesQuery_iff [simp]: "matchesQuery q ev \<longleftrightarrow> query_matches q ev"
  by (simp add: matchesQuery_def query_matches_def IsAll_def Items_def matchesQuery_loop_iff)

lemma anyMatchAfter_iff [simp]:
  "anyMatchAfter events q after \<longleftrightarrow>
     (\<exists>se \<in> set events. query_matches q (seEvent se)
        \<and> (case after of None \<Rightarrow> True | Some a \<Rightarrow> a < sePosition se))"
  by (induction events) (auto split: option.splits)

lemma anyMatchAfter_condition:
  "anyMatchAfter events (FailIfEventsMatch c) (condAfter c) \<longleftrightarrow>
     (\<exists>se \<in> set events. condition_violated_by c se)"
  by (simp add: condition_violated_by_def)

lemma matchingEvents_loop_filter:
  "matchingEvents_loop events q opts result =
     result @ filter (\<lambda>se. in_read_range opts (sePosition se) \<and> query_matches q (seEvent se)) events"
  by (induction events arbitrary: result) (auto simp: in_read_range_def split: option.splits)

lemma matchingEvents_eq:
  "matchingEvents events q opts =
     limited (Limit opts)
       ((if Backwards opts then rev else (\<lambda>xs. xs))
         (filter (\<lambda>se. in_read_range opts (sePosition se) \<and> query_matches q (seEvent se)) events))"
  by (auto simp: matchingEvents_def Let_def matchingEvents_loop_filter limited_def)

lemma counterFrom_eq [simp]: "counterFrom p = Ok (pos_value p)"
  by (simp add: counterFrom_def SequencePosition_String_def)

lemma positionFromCounter_eq [simp]: "positionFromCounter n = Ok (SequencePosition n)"
  using Parse_SequencePosition_String [of "SequencePosition n"]
  by (simp add: positionFromCounter_def SequencePosition_String_def)

lemma lastPosition_simps [simp]:
  "lastPosition [] = SequencePositionInitial"
  "lastPosition (events @ [se]) = sePosition se"
  by (simp_all add: lastPosition_def)

lemma lastPosition_last: "events \<noteq> [] \<Longrightarrow> lastPosition events = sePosition (last events)"
  by (simp add: lastPosition_def last_conv_nth)

end
