(* ===== verification/Memory_Store.thy ===== *)
theory Memory_Store
  imports Memory_Matching
begin

text \<open>
  \<open>memory/store.go\<close> and the slice iterator of \<open>memory/iterator.go\<close>: the in-memory
  store. Its state is the struct's event slice and broadcast channel; channels are numbered
  and the run-time's view of them (the next fresh number, the closed ones) is kept beside the
  store, so that closing a closed channel is the panic it is in Go. Each operation runs under
  the mutex and is one state transformer. The store is proved to satisfy the append contract
  for every state its operations can reach with positions left to allocate.
\<close>

record Store =
  store_events :: "SequencedEvent list"
  store_broadcast :: nat

record Chans =
  next_chan :: nat
  closed_chans :: "nat set"

record Mem =
  mem_store :: Store
  mem_chans :: Chans

definition make_chan :: "Chans \<Rightarrow> nat \<times> Chans" where
  "make_chan h = (next_chan h, h\<lparr>next_chan := next_chan h + 1\<rparr>)"

definition close_chan :: "nat \<Rightarrow> Chans \<Rightarrow> (error, Chans) outcome" where
  "close_chan c h =
     (if c \<in> closed_chans h then Panic ''close of closed channel''
      else Ok (h\<lparr>closed_chans := insert c (closed_chans h)\<rparr>))"

definition mem_New :: "SequencedEvent list \<Rightarrow> Chans \<Rightarrow> Mem" where
  "mem_New initialEvents h =
     (let (c, h') = make_chan h
      in \<lparr>mem_store = \<lparr>store_events = initialEvents, store_broadcast = c\<rparr>, mem_chans = h'\<rparr>)"

section \<open>Append\<close>

fun number_events :: "uint64 \<Rightarrow> Event list \<Rightarrow> (error, uint64 \<times> SequencedEvent list) outcome" where
  "number_events counter [] = Ok (counter, [])"
| "number_events counter (ev # evs) =
     bind_outcome (positionFromCounter (counter + 1)) (\<lambda>pos.
       bind_outcome (number_events (counter + 1) evs) (\<lambda>(counter', rest).
         Ok (counter', \<lparr>seEvent = ev, sePosition = pos\<rparr> # rest)))"

fun append_loop ::
  "SequencedEvent list \<Rightarrow> bool \<Rightarrow> nat \<Rightarrow> AppendCommand list \<Rightarrow> uint64 \<Rightarrow> SequencedEvent list \<Rightarrow>
     (error, SequencedEvent list) outcome" where
  "append_loop existing multiCommand i [] counter newEvents = Ok newEvents"
| "append_loop existing multiCommand i (cmd # cmds) counter newEvents =
     (case (case cmdCondition cmd of
              None \<Rightarrow> None
            | Some c \<Rightarrow>
                if anyMatchAfter existing (FailIfEventsMatch c) (condAfter c) then Some c else None) of
        Some c \<Rightarrow>
          Err (ConditionViolated
                 \<lparr>errCondition = c, errCommandIndex = (if multiCommand then Some i else None)\<rparr>)
      | None \<Rightarrow>
          bind_outcome (number_events counter (cmdEvents cmd)) (\<lambda>(counter', evs).
            append_loop existing multiCommand (Suc i) cmds counter' (newEvents @ evs)))"

definition mem_Append ::
  "ctx_error option \<Rightarrow> Mem \<Rightarrow> AppendCommand list \<Rightarrow> (error, SequencePosition) outcome \<times> Mem" where
  "mem_Append ctxErr m commands =
     (case ctxErr of
        Some e \<Rightarrow> (Err (CtxError e), m)
      | None \<Rightarrow>
     (case validate_commands commands of
        Some e \<Rightarrow> (Err e, m)
      | None \<Rightarrow>
        let existing = store_events (mem_store m);
            newEvents = bind_outcome (counterFrom (lastPosition existing)) (\<lambda>counter.
              append_loop existing (length commands > 1) 0 commands counter [])
        in case newEvents of
             Err e \<Rightarrow> (Err e, m)
           | Panic p \<Rightarrow> (Panic p, m)
           | Ok newEvents \<Rightarrow>
               if length newEvents = 0 then (Err ZeroEvents, m)
               else
                 case close_chan (store_broadcast (mem_store m)) (mem_chans m) of
                   Err e \<Rightarrow> (Err e, m)
                 | Panic p \<Rightarrow> (Panic p, m)
                 | Ok h \<Rightarrow>
                     let (c, h') = make_chan h
                     in (Ok (sePosition (newEvents ! (length newEvents - 1))),
                         \<lparr>mem_store = \<lparr>store_events = existing @ newEvents, store_broadcast = c\<rparr>,
                          mem_chans = h'\<rparr>)))"

section \<open>Read and the slice iterator\<close>

record sliceIterator =
  slice_events :: "SequencedEvent list"
  slice_idx :: nat

definition slice_Next :: "sliceIterator \<Rightarrow> bool \<times> sliceIterator" where
  "slice_Next it =
     (if slice_idx it \<ge> length (slice_events it) then (False, it)
      else (True, it\<lparr>slice_idx := slice_idx it + 1\<rparr>))"

definition slice_Event :: "sliceIterator \<Rightarrow> (error, SequencedEvent) outcome" where
  "slice_Event it =
     (if slice_idx it = 0 \<or> slice_idx it > length (slice_events it)
      then Panic ''index out of range''
      else Ok (slice_events it ! (slice_idx it - 1)))"

definition sliceIterator_methods :: "sliceIterator EventIterator" where
  "sliceIterator_methods =
     \<lparr>it_Next = (\<lambda>it. map_prod Ok id (slice_Next it)), it_Event = slice_Event, it_Err = (\<lambda>_. None), it_Close = (\<lambda>it. it)\<rparr>"

definition mem_Read ::
  "ctx_error option \<Rightarrow> Mem \<Rightarrow> Query \<Rightarrow> ReadOptions \<Rightarrow> (error, sliceIterator) outcome" where
  "mem_Read ctxErr m query opts =
     (case ctxErr of
        Some e \<Rightarrow> Err (CtxError e)
      | None \<Rightarrow>
          Ok \<lparr>slice_events = matchingEvents (store_events (mem_store m)) query opts,
              slice_idx = 0\<rparr>)"

interpretation slice: bounded_iterator sliceIterator_methods "\<lambda>_. True"
  "\<lambda>it. drop (slice_idx it) (slice_events it)" "\<lambda>_. None" "\<lambda>_. True"
proof unfold_locales
  fix s :: sliceIterator and ev evs
  assume "drop (slice_idx s) (slice_events s) = ev # evs"
  then have "slice_idx s < length (slice_events s)" "slice_events s ! slice_idx s = ev"
      "drop (Suc (slice_idx s)) (slice_events s) = evs"
    by (metis drop_all leI list.distinct(1), metis hd_drop_conv_nth drop_all leI list.distinct(1) list.sel(1),
        metis drop_Suc list.sel(3) tl_drop)
  then show "fst (it_Next sliceIterator_methods s) = Ok True \<and> True
      \<and> it_Event sliceIterator_methods (snd (it_Next sliceIterator_methods s)) = Ok ev
      \<and> drop (slice_idx (snd (it_Next sliceIterator_methods s)))
          (slice_events (snd (it_Next sliceIterator_methods s))) = evs
      \<and> (None :: error option) = None"
    by (simp add: sliceIterator_methods_def slice_Next_def slice_Event_def)
qed (auto simp: sliceIterator_methods_def slice_Next_def)

section \<open>The store's invariant\<close>

definition chans_ok :: "Mem \<Rightarrow> bool" where
  "chans_ok m \<longleftrightarrow>
     store_broadcast (mem_store m) < next_chan (mem_chans m)
     \<and> store_broadcast (mem_store m) \<notin> closed_chans (mem_chans m)
     \<and> (\<forall>c \<in> closed_chans (mem_chans m). c < next_chan (mem_chans m))"

definition mem_ok :: "Mem \<Rightarrow> bool" where
  "mem_ok m \<longleftrightarrow> chans_ok m \<and> positions_ascend (store_events (mem_store m))"

definition mem_room :: "Mem \<Rightarrow> nat \<Rightarrow> bool" where
  "mem_room m n \<longleftrightarrow> unat (pos_value (lastPosition (store_events (mem_store m)))) + n < 2 ^ 64"

text \<open>The events an append adds when every condition holds: numbered on from the last position.\<close>

fun numbered :: "uint64 \<Rightarrow> Event list \<Rightarrow> SequencedEvent list" where
  "numbered counter [] = []"
| "numbered counter (ev # evs) =
     \<lparr>seEvent = ev, sePosition = SequencePosition (counter + 1)\<rparr> # numbered (counter + 1) evs"

lemma numbered_append:
  "numbered counter (xs @ ys) = numbered counter xs @ numbered (counter + of_nat (length xs)) ys"
  by (induction xs arbitrary: counter) (auto simp: algebra_simps)

lemma numbered_Nil_iff [simp]: "numbered counter evs = [] \<longleftrightarrow> evs = []"
  by (cases evs) auto

lemma length_numbered [simp]: "length (numbered counter evs) = length evs"
  by (induction evs arbitrary: counter) auto

lemma map_seEvent_numbered [simp]: "map seEvent (numbered counter evs) = evs"
  by (induction evs arbitrary: counter) auto

lemma number_events_eq [simp]:
  "number_events counter evs = Ok (counter + of_nat (length evs), numbered counter evs)"
  by (induction evs arbitrary: counter) (auto simp: algebra_simps)

lemma append_loop_eq:
  "append_loop existing multi i cmds counter newEvents =
     (case first_violated i existing cmds of
        Some (j, c) \<Rightarrow>
          Err (ConditionViolated
                 \<lparr>errCondition = c, errCommandIndex = (if multi then Some j else None)\<rparr>)
      | None \<Rightarrow> Ok (newEvents @ numbered counter (command_events cmds)))"
  by (induction cmds arbitrary: i counter newEvents)
    (auto simp: numbered_append anyMatchAfter_condition simp del: anyMatchAfter_iff split: option.splits)

lemma numbered_positions:
  assumes "unat counter + length evs < 2 ^ 64" and "se \<in> set (numbered counter evs)"
  shows "counter < pos_value (sePosition se)"
  using assms
proof (induction evs arbitrary: counter)
  case (Cons ev evs)
  have u: "unat (counter + 1) = unat counter + 1"
    using Cons.prems(1) by (simp add: unat_word_ariths)
  then have lt: "counter < counter + 1" by (simp add: word_less_nat_alt)
  then show ?case using Cons.IH [of "counter + 1"] Cons.prems u by auto
qed simp

lemma numbered_ascend:
  assumes "unat counter + length evs < 2 ^ 64"
  shows "positions_ascend (numbered counter evs)"
  using assms
proof (induction evs arbitrary: counter)
  case (Cons ev evs)
  have "unat (counter + 1) = unat counter + 1"
    using Cons.prems by (simp add: unat_word_ariths)
  then have r: "unat (counter + 1) + length evs < 2 ^ 64" using Cons.prems by simp
  show ?case
    using Cons.IH [OF r] numbered_positions [OF r]
    by (auto simp: positions_ascend_def less_SequencePosition_def)
qed (simp add: positions_ascend_def)

lemma ascend_last:
  assumes "positions_ascend events" and "se \<in> set events"
  shows "sePosition se \<le> lastPosition events"
proof (cases events rule: rev_cases)
  case Nil
  with assms(2) show ?thesis by simp
next
  case (snoc xs x)
  with assms show ?thesis
    by (auto simp: positions_ascend_def sorted_wrt_append less_imp_le)
qed

lemma append_numbered_ascend:
  assumes "positions_ascend events"
    and "unat (pos_value (lastPosition events)) + length evs < 2 ^ 64"
  shows "positions_ascend (events @ numbered (pos_value (lastPosition events)) evs)"
  using assms(1) numbered_ascend [OF assms(2)] numbered_positions [OF assms(2)]
    ascend_last [OF assms(1)]
  by (fastforce simp: positions_ascend_def sorted_wrt_append position_order_defs)

lemma last_numbered:
  "evs \<noteq> [] \<Longrightarrow> sePosition (last (numbered counter evs)) = SequencePosition (counter + of_nat (length evs))"
  by (induction evs arbitrary: counter) (auto simp: algebra_simps)

section \<open>What Append does\<close>

definition appended :: "Mem \<Rightarrow> AppendCommand list \<Rightarrow> Mem" where
  "appended m cmds =
     \<lparr>mem_store =
        \<lparr>store_events = store_events (mem_store m)
           @ numbered (pos_value (lastPosition (store_events (mem_store m)))) (command_events cmds),
         store_broadcast = next_chan (mem_chans m)\<rparr>,
      mem_chans =
        \<lparr>next_chan = next_chan (mem_chans m) + 1,
         closed_chans = insert (store_broadcast (mem_store m)) (closed_chans (mem_chans m))\<rparr>\<rparr>"

lemma mem_Append_eq:
  assumes "chans_ok m"
  shows "mem_Append None m cmds =
    (case validate_commands cmds of
       Some e \<Rightarrow> (Err e, m)
     | None \<Rightarrow>
         (case first_violated 0 (store_events (mem_store m)) cmds of
            Some (i, c) \<Rightarrow> (Err (violation_error cmds i c), m)
          | None \<Rightarrow>
              if command_events cmds = [] then (Err ZeroEvents, m)
              else (Ok (lastPosition (store_events (mem_store (appended m cmds)))), appended m cmds)))"
proof -
  let ?new = "numbered (pos_value (lastPosition (store_events (mem_store m)))) (command_events cmds)"
  have last: "lastPosition (xs @ ?new) = sePosition (?new ! (length (command_events cmds) - Suc 0))"
    if "command_events cmds \<noteq> []" for xs
    using that by (simp add: lastPosition_last) (simp add: last_conv_nth)
  have "store_broadcast (mem_store m) \<notin> closed_chans (mem_chans m)"
    using assms by (simp add: chans_ok_def)
  then show ?thesis
    by (simp add: mem_Append_def append_loop_eq violation_error_def close_chan_def make_chan_def
        Let_def appended_def last split: option.splits)
qed

lemma appended_chans_ok: "chans_ok m \<Longrightarrow> chans_ok (appended m cmds)"
  by (auto simp: chans_ok_def appended_def)

lemma appended_ok:
  "mem_ok m \<Longrightarrow> mem_room m (length (command_events cmds)) \<Longrightarrow> mem_ok (appended m cmds)"
  by (auto simp: mem_ok_def mem_room_def appended_chans_ok)
    (auto simp: appended_def intro: append_numbered_ascend)

lemma appended_room:
  assumes "mem_room m (length (command_events cmds) + n)"
  shows "mem_room (appended m cmds) n"
proof (cases "command_events cmds = []")
  case True
  with assms show ?thesis by (simp add: mem_room_def appended_def)
next
  case False
  let ?c = "pos_value (lastPosition (store_events (mem_store m)))"
  have "lastPosition (store_events (mem_store (appended m cmds)))
      = SequencePosition (?c + of_nat (length (command_events cmds)))"
    using False by (simp add: appended_def lastPosition_last last_numbered)
  moreover have "unat (?c + of_nat (length (command_events cmds))) = unat ?c + length (command_events cmds)"
    using assms by (simp add: mem_room_def unat_word_ariths unat_of_nat)
  ultimately show ?thesis using assms by (simp add: mem_room_def)
qed

interpretation mem: append_store "mem_Append None" "\<lambda>m. store_events (mem_store m)" mem_ok mem_room
  "\<lambda>_. True" "\<lambda>ev. ev"
proof unfold_locales
  fix s cmds
  assume ok: "mem_ok s" and room: "mem_room s (length (command_events cmds))"
    and "conditions_scoped cmds" "command_events cmds \<noteq> []"
    "\<forall>cmd \<in> set cmds. \<not> command_violated (store_events (mem_store s)) cmd"
  then have "mem_Append None s cmds =
      (Ok (lastPosition (store_events (mem_store (appended s cmds)))), appended s cmds)"
    by (simp add: mem_Append_eq mem_ok_def validate_commands_None_iff [symmetric]
        first_violated_None_iff [symmetric, of _ _ 0])
  moreover have "lastPosition (store_events (mem_store (appended s cmds))) = sePosition
      (last (numbered (pos_value (lastPosition (store_events (mem_store s)))) (command_events cmds)))"
    using \<open>command_events cmds \<noteq> []\<close> by (simp add: appended_def lastPosition_last)
  ultimately show "\<exists>s' new. mem_Append None s cmds = (Ok (sePosition (last new)), s')
      \<and> store_events (mem_store s') = store_events (mem_store s) @ new
      \<and> map seEvent new = map (\<lambda>ev. ev) (command_events cmds) \<and> mem_ok s'
      \<and> (\<forall>n. mem_room s (length (command_events cmds) + n) \<longrightarrow> mem_room s' n)"
    using appended_ok [OF ok room] appended_room [of s cmds]
    by (intro exI [of _ "appended s cmds"]
        exI [of _ "numbered (pos_value (lastPosition (store_events (mem_store s)))) (command_events cmds)"])
      (simp add: appended_def)
next
  fix s cmds
  assume "mem_ok s" and "\<not> conditions_scoped cmds \<or> command_events cmds = []"
  then show "\<exists>e. mem_Append None s cmds = (Err e, s)"
    by (auto simp: mem_Append_eq mem_ok_def validate_commands_None_iff [symmetric] split: option.splits)
qed (auto simp: mem_Append_eq mem_ok_def mem_room_def validate_commands_None_iff [symmetric]
    split: option.splits)

section \<open>Properties of the in-memory store\<close>

text \<open>
  C24: the whole behaviour of \<open>Append\<close> on a store that satisfies the invariant. A context
  that has ended is reported as its error, before anything else is looked at and with the store
  untouched. On a live context the commands are rejected, in this order, for an unscoped condition, for the first condition that an event already in the store
  violates (reported with its condition, and its index when there are several commands), and
  for having no events at all; otherwise the events of all commands are appended in order at
  consecutive positions and the last one's position is returned. Conditions are checked
  against the store before the call, so commands of one batch never see each other.
\<close>

theorem mem_Append_behaviour:
  assumes "mem_ok m"
  shows "mem_Append ctx m cmds =
    (case ctx of
       Some e \<Rightarrow> (Err (CtxError e), m)
     | None \<Rightarrow>
    (case validate_commands cmds of
       Some e \<Rightarrow> (Err e, m)
     | None \<Rightarrow>
         (case first_violated 0 (store_events (mem_store m)) cmds of
            Some (i, c) \<Rightarrow> (Err (violation_error cmds i c), m)
          | None \<Rightarrow>
              if command_events cmds = [] then (Err ZeroEvents, m)
              else (Ok (SequencePosition (pos_value (lastPosition (store_events (mem_store m)))
                          + of_nat (length (command_events cmds)))), appended m cmds))))"
proof (cases ctx)
  case None
  have "lastPosition (store_events (mem_store (appended m cmds))) =
      SequencePosition (pos_value (lastPosition (store_events (mem_store m)))
        + of_nat (length (command_events cmds)))" if "command_events cmds \<noteq> []"
    using that by (simp add: appended_def lastPosition_last last_numbered)
  then show ?thesis
    using assms None by (simp add: mem_Append_eq mem_ok_def split: option.splits)
qed (simp add: mem_Append_def)

definition no_chans :: Chans where
  "no_chans = \<lparr>next_chan = 0, closed_chans = {}\<rparr>"

lemma mem_New_ok:
  assumes "positions_ascend evs" and "\<forall>c \<in> closed_chans h. c < next_chan h"
  shows "mem_ok (mem_New evs h)"
  using assms by (auto simp: mem_ok_def chans_ok_def mem_New_def make_chan_def Let_def)

lemma mem_New_empty_ok: "mem_ok (mem_New [] no_chans)"
  by (rule mem_New_ok) (auto simp: positions_ascend_def no_chans_def)

theorem mem_Append_behaviour_witness:
  "mem_Append None (mem_New [] no_chans)
     [\<lparr>cmdEvents = [event_of ''A'' [''x'']], cmdCondition = Some (condition_of [''A''] [''x''] None)\<rparr>,
      \<lparr>cmdEvents = [event_of ''B'' []], cmdCondition = None\<rparr>]
   = (Ok (SequencePosition 2),
      appended (mem_New [] no_chans)
        [\<lparr>cmdEvents = [event_of ''A'' [''x'']], cmdCondition = Some (condition_of [''A''] [''x''] None)\<rparr>,
         \<lparr>cmdEvents = [event_of ''B'' []], cmdCondition = None\<rparr>])
   \<and> mem_Append (Some Canceled) (mem_New [] no_chans) [] = (Err (CtxError Canceled), mem_New [] no_chans)"
  using mem_Append_behaviour [OF mem_New_empty_ok, of "Some Canceled" "[]"]
    mem_Append_behaviour [OF mem_New_empty_ok, of None
      "[\<lparr>cmdEvents = [event_of ''A'' [''x'']], cmdCondition = Some (condition_of [''A''] [''x''] None)\<rparr>,
        \<lparr>cmdEvents = [event_of ''B'' []], cmdCondition = None\<rparr>]"]
  by (simp add: mem_New_def make_chan_def no_chans_def condition_of_def ValidateAppendCondition_def
      IsAll_def Items_def Tags_Len_def SequencePositionInitial_def)

text \<open>
  C25: every append keeps the store's invariant (positions strictly ascend, the broadcast
  channel is open and fresh) as long as the 64-bit counter has room for the new events, and no
  append ever panics: neither the position conversions nor the close of the broadcast channel.
\<close>

theorem mem_Append_safe:
  assumes "mem_ok m" and "mem_room m (length (command_events cmds))"
  shows "mem_ok (snd (mem_Append ctx m cmds)) \<and> \<not> is_panic (fst (mem_Append ctx m cmds))"
proof (cases ctx)
  case None
  then show ?thesis
    using assms appended_ok [OF assms] by (simp add: mem_Append_eq mem_ok_def split: option.splits)
next
  case (Some e)
  then show ?thesis using assms by (simp add: mem_Append_def)
qed

theorem mem_Append_safe_witness:
  "mem_ok (mem_New [] no_chans)
   \<and> mem_ok (snd (mem_Append None (mem_New [] no_chans)
       [\<lparr>cmdEvents = [event_of ''A'' []], cmdCondition = None\<rparr>]))"
proof -
  have r: "mem_room (mem_New [] no_chans)
      (length (command_events [\<lparr>cmdEvents = [event_of ''A'' []], cmdCondition = None\<rparr>]))"
    by (simp add: mem_room_def mem_New_def make_chan_def no_chans_def SequencePositionInitial_def)
  show ?thesis using mem_Append_safe [OF mem_New_empty_ok r, of None] mem_New_empty_ok by simp
qed



text \<open>
  Appends to disjoint scopes do not disturb each other: if no condition is violated by
  the store or by an event of an earlier call (its own events may match it), then all calls
  succeed, their positions strictly ascend (so they are distinct) and no event is lost or
  duplicated.
\<close>

theorem mem_independent_appends:
  assumes "mem_ok m" and "mem_room m (length (concat (map command_events batches)))"
    and "\<forall>cmds \<in> set batches. conditions_scoped cmds \<and> command_events cmds \<noteq> []"
    and "\<forall>cmds \<in> set batches. \<forall>cmd \<in> set cmds. \<not> command_violated (store_events (mem_store m)) cmd"
    and "sorted_wrt leaves_unviolated batches"
  shows "\<exists>ps m' new. run_appends (mem_Append None) m batches = (map Ok ps, m')
           \<and> store_events (mem_store m') = store_events (mem_store m) @ new
           \<and> map seEvent new = concat (map command_events batches)
           \<and> set ps \<subseteq> sePosition ` set new \<and> sorted_wrt (<) ps \<and> length ps = length batches"
proof -
  have b: "\<forall>cmds \<in> set batches. True \<and> conditions_scoped cmds \<and> command_events cmds \<noteq> []"
    using assms(3) by blast
  show ?thesis
    using mem.independent_appends_succeed [OF assms(1,2) b assms(4,5)] unfolding list.map_ident by blast
qed

theorem mem_independent_appends_witness:
  "\<exists>ps m' new. run_appends (mem_Append None) (mem_New [] no_chans)
       [[\<lparr>cmdEvents = [event_of ''A'' [''x'']], cmdCondition = Some (condition_of [''A''] [''x''] None)\<rparr>],
        [\<lparr>cmdEvents = [event_of ''A'' [''y'']], cmdCondition = Some (condition_of [''A''] [''y''] None)\<rparr>]]
         = (map Ok ps, m')
     \<and> store_events (mem_store m') = new
     \<and> map seEvent new = [event_of ''A'' [''x''], event_of ''A'' [''y'']] \<and> sorted_wrt (<) ps \<and> length ps = 2"
proof -
  let ?b = "[[\<lparr>cmdEvents = [event_of ''A'' [''x'']], cmdCondition = Some (condition_of [''A''] [''x''] None)\<rparr>],
        [\<lparr>cmdEvents = [event_of ''A'' [''y'']], cmdCondition = Some (condition_of [''A''] [''y''] None)\<rparr>]]"
  have m: "store_events (mem_store (mem_New [] no_chans)) = []"
    by (simp add: mem_New_def make_chan_def)
  have r: "mem_room (mem_New [] no_chans) (length (concat (map command_events ?b)))"
    by (simp add: mem_room_def m SequencePositionInitial_def)
  have s: "\<forall>cmds \<in> set ?b. conditions_scoped cmds \<and> command_events cmds \<noteq> []"
    by (simp add: condition_of_def condition_scoped_def item_scoped_def)
  have i: "\<forall>cmds \<in> set ?b. \<forall>cmd \<in> set cmds.
      \<not> command_violated (store_events (mem_store (mem_New [] no_chans))) cmd"
    by (simp add: m command_violated_def)
  have w: "sorted_wrt leaves_unviolated ?b"
    by (simp add: leaves_unviolated_def condition_of_def event_of_def query_matches_def item_matches_def)
  have l: "length ?b = 2" and e: "concat (map command_events ?b) = [event_of ''A'' [''x''], event_of ''A'' [''y'']]"
    by simp_all
  obtain ps m' new where *: "run_appends (mem_Append None) (mem_New [] no_chans) ?b = (map Ok ps, m')"
      "store_events (mem_store m') = [] @ new"
      "map seEvent new = concat (map command_events ?b)" "sorted_wrt (<) ps" "length ps = length ?b"
    using mem_independent_appends [OF mem_New_empty_ok r s i w] unfolding m by (elim exE conjE)
  show ?thesis
    by (rule exI [of _ ps], rule exI [of _ m'], rule exI [of _ new])
      (use * in \<open>simp only: l e append_Nil simp_thms\<close>)
qed

text \<open>
  C26: a read on a live context returns an iterator that \<open>Collect\<close> drains, without an
  error, to exactly the events that match the query beyond (or, backwards, below) the given
  position, in ascending (or descending) position order, cut to the limit if it is positive.
\<close>

theorem mem_Read_correct:
  "\<exists>it it'. mem_Read None m query opts = Ok it
     \<and> Collect_it sliceIterator_methods it =
         Some (Ok (limited (Limit opts)
           ((if Backwards opts then rev else (\<lambda>xs. xs))
             (filter (\<lambda>se. in_read_range opts (sePosition se) \<and> query_matches query (seEvent se))
               (store_events (mem_store m)))), None), it')"
proof -
  let ?it = "\<lparr>slice_events = matchingEvents (store_events (mem_store m)) query opts, slice_idx = 0\<rparr>"
  have "mem_Read None m query opts = Ok ?it" by (simp add: mem_Read_def)
  moreover obtain it' where "Collect_it sliceIterator_methods ?it =
      Some (Ok (matchingEvents (store_events (mem_store m)) query opts, None), it')"
    using slice.Collect_it_remaining [of ?it] by auto
  ultimately show ?thesis unfolding matchingEvents_eq by blast
qed

end
