(* ===== verification/Memory_Subscribe.thy ===== *)
theory Memory_Subscribe
  imports Memory_Store
begin

text \<open>
  \<open>Store.Subscribe\<close> and \<open>subscribeIterator\<close> of package \<open>memory\<close>: a subscription
  that drains what matches and then blocks on the store's broadcast channel. One pass through
  the loop of \<open>Next\<close> is a function (it takes the mutex at most once, so it is atomic);
  its interleavings with appends by other goroutines and with the cancellation of the context
  are a step relation. The proofs show that events are delivered exactly once, in order and
  without gaps, and that no wake-up is ever lost.
\<close>

record subscribeIterator =
  sub_query :: Query
  sub_position :: SequencePosition
  sub_pending :: "SequencedEvent list"
  sub_current :: "SequencedEvent option"

definition mem_Subscribe ::
  "ctx_error option \<Rightarrow> Query \<Rightarrow> SubscribeOptions \<Rightarrow> (error, subscribeIterator) outcome" where
  "mem_Subscribe ctxErr query opts =
     (case ctxErr of
        Some e \<Rightarrow> Err (CtxError e)
      | None \<Rightarrow>
          let position = (case subAfter opts of None \<Rightarrow> SequencePositionInitial | Some p \<Rightarrow> p)
          in Ok \<lparr>sub_query = query, sub_position = position, sub_pending = [], sub_current = None\<rparr>)"

text \<open>
  One pass of the loop: return true with the first pending event, go round again with a
  fresh batch, or block on the channel that was current when the snapshot was taken.
\<close>

datatype pass = ReturnTrue | Again | Block nat

fun next_pass :: "Mem \<Rightarrow> subscribeIterator \<Rightarrow> pass \<times> subscribeIterator" where
  "next_pass m it =
     (case sub_pending it of
        ev # rest \<Rightarrow>
          (ReturnTrue, it\<lparr>sub_current := Some ev, sub_pending := rest, sub_position := sePosition ev\<rparr>)
      | [] \<Rightarrow>
          let events = matchingEvents (store_events (mem_store m)) (sub_query it)
                         \<lparr>Backwards = False, readAfter = Some (sub_position it), Limit = 0\<rparr>;
              waitCh = store_broadcast (mem_store m)
          in if length events > 0 then (Again, it\<lparr>sub_pending := events\<rparr>)
             else (Block waitCh, it))"

declare next_pass.simps [simp del]

section \<open>Interleavings\<close>

datatype sub_pc = Idle | InLoop | Waiting nat | ReturnedFalse

record sub_sys =
  sys_mem :: Mem
  sys_it :: subscribeIterator
  sys_pc :: sub_pc
  sys_done :: bool
  sys_delivered :: "SequencedEvent list"

inductive sub_step :: "sub_sys \<Rightarrow> sub_sys \<Rightarrow> bool" where
  call: "sys_pc s = Idle \<or> sys_pc s = ReturnedFalse \<Longrightarrow> sub_step s (s\<lparr>sys_pc := InLoop\<rparr>)"
| return_true:
    "sys_pc s = InLoop \<Longrightarrow> next_pass (sys_mem s) (sys_it s) = (ReturnTrue, it') \<Longrightarrow>
     sub_current it' = Some ev \<Longrightarrow>
     sub_step s (s\<lparr>sys_it := it', sys_pc := Idle, sys_delivered := sys_delivered s @ [ev]\<rparr>)"
| again:
    "sys_pc s = InLoop \<Longrightarrow> next_pass (sys_mem s) (sys_it s) = (Again, it') \<Longrightarrow>
     sub_step s (s\<lparr>sys_it := it'\<rparr>)"
| block:
    "sys_pc s = InLoop \<Longrightarrow> next_pass (sys_mem s) (sys_it s) = (Block ch, it') \<Longrightarrow>
     sub_step s (s\<lparr>sys_it := it', sys_pc := Waiting ch\<rparr>)"
| wake:
    "sys_pc s = Waiting ch \<Longrightarrow> ch \<in> closed_chans (mem_chans (sys_mem s)) \<Longrightarrow>
     sub_step s (s\<lparr>sys_pc := InLoop\<rparr>)"
| stop:
    "sys_pc s = Waiting ch \<Longrightarrow> sys_done s \<Longrightarrow> sub_step s (s\<lparr>sys_pc := ReturnedFalse\<rparr>)"
| cancel: "sub_step s (s\<lparr>sys_done := True\<rparr>)"
| append:
    "mem_room (sys_mem s) (length (command_events cmds)) \<Longrightarrow>
     sub_step s (s\<lparr>sys_mem := snd (mem_Append ctx (sys_mem s) cmds)\<rparr>)"

inductive_cases sub_step_elim: "sub_step s t"

definition sub_init :: "Mem \<Rightarrow> subscribeIterator \<Rightarrow> sub_sys" where
  "sub_init m it =
     \<lparr>sys_mem = m, sys_it = it, sys_pc = Idle, sys_done = False, sys_delivered = []\<rparr>"

text \<open>Everything the subscription is to deliver: the matching events after its start.\<close>

definition due :: "Query \<Rightarrow> SequencePosition \<Rightarrow> Mem \<Rightarrow> SequencedEvent list" where
  "due q start m =
     filter (\<lambda>se. start < sePosition se \<and> query_matches q (seEvent se)) (store_events (mem_store m))"

definition sub_inv :: "Query \<Rightarrow> SequencePosition \<Rightarrow> sub_sys \<Rightarrow> bool" where
  "sub_inv q start s \<longleftrightarrow>
     mem_ok (sys_mem s) \<and> sub_query (sys_it s) = q
     \<and> (\<exists>rest. due q start (sys_mem s) = sys_delivered s @ sub_pending (sys_it s) @ rest)
     \<and> sub_position (sys_it s) =
         (if sys_delivered s = [] then start else sePosition (last (sys_delivered s)))
     \<and> (\<forall>ch. sys_pc s = Waiting ch \<longrightarrow>
          ch \<in> closed_chans (mem_chans (sys_mem s))
          \<or> ch = store_broadcast (mem_store (sys_mem s)) \<and> sub_pending (sys_it s) = []
             \<and> due q start (sys_mem s) = sys_delivered s)"

lemma due_ascend: "mem_ok m \<Longrightarrow> sorted_wrt (<) (map sePosition (due q start m))"
  by (simp add: mem_ok_def positions_ascend_def due_def sorted_wrt_map sorted_wrt_filter)

text \<open>
  What the snapshot of a pass returns: reading after the last delivered position gives exactly
  what is due and not yet delivered.
\<close>

lemma filter_position_due:
  assumes "start \<le> p"
  shows "filter (\<lambda>se. p < sePosition se) (due q start m) =
    matchingEvents (store_events (mem_store m)) q \<lparr>Backwards = False, readAfter = Some p, Limit = 0\<rparr>"
  using assms
  by (auto simp: due_def matchingEvents_eq limited_def in_read_range_def intro!: filter_cong)

lemma snapshot_due:
  assumes "mem_ok m" and "due q start m = del @ rest"
    and "p = (if del = [] then start else sePosition (last del))"
  shows "matchingEvents (store_events (mem_store m)) q
    \<lparr>Backwards = False, readAfter = Some p, Limit = 0\<rparr> = rest"
proof -
  have all: "\<forall>se \<in> set (del @ rest). start < sePosition se"
    using assms(2) by (auto simp: due_def filter_eq_Cons_iff dest!: arg_cong [where f = set])
  then have "start \<le> p" using assms(3) by (auto simp: less_imp_le split: if_splits)
  then show ?thesis
    using filter_position_due [of start p q m]
      filter_after_delivered [OF due_ascend [OF assms(1), of q start, unfolded assms(2)] all]
    unfolding assms(2) assms(3) by simp
qed

section \<open>The invariant is kept by every step\<close>

lemma mem_Append_cases:
  assumes "mem_ok m"
  shows "snd (mem_Append ctx m cmds) = m \<or> snd (mem_Append ctx m cmds) = appended m cmds"
proof (cases ctx)
  case None
  then show ?thesis using assms by (simp add: mem_Append_eq mem_ok_def split: option.splits)
next
  case (Some e)
  then show ?thesis by (simp add: mem_Append_def)
qed

lemma due_appended:
  "due q start (appended m cmds) = due q start m @
     filter (\<lambda>se. start < sePosition se \<and> query_matches q (seEvent se))
       (numbered (pos_value (lastPosition (store_events (mem_store m)))) (command_events cmds))"
  by (simp add: due_def appended_def)

lemma sub_inv_append:
  assumes "sub_inv q start s" and "mem_room (sys_mem s) (length (command_events cmds))"
  shows "sub_inv q start (s\<lparr>sys_mem := snd (mem_Append ctx (sys_mem s) cmds)\<rparr>)"
proof -
  have ok: "mem_ok (sys_mem s)" using assms(1) by (simp add: sub_inv_def)
  show ?thesis
  proof (cases "snd (mem_Append ctx (sys_mem s) cmds) = sys_mem s")
    case True
    then show ?thesis using assms(1) by simp
  next
    case False
    then have eq: "snd (mem_Append ctx (sys_mem s) cmds) = appended (sys_mem s) cmds"
      using mem_Append_cases [OF ok] by blast
    have closed: "closed_chans (mem_chans (appended (sys_mem s) cmds)) =
        insert (store_broadcast (mem_store (sys_mem s))) (closed_chans (mem_chans (sys_mem s)))"
      by (simp add: appended_def)
    show ?thesis
      using assms(1) appended_ok [OF ok assms(2)]
      by (auto simp: sub_inv_def eq due_appended closed)
  qed
qed

lemma sub_inv_pass:
  assumes "sub_inv q start s" and "sub_pending (sys_it s) = []"
  obtains rest where "due q start (sys_mem s) = sys_delivered s @ rest"
    and "next_pass (sys_mem s) (sys_it s) =
      (if rest = [] then (Block (store_broadcast (mem_store (sys_mem s))), sys_it s)
       else (Again, (sys_it s)\<lparr>sub_pending := rest\<rparr>))"
proof -
  obtain rest where rest: "due q start (sys_mem s) = sys_delivered s @ rest"
    using assms by (auto simp: sub_inv_def)
  have "matchingEvents (store_events (mem_store (sys_mem s))) q
      \<lparr>Backwards = False, readAfter = Some (sub_position (sys_it s)), Limit = 0\<rparr> = rest"
    by (rule snapshot_due [OF _ rest]) (use assms(1) in \<open>simp_all add: sub_inv_def\<close>)
  then show thesis
    using that [OF rest] assms by (simp add: next_pass.simps sub_inv_def Let_def)
qed

lemma sub_inv_step:
  assumes "sub_step s t" and "sub_inv q start s"
  shows "sub_inv q start t"
  using assms
proof (cases rule: sub_step.cases)
  case (return_true it' ev)
  show ?thesis
  proof (cases "sub_pending (sys_it s)")
    case Nil
    then show ?thesis using return_true assms(2)
      by (auto simp: next_pass.simps Let_def split: if_splits)
  next
    case (Cons x xs)
    then show ?thesis using return_true assms(2) by (auto simp: next_pass.simps sub_inv_def)
  qed
next
  case (again it')
  then have nil: "sub_pending (sys_it s) = []"
    by (auto simp: next_pass.simps split: list.splits)
  obtain rest where rest: "due q start (sys_mem s) = sys_delivered s @ rest"
      "next_pass (sys_mem s) (sys_it s) =
        (if rest = [] then (Block (store_broadcast (mem_store (sys_mem s))), sys_it s)
         else (Again, (sys_it s)\<lparr>sub_pending := rest\<rparr>))"
    by (rule sub_inv_pass [OF assms(2) nil])
  then have "it' = (sys_it s)\<lparr>sub_pending := rest\<rparr>" using again by (simp split: if_splits)
  with rest(1) show ?thesis using again assms(2) by (auto simp: sub_inv_def)
next
  case (block ch it')
  then have nil: "sub_pending (sys_it s) = []"
    by (auto simp: next_pass.simps split: list.splits)
  obtain rest where rest: "due q start (sys_mem s) = sys_delivered s @ rest"
      "next_pass (sys_mem s) (sys_it s) =
        (if rest = [] then (Block (store_broadcast (mem_store (sys_mem s))), sys_it s)
         else (Again, (sys_it s)\<lparr>sub_pending := rest\<rparr>))"
    by (rule sub_inv_pass [OF assms(2) nil])
  then have "rest = []" "it' = sys_it s" "ch = store_broadcast (mem_store (sys_mem s))"
    using block by (simp_all split: if_splits)
  with rest(1) show ?thesis using block assms(2) nil by (auto simp: sub_inv_def)
next
  case (append cmds ctx)
  then show ?thesis using sub_inv_append [OF assms(2)] by simp
qed (auto simp: sub_inv_def)

lemma sub_inv_reachable:
  assumes "sub_step\<^sup>*\<^sup>* (sub_init m it) s" and "mem_ok m"
    and "mem_Subscribe None q opts = Ok it"
  shows "sub_inv q (sub_position it) s"
  using assms(1)
proof (induction rule: rtranclp_induct)
  case base
  then show ?case
    using assms(2,3) by (auto simp: sub_inv_def sub_init_def mem_Subscribe_def Let_def)
next
  case (step s t)
  then show ?case by (blast intro: sub_inv_step)
qed

text \<open>
  Left to itself, a subscriber that has not been stopped delivers the next due event.
\<close>

lemma deliver_pending:
  assumes "sys_pc s = InLoop" and "sub_pending (sys_it s) = ev # rest"
  shows "\<exists>t. sub_step s t \<and> sys_delivered t = sys_delivered s @ [ev] \<and> sys_mem t = sys_mem s"
proof -
  obtain it' where "next_pass (sys_mem s) (sys_it s) = (ReturnTrue, it')" "sub_current it' = Some ev"
    using assms(2) by (simp add: next_pass.simps)
  then show ?thesis using sub_step.return_true [OF assms(1)] by fastforce
qed

lemma loop_delivers:
  assumes "sub_inv q start s" and "sys_pc s = InLoop"
    and "due q start (sys_mem s) = sys_delivered s @ ev # rest"
  shows "\<exists>t. sub_step\<^sup>*\<^sup>* s t \<and> sys_delivered t = sys_delivered s @ [ev] \<and> sys_mem t = sys_mem s"
proof (cases "sub_pending (sys_it s)")
  case (Cons x xs)
  then have "x = ev" using assms(1,3) by (auto simp: sub_inv_def)
  then show ?thesis using deliver_pending [OF assms(2) Cons] by blast
next
  case Nil
  obtain r where "due q start (sys_mem s) = sys_delivered s @ r"
      "next_pass (sys_mem s) (sys_it s) =
        (if r = [] then (Block (store_broadcast (mem_store (sys_mem s))), sys_it s)
         else (Again, (sys_it s)\<lparr>sub_pending := r\<rparr>))"
    by (rule sub_inv_pass [OF assms(1) Nil])
  then have "next_pass (sys_mem s) (sys_it s) = (Again, (sys_it s)\<lparr>sub_pending := ev # rest\<rparr>)"
    using assms(3) by auto
  then have step: "sub_step s (s\<lparr>sys_it := (sys_it s)\<lparr>sub_pending := ev # rest\<rparr>\<rparr>)"
    by (rule sub_step.again [OF assms(2)])
  obtain t where "sub_step (s\<lparr>sys_it := (sys_it s)\<lparr>sub_pending := ev # rest\<rparr>\<rparr>) t"
      "sys_delivered t = sys_delivered s @ [ev]" "sys_mem t = sys_mem s"
    using deliver_pending [of "s\<lparr>sys_it := (sys_it s)\<lparr>sub_pending := ev # rest\<rparr>\<rparr>" ev rest] assms(2)
    by auto
  then show ?thesis using step by (meson converse_rtranclp_into_rtranclp r_into_rtranclp)
qed

section \<open>Properties of in-memory subscriptions\<close>

text \<open>
  C8: a subscription delivers every matching event after its start position exactly once, in
  position order and without gaps: whatever appends by other goroutines are interleaved, what
  has been delivered so far, followed by what is pending, is an initial part of the matching
  events of the store.
\<close>

theorem mem_subscribe_exactly_once:
  assumes "mem_ok m" and "mem_Subscribe None q opts = Ok it"
    and "sub_step\<^sup>*\<^sup>* (sub_init m it) s"
  shows "\<exists>rest. due q (case subAfter opts of None \<Rightarrow> SequencePositionInitial | Some p \<Rightarrow> p) (sys_mem s)
           = sys_delivered s @ sub_pending (sys_it s) @ rest
         \<and> sorted_wrt (<) (map sePosition (sys_delivered s))"
proof -
  have start: "sub_position it = (case subAfter opts of None \<Rightarrow> SequencePositionInitial | Some p \<Rightarrow> p)"
    using assms(2) by (auto simp: mem_Subscribe_def Let_def)
  have inv: "sub_inv q (sub_position it) s"
    by (rule sub_inv_reachable [OF assms(3,1,2)])
  then obtain rest where
    rest: "due q (sub_position it) (sys_mem s) = sys_delivered s @ sub_pending (sys_it s) @ rest"
    by (auto simp: sub_inv_def)
  moreover have "sorted_wrt (<) (map sePosition (due q (sub_position it) (sys_mem s)))"
    using inv by (simp add: sub_inv_def due_ascend)
  ultimately show ?thesis by (auto simp: start sorted_wrt_append)
qed

text \<open>
  C12: no wake-up is lost and delivery makes progress: from every reachable state in which a
  matching event has not been delivered, a subscriber that is in \<open>Next\<close>, blocked or about
  to call it can deliver the next one by its own steps, without any further append; in
  particular a blocked subscriber is then never stuck on an open channel.
\<close>

theorem mem_subscribe_progress:
  assumes "mem_ok m" and "mem_Subscribe None q opts = Ok it"
    and "sub_step\<^sup>*\<^sup>* (sub_init m it) s"
    and "due q (sub_position it) (sys_mem s) = sys_delivered s @ ev # rest"
  shows "(\<forall>ch. sys_pc s = Waiting ch \<longrightarrow> ch \<in> closed_chans (mem_chans (sys_mem s)))
    \<and> (\<exists>t. sub_step\<^sup>*\<^sup>* s t \<and> sys_delivered t = sys_delivered s @ [ev] \<and> sys_mem t = sys_mem s)"
proof
  have inv: "sub_inv q (sub_position it) s"
    by (rule sub_inv_reachable [OF assms(3,1,2)])
  show awake: "\<forall>ch. sys_pc s = Waiting ch \<longrightarrow> ch \<in> closed_chans (mem_chans (sys_mem s))"
    using inv assms(4) by (auto simp: sub_inv_def)
  let ?u = "s\<lparr>sys_pc := InLoop\<rparr>"
  have "sub_step\<^sup>*\<^sup>* s ?u"
  proof (cases "sys_pc s")
    case InLoop
    then have "s = ?u" by simp
    then show ?thesis by (metis rtranclp.rtrancl_refl)
  next
    case (Waiting ch)
    then show ?thesis using awake by (blast intro: sub_step.wake)
  qed (auto intro: sub_step.call)
  moreover have "sub_inv q (sub_position it) ?u" using inv by (auto simp: sub_inv_def)
  ultimately show "\<exists>t. sub_step\<^sup>*\<^sup>* s t \<and> sys_delivered t = sys_delivered s @ [ev] \<and> sys_mem t = sys_mem s"
    using loop_delivers [of q "sub_position it" ?u ev rest] assms(4)
    by (auto intro: rtranclp_trans)
qed

section \<open>A concrete run\<close>

definition run_opts :: SubscribeOptions where
  "run_opts = \<lparr>subAfter = None, PollInterval = 0\<rparr>"

definition run_it :: subscribeIterator where
  "run_it = \<lparr>sub_query = QueryAll, sub_position = SequencePositionInitial, sub_pending = [], sub_current = None\<rparr>"

definition run_cmd :: AppendCommand where
  "run_cmd = \<lparr>cmdEvents = [event_of ''Live'' []], cmdCondition = None\<rparr>"

definition run_blocked :: sub_sys where
  "run_blocked = (sub_init (mem_New [] no_chans) run_it)\<lparr>sys_pc := Waiting 0\<rparr>"

definition run_woken :: sub_sys where
  "run_woken = run_blocked\<lparr>sys_mem := appended (mem_New [] no_chans) [run_cmd]\<rparr>"

lemma run_subscribe: "mem_Subscribe None QueryAll run_opts = Ok run_it"
  by (simp add: mem_Subscribe_def run_opts_def run_it_def)

lemma run_reaches_blocked: "sub_step\<^sup>*\<^sup>* (sub_init (mem_New [] no_chans) run_it) run_blocked"
proof -
  let ?s = "sub_init (mem_New [] no_chans) run_it"
  have 1: "sub_step ?s (?s\<lparr>sys_pc := InLoop\<rparr>)"
    by (rule sub_step.call) (simp add: sub_init_def)
  have 2: "sub_step (?s\<lparr>sys_pc := InLoop\<rparr>) (?s\<lparr>sys_pc := InLoop, sys_it := run_it, sys_pc := Waiting 0\<rparr>)"
    by (rule sub_step.block)
      (simp_all add: sub_init_def next_pass.simps run_it_def mem_New_def make_chan_def no_chans_def
        matchingEvents_eq limited_def)
  have "?s\<lparr>sys_pc := InLoop, sys_it := run_it, sys_pc := Waiting 0\<rparr> = run_blocked"
    by (simp add: run_blocked_def sub_init_def)
  with 1 2 show ?thesis by (metis converse_rtranclp_into_rtranclp r_into_rtranclp)
qed

lemma run_reaches_woken: "sub_step\<^sup>*\<^sup>* (sub_init (mem_New [] no_chans) run_it) run_woken"
proof -
  have m: "sys_mem run_blocked = mem_New [] no_chans"
    by (simp add: run_blocked_def sub_init_def)
  have "chans_ok (mem_New [] no_chans)" using mem_New_empty_ok by (simp add: mem_ok_def)
  then have "snd (mem_Append None (mem_New [] no_chans) [run_cmd]) = appended (mem_New [] no_chans) [run_cmd]"
    by (simp add: mem_Append_eq run_cmd_def)
  moreover have "mem_room (sys_mem run_blocked) (length (command_events [run_cmd]))"
    by (simp add: m mem_room_def mem_New_def make_chan_def SequencePositionInitial_def run_cmd_def)
  ultimately have "sub_step run_blocked run_woken"
    using sub_step.append [of run_blocked "[run_cmd]" None] by (simp add: m run_woken_def)
  with run_reaches_blocked show ?thesis by (rule rtranclp.rtrancl_into_rtrancl)
qed

lemma run_due:
  "due QueryAll SequencePositionInitial (sys_mem run_woken) =
     [\<lparr>seEvent = event_of ''Live'' [], sePosition = SequencePosition 1\<rparr>]"
  by (simp add: run_woken_def appended_def run_cmd_def mem_New_def make_chan_def due_def
      SequencePositionInitial_def less_SequencePosition_def)

lemma run_state: "sys_delivered run_woken = []" "sys_pc run_woken = Waiting 0"
  "sub_pending (sys_it run_woken) = []"
  by (simp_all add: run_woken_def run_blocked_def sub_init_def run_it_def)

definition run_pending :: sub_sys where
  "run_pending = run_woken\<lparr>sys_pc := InLoop, sys_it := run_it\<lparr>sub_pending :=
     [\<lparr>seEvent = event_of ''Live'' [], sePosition = SequencePosition 1\<rparr>]\<rparr>\<rparr>"

lemma run_reaches_pending: "sub_step\<^sup>*\<^sup>* (sub_init (mem_New [] no_chans) run_it) run_pending"
proof -
  let ?u = "run_woken\<lparr>sys_pc := InLoop\<rparr>"
  have 1: "sub_step run_woken ?u"
    by (rule sub_step.wake [OF run_state(2)])
      (simp add: run_woken_def appended_def mem_New_def make_chan_def no_chans_def)
  have it: "sys_it run_woken = run_it"
    by (simp add: run_woken_def run_blocked_def sub_init_def)
  have "sub_step ?u (?u\<lparr>sys_it := run_it\<lparr>sub_pending :=
      [\<lparr>seEvent = event_of ''Live'' [], sePosition = SequencePosition 1\<rparr>]\<rparr>\<rparr>)"
  proof (rule sub_step.again)
    have "matchingEvents (store_events (mem_store (sys_mem run_woken))) QueryAll
        \<lparr>Backwards = False, readAfter = Some SequencePositionInitial, Limit = 0\<rparr> =
        [\<lparr>seEvent = event_of ''Live'' [], sePosition = SequencePosition 1\<rparr>]"
      using run_due filter_position_due [of SequencePositionInitial SequencePositionInitial QueryAll "sys_mem run_woken"]
      by (simp add: SequencePositionInitial_def less_SequencePosition_def)
    then show "next_pass (sys_mem ?u) (sys_it ?u) = (Again, run_it\<lparr>sub_pending :=
        [\<lparr>seEvent = event_of ''Live'' [], sePosition = SequencePosition 1\<rparr>]\<rparr>)"
      by (simp add: it next_pass.simps run_it_def)
  qed simp
  then have "sub_step ?u run_pending" by (simp add: run_pending_def)
  with 1 run_reaches_woken show ?thesis by (meson rtranclp.rtrancl_into_rtrancl)
qed

theorem mem_subscribe_exactly_once_witness:
  "\<exists>rest. due QueryAll SequencePositionInitial (sys_mem run_pending) =
     [\<lparr>seEvent = event_of ''Live'' [], sePosition = SequencePosition 1\<rparr>] @ rest"
  using mem_subscribe_exactly_once [OF mem_New_empty_ok run_subscribe run_reaches_pending]
  by (auto simp: run_pending_def run_state run_opts_def)

theorem mem_subscribe_progress_witness:
  "\<exists>t. sub_step\<^sup>*\<^sup>* run_woken t
     \<and> sys_delivered t = [\<lparr>seEvent = event_of ''Live'' [], sePosition = SequencePosition 1\<rparr>]"
proof -
  have d: "due QueryAll (sub_position run_it) (sys_mem run_woken) =
      sys_delivered run_woken @ [\<lparr>seEvent = event_of ''Live'' [], sePosition = SequencePosition 1\<rparr>]"
    using run_due by (simp add: run_state run_it_def)
  show ?thesis
    using mem_subscribe_progress [OF mem_New_empty_ok run_subscribe run_reaches_woken d]
    by (auto simp: run_state)
qed

end
