(* ===== verification/Pg_Serialize.thy ===== *)
theory Pg_Serialize
  imports Store_Contract
begin

text \<open>
  \<open>postgres/position.go\<close> and \<open>postgres/serialize.go\<close>: positions to and from
  PostgreSQL's \<open>bigint\<close> through their decimal text (with the panics of the source), and
  the flattening of commands into the array parameters of the stored procedures: one row per
  event, and one row per type of each condition item, tagged with the index of its command as
  an \<open>int32\<close>. Tags travel joined by the delimiter byte \<open>0x1F\<close>.
\<close>

type_synonym int32 = "32 word"

section \<open>Positions as bigint\<close>

definition positionToInt64 :: "SequencePosition \<Rightarrow> (error, int64) outcome" where
  "positionToInt64 pos =
     (case ParseInt (SequencePosition_String pos) of
        Inl _ \<Rightarrow> Panic ''postgres: impossible non-numeric position''
      | Inr n \<Rightarrow> Ok n)"

definition int64ToPosition :: "int64 \<Rightarrow> (error, SequencePosition) outcome" where
  "int64ToPosition n =
     (case ParseSequencePosition (FormatInt n) of
        Inl _ \<Rightarrow> Panic ''postgres: impossible invalid position''
      | Inr pos \<Rightarrow> Ok pos)"

lemma positionToInt64_eq:
  "positionToInt64 p =
     (if pos_value p < 2 ^ 63 then Ok (pos_value p)
      else Panic ''postgres: impossible non-numeric position'')"
  by (auto simp: positionToInt64_def SequencePosition_String_def ParseInt_FormatUint)

lemma int64ToPosition_nonneg:
  assumes "0 \<le> sint n"
  shows "int64ToPosition n = Ok (SequencePosition n)"
proof -
  have "FormatInt n = SequencePosition_String (SequencePosition n)"
    using assms
    by (simp add: FormatInt_def format_int_def SequencePosition_String_def FormatUint_def sint_nonneg_unat)
  then show ?thesis by (simp add: int64ToPosition_def)
qed

lemma int64ToPosition_negative:
  assumes "sint n < 0"
  shows "int64ToPosition n = Panic ''postgres: impossible invalid position''"
proof -
  have "FormatInt n \<noteq> SequencePosition_String p" for p
  proof
    assume "FormatInt n = SequencePosition_String p"
    then have "all_digits (FormatInt n)" by (simp add: SequencePosition_String_def)
    with assms show False by (simp add: FormatInt_def format_int_def)
  qed
  then have "ParseSequencePosition (FormatInt n) \<noteq> Inr p" for p
    by (simp add: ParseSequencePosition_Inr_iff)
  then show ?thesis by (auto simp: int64ToPosition_def split: sum.splits)
qed

text \<open>
  C31: positions round-trip through \<open>bigint\<close> exactly on the non-negative half of the range;
  outside it both conversions panic. A position at or above \<open>2 ^ 63\<close>, which
  \<open>ParseSequencePosition\<close> accepts, therefore panics when it is used with this store.
\<close>

theorem position_int64_roundtrip:
  "(0 \<le> sint n \<longrightarrow> bind_outcome (int64ToPosition n) positionToInt64 = Ok n)
   \<and> (sint n < 0 \<longrightarrow> is_panic (int64ToPosition n))
   \<and> (pos_value p < 2 ^ 63 \<longrightarrow> bind_outcome (positionToInt64 p) int64ToPosition = Ok p)
   \<and> (2 ^ 63 \<le> pos_value p \<longrightarrow> is_panic (positionToInt64 p))"
proof (intro conjI impI)
  assume "0 \<le> sint n"
  then show "bind_outcome (int64ToPosition n) positionToInt64 = Ok n"
    using sint_nonneg_iff [of n] by (simp add: int64ToPosition_nonneg positionToInt64_eq)
next
  assume "pos_value p < 2 ^ 63"
  then show "bind_outcome (positionToInt64 p) int64ToPosition = Ok p"
    using sint_nonneg_iff [of "pos_value p"] by (simp add: int64ToPosition_nonneg positionToInt64_eq)
qed (auto simp: int64ToPosition_negative positionToInt64_eq)

theorem position_int64_roundtrip_witness:
  "bind_outcome (int64ToPosition 42) positionToInt64 = Ok 42
   \<and> is_panic (int64ToPosition (-1))
   \<and> ParseSequencePosition ''9223372036854775808'' = Inr (SequencePosition (2 ^ 63))
   \<and> is_panic (positionToInt64 (SequencePosition (2 ^ 63)))"
proof -
  have "''9223372036854775808'' = SequencePosition_String (SequencePosition (2 ^ 63))"
    by (simp add: SequencePosition_String_def FormatUint_def format_nat.simps eval_rules)
  then have "ParseSequencePosition ''9223372036854775808'' = Inr (SequencePosition (2 ^ 63))"
    by (simp only: Parse_SequencePosition_String)
  then show ?thesis
    using position_int64_roundtrip [of 42 "SequencePosition (2 ^ 63)"]
      position_int64_roundtrip [of "-1" "SequencePosition (2 ^ 63)"] by simp
qed

section \<open>Events\<close>

definition tagDelimiter :: char where
  "tagDelimiter = CHR 0x1F"

definition serializePayload :: "Event \<Rightarrow> string" where
  "serializePayload ev =
     (let data = (case evData ev of None \<Rightarrow> ''null'' | Some d \<Rightarrow> d);
          metadata = (case evMetadata ev of None \<Rightarrow> ''null'' | Some m \<Rightarrow> m)
      in ''{\"data\":'' @ data @ '',\"metadata\":'' @ metadata @ ''}'')"

fun serialize_events ::
  "Event list \<Rightarrow> string list \<times> string list \<times> string list \<Rightarrow> string list \<times> string list \<times> string list" where
  "serialize_events [] acc = acc"
| "serialize_events (ev # evs) (types, tags, payloads) =
     serialize_events evs
       (types @ [evType ev], tags @ [Join (Values (evTags ev)) [tagDelimiter]],
        payloads @ [serializePayload ev])"

fun serialize_commands ::
  "AppendCommand list \<Rightarrow> string list \<times> string list \<times> string list \<Rightarrow> string list \<times> string list \<times> string list" where
  "serialize_commands [] acc = acc"
| "serialize_commands (cmd # cmds) acc = serialize_commands cmds (serialize_events (cmdEvents cmd) acc)"

definition serializeEvents :: "AppendCommand list \<Rightarrow> string list \<times> string list \<times> string list" where
  "serializeEvents commands = serialize_commands commands ([], [], [])"

lemma serialize_events_eq:
  "serialize_events evs (a, b, c) =
     (a @ map evType evs, b @ map (\<lambda>ev. Join (Values (evTags ev)) [tagDelimiter]) evs,
      c @ map serializePayload evs)"
  by (induction evs arbitrary: a b c) auto

lemma serialize_commands_eq:
  "serialize_commands cmds (a, b, c) =
     (a @ map evType (command_events cmds),
      b @ map (\<lambda>ev. Join (Values (evTags ev)) [tagDelimiter]) (command_events cmds),
      c @ map serializePayload (command_events cmds))"
  by (induction cmds arbitrary: a b c) (auto simp: serialize_events_eq)

lemma serializeEvents_eq:
  "serializeEvents cmds =
     (map evType (command_events cmds),
      map (\<lambda>ev. Join (Values (evTags ev)) [tagDelimiter]) (command_events cmds),
      map serializePayload (command_events cmds))"
  by (simp add: serializeEvents_def serialize_commands_eq)

section \<open>Conditions\<close>

type_synonym cond_arrays = "int32 list \<times> string list \<times> string list \<times> int64 list"

fun condition_types :: "nat \<Rightarrow> string list \<Rightarrow> string \<Rightarrow> int64 \<Rightarrow> cond_arrays \<Rightarrow> cond_arrays" where
  "condition_types i [] joined afterPos acc = acc"
| "condition_types i (t # ts) joined afterPos (idxs, types, tags, after) =
     condition_types i ts joined afterPos
       (idxs @ [of_nat i], types @ [t], tags @ [joined], after @ [afterPos])"

fun condition_items :: "nat \<Rightarrow> QueryItem list \<Rightarrow> int64 \<Rightarrow> cond_arrays \<Rightarrow> cond_arrays" where
  "condition_items i [] afterPos acc = acc"
| "condition_items i (item # items) afterPos acc =
     condition_items i items afterPos
       (condition_types i (itemTypes item) (Join (Values (itemTags item)) [tagDelimiter]) afterPos acc)"

fun condition_commands :: "nat \<Rightarrow> AppendCommand list \<Rightarrow> cond_arrays \<Rightarrow> (error, cond_arrays) outcome" where
  "condition_commands i [] acc = Ok acc"
| "condition_commands i (cmd # cmds) acc =
     (case cmdCondition cmd of
        None \<Rightarrow> condition_commands (Suc i) cmds acc
      | Some c \<Rightarrow>
          bind_outcome (case condAfter c of None \<Rightarrow> Ok 0 | Some p \<Rightarrow> positionToInt64 p) (\<lambda>afterPos.
            condition_commands (Suc i) cmds
              (condition_items i (Items (FailIfEventsMatch c)) afterPos acc)))"

definition serializeConditions :: "AppendCommand list \<Rightarrow> (error, cond_arrays) outcome" where
  "serializeConditions commands = condition_commands 0 commands ([], [], [], [])"

text \<open>The rows the four arrays hold, and when the conversion of \<open>After\<close> does not panic.\<close>

definition after_fits :: "AppendCommand list \<Rightarrow> bool" where
  "after_fits cmds \<longleftrightarrow>
     (\<forall>cmd \<in> set cmds. \<forall>c p. cmdCondition cmd = Some c \<longrightarrow> condAfter c = Some p \<longrightarrow> pos_value p < 2 ^ 63)"

definition after_value :: "AppendCondition \<Rightarrow> int64" where
  "after_value c = (case condAfter c of None \<Rightarrow> 0 | Some p \<Rightarrow> pos_value p)"

definition condition_rows :: "nat \<Rightarrow> AppendCondition \<Rightarrow> (int32 \<times> string \<times> string \<times> int64) list" where
  "condition_rows i c =
     concat (map (\<lambda>item. map (\<lambda>t. (of_nat i, t, Join (Values (itemTags item)) [tagDelimiter], after_value c))
       (itemTypes item)) (Items (FailIfEventsMatch c)))"

fun command_rows :: "nat \<Rightarrow> AppendCommand list \<Rightarrow> (int32 \<times> string \<times> string \<times> int64) list" where
  "command_rows i [] = []"
| "command_rows i (cmd # cmds) =
     (case cmdCondition cmd of None \<Rightarrow> [] | Some c \<Rightarrow> condition_rows i c) @ command_rows (Suc i) cmds"

definition columns :: "(int32 \<times> string \<times> string \<times> int64) list \<Rightarrow> cond_arrays" where
  "columns rows = (map fst rows, map (fst \<circ> snd) rows, map (fst \<circ> snd \<circ> snd) rows, map (snd \<circ> snd \<circ> snd) rows)"

definition append_columns :: "cond_arrays \<Rightarrow> cond_arrays \<Rightarrow> cond_arrays" where
  "append_columns a b =
     (fst a @ fst b, fst (snd a) @ fst (snd b), fst (snd (snd a)) @ fst (snd (snd b)),
      snd (snd (snd a)) @ snd (snd (snd b)))"

lemma append_columns_simps [simp]:
  "append_columns a (columns []) = a"
  "append_columns (append_columns a b) c = append_columns a (append_columns b c)"
  "append_columns (columns r) (columns s) = columns (r @ s)"
  "append_columns ([], [], [], []) b = b"
  by (simp_all add: append_columns_def columns_def)

lemma condition_types_columns:
  "condition_types i ts joined a acc =
     append_columns acc (columns (map (\<lambda>t. (of_nat i, t, joined, a)) ts))"
  by (induction i ts joined a acc rule: condition_types.induct)
    (auto simp: append_columns_def columns_def)

lemma condition_items_columns:
  "condition_items i items a acc =
     append_columns acc (columns (concat (map (\<lambda>item.
       map (\<lambda>t. (of_nat i, t, Join (Values (itemTags item)) [tagDelimiter], a)) (itemTypes item)) items)))"
  by (induction items arbitrary: acc) (auto simp: condition_types_columns)

lemma condition_commands_columns:
  assumes "after_fits cmds"
  shows "condition_commands i cmds acc = Ok (append_columns acc (columns (command_rows i cmds)))"
  using assms
proof (induction cmds arbitrary: i acc)
  case (Cons cmd cmds)
  have fits: "after_fits cmds" using Cons.prems by (simp add: after_fits_def)
  show ?case
  proof (cases "cmdCondition cmd")
    case None
    then show ?thesis using Cons.IH [OF fits] by simp
  next
    case (Some c)
    then have "(case condAfter c of None \<Rightarrow> Ok 0 | Some p \<Rightarrow> positionToInt64 p) = Ok (after_value c)"
      using Cons.prems by (auto simp: after_fits_def after_value_def positionToInt64_eq split: option.splits)
    then show ?thesis
      using Some Cons.IH [OF fits] by (simp add: condition_items_columns condition_rows_def)
  qed
qed simp

lemma serializeConditions_eq:
  "after_fits cmds \<Longrightarrow> serializeConditions cmds = Ok (columns (command_rows 0 cmds))"
  by (simp add: serializeConditions_def condition_commands_columns)

lemma serializeConditions_panics:
  assumes "\<not> after_fits cmds"
  shows "serializeConditions cmds = Panic ''postgres: impossible non-numeric position''"
proof -
  have "condition_commands i cmds acc = Panic ''postgres: impossible non-numeric position''" for i acc
    using assms
  proof (induction cmds arbitrary: i acc)
    case (Cons cmd cmds)
    show ?case
    proof (cases "after_fits cmds")
      case True
      with Cons.prems obtain c p where "cmdCondition cmd = Some c" "condAfter c = Some p" "\<not> pos_value p < 2 ^ 63"
        by (auto simp: after_fits_def)
      then show ?thesis by (simp add: positionToInt64_eq)
    next
      case False
      then show ?thesis
        using Cons.IH by (auto simp: positionToInt64_eq split: option.split)
    qed
  qed (simp add: after_fits_def)
  then show ?thesis by (simp add: serializeConditions_def)
qed

end
