(* ===== verification/Go_Json.thy ===== *)
theory Go_Json
  imports Prelude
begin

text \<open>
  What the program uses of \<open>encoding/json\<close>: \<open>json.Unmarshal\<close> of a text into a struct
  with the two \<open>json.RawMessage\<close> fields \<open>data\<close> and \<open>metadata\<close>. The grammar is the
  package's scanner (strings with their escapes, numbers, literals, arrays, objects, white
  space, at most 10000 levels of nesting); a raw field is the text of its value, without the
  white space around it; keys are compared after unescaping and ignoring the case of letters;
  the last of several equal keys wins.

  The scanner recurses through nested values, so it takes fuel; twice the length of the text is
  enough (\<open>skip_fuel\<close>), and that is what the entry points give it.
\<close>

section \<open>Tokens\<close>

definition is_ws :: "char \<Rightarrow> bool" where
  "is_ws c \<longleftrightarrow> c = CHR '' '' \<or> c = CHR 0x09 \<or> c = CHR 0x0A \<or> c = CHR 0x0D"

definition skip_ws :: "string \<Rightarrow> string" where
  "skip_ws s = dropWhile is_ws s"

definition is_digit :: "char \<Rightarrow> bool" where
  "is_digit c \<longleftrightarrow> CHR ''0'' \<le> c \<and> c \<le> CHR ''9''"

definition is_hex :: "char \<Rightarrow> bool" where
  "is_hex c \<longleftrightarrow> is_digit c \<or> CHR ''a'' \<le> c \<and> c \<le> CHR ''f'' \<or> CHR ''A'' \<le> c \<and> c \<le> CHR ''F''"

definition is_escape :: "char \<Rightarrow> bool" where
  "is_escape c \<longleftrightarrow> c \<in> set [CHR ''b'', CHR ''f'', CHR ''n'', CHR ''r'', CHR ''t'', CHR 0x5C, CHR ''/'', CHR 0x22]"

text \<open>The rest of a string after its opening quote.\<close>

fun skip_string :: "string \<Rightarrow> string option" where
  "skip_string [] = None"
| "skip_string (c # r) =
     (if c = CHR 0x22 then Some r
      else if c = CHR 0x5C then
        (case r of
           [] \<Rightarrow> None
         | e # r' \<Rightarrow>
             if e = CHR ''u'' then
               (case r' of
                  h1 # h2 # h3 # h4 # r'' \<Rightarrow>
                    if is_hex h1 \<and> is_hex h2 \<and> is_hex h3 \<and> is_hex h4 then skip_string r'' else None
                | _ \<Rightarrow> None)
             else if is_escape e then skip_string r' else None)
      else if c < CHR 0x20 then None
      else skip_string r)"

definition skip_digits :: "string \<Rightarrow> string" where
  "skip_digits s = dropWhile is_digit s"

fun skip_digits1 :: "string \<Rightarrow> string option" where
  "skip_digits1 (d # r) = (if is_digit d then Some (skip_digits r) else None)"
| "skip_digits1 [] = None"

fun skip_int :: "string \<Rightarrow> string option" where
  "skip_int (d # r) =
     (if d = CHR ''0'' then Some r else if is_digit d then Some (skip_digits r) else None)"
| "skip_int [] = None"

definition skip_frac :: "string \<Rightarrow> string option" where
  "skip_frac s =
     (case s of c # r \<Rightarrow> if c = CHR ''.'' then skip_digits1 r else Some s | [] \<Rightarrow> Some s)"

definition skip_sign :: "string \<Rightarrow> string" where
  "skip_sign s = (case s of c # r \<Rightarrow> if c = CHR ''+'' \<or> c = CHR ''-'' then r else s | [] \<Rightarrow> s)"

definition skip_exp :: "string \<Rightarrow> string option" where
  "skip_exp s =
     (case s of
        c # r \<Rightarrow> if c = CHR ''e'' \<or> c = CHR ''E'' then skip_digits1 (skip_sign r) else Some s
      | [] \<Rightarrow> Some s)"

definition skip_minus :: "string \<Rightarrow> string" where
  "skip_minus s = (case s of c # r \<Rightarrow> if c = CHR ''-'' then r else s | [] \<Rightarrow> s)"

definition skip_number :: "string \<Rightarrow> string option" where
  "skip_number s = Option.bind (Option.bind (skip_int (skip_minus s)) skip_frac) skip_exp"

fun skip_lit :: "string \<Rightarrow> string \<Rightarrow> string option" where
  "skip_lit [] s = Some s"
| "skip_lit (c # cs) (d # ds) = (if c = d then skip_lit cs ds else None)"
| "skip_lit (c # cs) [] = None"

section \<open>Values\<close>

definition maxNestingDepth :: nat where
  "maxNestingDepth = 10000"

fun skip_value :: "nat \<Rightarrow> nat \<Rightarrow> string \<Rightarrow> string option"
and skip_elems :: "nat \<Rightarrow> nat \<Rightarrow> string \<Rightarrow> string option"
and skip_members :: "nat \<Rightarrow> nat \<Rightarrow> string \<Rightarrow> string option" where
  "skip_value 0 d s = None"
| "skip_value (Suc n) d s =
     (case s of
        [] \<Rightarrow> None
      | c # r \<Rightarrow>
          if c = CHR 0x22 then skip_string r
          else if c = CHR ''['' then
            (if d = 0 then None
             else case skip_ws r of
                    [] \<Rightarrow> None
                  | c' # r' \<Rightarrow> if c' = CHR '']'' then Some r' else skip_elems n (d - 1) (c' # r'))
          else if c = CHR ''{'' then
            (if d = 0 then None
             else case skip_ws r of
                    [] \<Rightarrow> None
                  | c' # r' \<Rightarrow> if c' = CHR ''}'' then Some r' else skip_members n (d - 1) (c' # r'))
          else if c = CHR ''t'' then skip_lit ''rue'' r
          else if c = CHR ''f'' then skip_lit ''alse'' r
          else if c = CHR ''n'' then skip_lit ''ull'' r
          else skip_number s)"
| "skip_elems 0 d s = None"
| "skip_elems (Suc n) d s =
     (case skip_value n d s of
        None \<Rightarrow> None
      | Some r \<Rightarrow>
          (case skip_ws r of
             [] \<Rightarrow> None
           | c # r' \<Rightarrow>
               if c = CHR '','' then skip_elems n d (skip_ws r')
               else if c = CHR '']'' then Some r' else None))"
| "skip_members 0 d s = None"
| "skip_members (Suc n) d s =
     (case s of
        [] \<Rightarrow> None
      | q # k \<Rightarrow>
          if q \<noteq> CHR 0x22 then None
          else
            (case Option.bind (skip_string k) (\<lambda>r. skip_lit '':'' (skip_ws r)) of
               None \<Rightarrow> None
             | Some v \<Rightarrow>
                 (case skip_value n d (skip_ws v) of
                    None \<Rightarrow> None
                  | Some r \<Rightarrow>
                      (case skip_ws r of
                         [] \<Rightarrow> None
                       | c # r' \<Rightarrow>
                           if c = CHR '','' then skip_members n d (skip_ws r')
                           else if c = CHR ''}'' then Some r' else None))))"

section \<open>Decoding the struct\<close>

text \<open>The text between a suffix and the string it is a suffix of.\<close>

definition before :: "string \<Rightarrow> string \<Rightarrow> string" where
  "before s rest = take (length s - length rest) s"

definition hex_val :: "char \<Rightarrow> nat" where
  "hex_val c =
     (let n = of_char c :: nat
      in if n < 58 then n - 48 else if n < 71 then n - 55 else n - 87)"

definition escape_code :: "char \<Rightarrow> nat" where
  "escape_code e =
     (if e = CHR ''b'' then 8 else if e = CHR ''f'' then 12 else if e = CHR ''n'' then 10
      else if e = CHR ''r'' then 13 else if e = CHR ''t'' then 9 else of_char e)"

text \<open>
  The codes of a key's characters after unescaping. A code above 127 stands for some
  character that is not ASCII; which one it is does not matter for the comparison with the
  two field names.
\<close>

fun key_codes :: "string \<Rightarrow> nat list" where
  "key_codes [] = []"
| "key_codes (c # r) =
     (if c = CHR 0x5C then
        (case r of
           [] \<Rightarrow> []
         | e # r' \<Rightarrow>
             if e = CHR ''u'' then
               (case r' of
                  h1 # h2 # h3 # h4 # r'' \<Rightarrow>
                    (hex_val h1 * 4096 + hex_val h2 * 256 + hex_val h3 * 16 + hex_val h4) # key_codes r''
                | _ \<Rightarrow> [])
             else escape_code e # key_codes r')
      else of_char c # key_codes r)"

definition fold_code :: "nat \<Rightarrow> nat" where
  "fold_code n = (if 65 \<le> n \<and> n \<le> 90 then n + 32 else n)"

definition key_is :: "string \<Rightarrow> string \<Rightarrow> bool" where
  "key_is key name \<longleftrightarrow> map fold_code (key_codes key) = map of_char name"

record payload_fields =
  pf_Data :: "string option"
  pf_Metadata :: "string option"

definition set_field :: "string \<Rightarrow> string \<Rightarrow> payload_fields \<Rightarrow> payload_fields" where
  "set_field key raw f =
     (if key_is key ''data'' then f\<lparr>pf_Data := Some raw\<rparr>
      else if key_is key ''metadata'' then f\<lparr>pf_Metadata := Some raw\<rparr>
      else f)"

fun decode_members :: "nat \<Rightarrow> nat \<Rightarrow> string \<Rightarrow> payload_fields \<Rightarrow> (payload_fields \<times> string) option" where
  "decode_members 0 d s f = None"
| "decode_members (Suc n) d s f =
     (case s of
        [] \<Rightarrow> None
      | q # k \<Rightarrow>
          if q \<noteq> CHR 0x22 then None
          else
            (case skip_string k of
               None \<Rightarrow> None
             | Some ks \<Rightarrow>
                 (case skip_lit '':'' (skip_ws ks) of
                    None \<Rightarrow> None
                  | Some v \<Rightarrow>
                      (case skip_value n d (skip_ws v) of
                         None \<Rightarrow> None
                       | Some r \<Rightarrow>
                           let f' = set_field (butlast (before k ks)) (before (skip_ws v) r) f
                           in case skip_ws r of
                                [] \<Rightarrow> None
                              | c # r' \<Rightarrow>
                                  if c = CHR '','' then decode_members n d (skip_ws r') f'
                                  else if c = CHR ''}'' then Some (f', r') else None))))"

text \<open>
  \<open>Unmarshal\<close>: a null leaves the struct as it was, an object sets its fields, any other
  value and any text that is not one JSON value is an error (\<open>None\<close>).
\<close>

definition Unmarshal_payload :: "string \<Rightarrow> payload_fields option" where
  "Unmarshal_payload payload =
     (let s = skip_ws payload; fuel = 2 * length payload + 1;
          zero = \<lparr>pf_Data = None, pf_Metadata = None\<rparr>
      in case s of
           [] \<Rightarrow> None
         | c # r \<Rightarrow>
             if c = CHR ''{'' then
               (case skip_ws r of
                  [] \<Rightarrow> None
                | c' # r' \<Rightarrow>
                    if c' = CHR ''}'' then (if skip_ws r' = [] then Some zero else None)
                    else
                      (case decode_members fuel (maxNestingDepth - 1) (c' # r') zero of
                         Some (f, rest) \<Rightarrow> if skip_ws rest = [] then Some f else None
                       | None \<Rightarrow> None))
             else if c = CHR ''n'' then
               (case skip_lit ''ull'' r of
                  Some rest \<Rightarrow> if skip_ws rest = [] then Some zero else None
                | None \<Rightarrow> None)
             else None)"

text \<open>A text that is one JSON value with no white space around it, fit to nest in the payload.\<close>

definition json_value :: "string \<Rightarrow> bool" where
  "json_value s \<longleftrightarrow> skip_value (2 * length s + 1) (maxNestingDepth - 1) s = Some []"

section \<open>Scanning consumes input\<close>

lemma length_skip_ws: "length (skip_ws s) \<le> length s"
  by (simp add: skip_ws_def length_dropWhile_le)

lemma length_skip_digits: "length (skip_digits s) \<le> length s"
  by (simp add: skip_digits_def length_dropWhile_le)

lemma skip_string_length: "skip_string s = Some r \<Longrightarrow> length r < length s"
proof (induction s arbitrary: r rule: length_induct)
  case (1 s)
  then have IH: "skip_string t = Some r \<Longrightarrow> length t < length s \<Longrightarrow> length r < length t" for t
    by blast
  from 1(2) show ?case by (cases s) (auto split: if_splits list.splits dest!: IH)
qed

lemma skip_lit_length: "skip_lit l s = Some r \<Longrightarrow> length s = length l + length r"
  by (induction l s rule: skip_lit.induct) (auto split: if_splits)

lemma skip_int_length: "skip_int s = Some r \<Longrightarrow> length r < length s"
  by (cases s) (auto split: if_splits simp: less_Suc_eq_le length_skip_digits)

lemma skip_digits1_length: "skip_digits1 s = Some r \<Longrightarrow> length r < length s"
  by (cases s) (auto split: if_splits simp: less_Suc_eq_le length_skip_digits)

lemma skip_sign_length: "length (skip_sign s) \<le> length s"
  by (cases s) (auto simp: skip_sign_def)

lemma skip_frac_length: "skip_frac s = Some r \<Longrightarrow> length r \<le> length s"
  by (auto simp: skip_frac_def dest!: skip_digits1_length split: list.splits if_splits)

lemma skip_exp_length: "skip_exp s = Some r \<Longrightarrow> length r \<le> length s"
proof (cases s)
  case (Cons c t)
  assume "skip_exp s = Some r"
  with Cons show ?thesis
    using skip_sign_length [of t]
    by (auto simp: skip_exp_def dest!: skip_digits1_length split: if_splits)
qed (simp add: skip_exp_def)

lemma skip_minus_length: "length (skip_minus s) \<le> length s"
  by (cases s) (auto simp: skip_minus_def)

lemma skip_number_length: "skip_number s = Some r \<Longrightarrow> length r < length s"
  using skip_minus_length [of s]
  by (fastforce simp: skip_number_def bind_eq_Some_conv
      dest: skip_int_length skip_frac_length skip_exp_length)

text \<open>What a successful pass over an array or an object has read.\<close>

lemma skip_elems_Suc_iff:
  "skip_elems (Suc n) d s = Some r \<longleftrightarrow>
     (\<exists>r1 c r2. skip_value n d s = Some r1 \<and> skip_ws r1 = c # r2
        \<and> (c = CHR '','' \<and> skip_elems n d (skip_ws r2) = Some r \<or> c = CHR '']'' \<and> r = r2))"
  by (auto split: option.splits list.splits)

lemma skip_members_Suc_iff:
  "skip_members (Suc n) d s = Some r \<longleftrightarrow>
     (\<exists>k r1 v r2 c r3. s = CHR 0x22 # k \<and> skip_string k = Some r1
        \<and> skip_lit '':'' (skip_ws r1) = Some v \<and> skip_value n d (skip_ws v) = Some r2
        \<and> skip_ws r2 = c # r3
        \<and> (c = CHR '','' \<and> skip_members n d (skip_ws r3) = Some r \<or> c = CHR ''}'' \<and> r = r3))"
  by (cases s) (auto split: option.splits list.splits simp: bind_eq_Some_conv)

lemma skip_value_Suc_Cons:
  "skip_value (Suc n) d (c # t) =
     (if c = CHR 0x22 then skip_string t
      else if c = CHR ''['' then
        (if d = 0 then None
         else case skip_ws t of
                [] \<Rightarrow> None
              | c' # r' \<Rightarrow> if c' = CHR '']'' then Some r' else skip_elems n (d - 1) (c' # r'))
      else if c = CHR ''{'' then
        (if d = 0 then None
         else case skip_ws t of
                [] \<Rightarrow> None
              | c' # r' \<Rightarrow> if c' = CHR ''}'' then Some r' else skip_members n (d - 1) (c' # r'))
      else if c = CHR ''t'' then skip_lit ''rue'' t
      else if c = CHR ''f'' then skip_lit ''alse'' t
      else if c = CHR ''n'' then skip_lit ''ull'' t
      else skip_number (c # t))"
  by simp

lemma skip_value_Nil [simp]: "skip_value n d [] = None"
  by (cases n) auto

declare skip_value.simps(2) [simp del] skip_elems.simps(2) [simp del] skip_members.simps(2) [simp del]

lemma skip_value_length_aux:
  "(\<forall>d s r. skip_value n d s = Some r \<longrightarrow> length r < length s)
   \<and> (\<forall>d s r. skip_elems n d s = Some r \<longrightarrow> length r < length s)
   \<and> (\<forall>d s r. skip_members n d s = Some r \<longrightarrow> length r < length s)"
proof (induction n)
  case (Suc n)
  have v: "length r < length s" if "skip_value (Suc n) d s = Some r" for d s r
  proof (cases s)
    case (Cons c t)
    have "length (skip_ws t) \<le> length t" by (rule length_skip_ws)
    with that Cons show ?thesis
      by (fastforce simp: skip_value_Suc_Cons split: if_splits list.splits
          dest: skip_string_length skip_lit_length skip_number_length
            Suc.IH [THEN conjunct2, THEN conjunct1, rule_format]
            Suc.IH [THEN conjunct2, THEN conjunct2, rule_format])
  qed (use that in simp)
  have e: "length r < length s" if elems: "skip_elems (Suc n) d s = Some r" for d s r
  proof -
    obtain r1 c r2 where *: "skip_value n d s = Some r1" "skip_ws r1 = c # r2"
        "skip_elems n d (skip_ws r2) = Some r \<or> r = r2"
      using elems unfolding skip_elems_Suc_iff by blast
    then have "length r1 < length s" "length r \<le> length r2"
      using Suc.IH length_skip_ws [of r2] by (blast, fastforce)
    moreover have "Suc (length r2) \<le> length r1" using length_skip_ws [of r1] *(2) by simp
    ultimately show ?thesis by linarith
  qed
  have m: "length r < length s" if members: "skip_members (Suc n) d s = Some r" for d s r
  proof -
    obtain k r1 v r2 c r3 where *: "s = CHR 0x22 # k" "skip_string k = Some r1"
        "skip_lit '':'' (skip_ws r1) = Some v" "skip_value n d (skip_ws v) = Some r2"
        "skip_ws r2 = c # r3" "skip_members n d (skip_ws r3) = Some r \<or> r = r3"
      using members unfolding skip_members_Suc_iff by blast
    have "length r2 < length (skip_ws v)" "length r \<le> length r3"
      using * Suc.IH length_skip_ws [of r3] by (blast, fastforce)
    moreover have "Suc (length r3) \<le> length r2" using length_skip_ws [of r2] *(5) by simp
    moreover have "length v < length (skip_ws r1)" using skip_lit_length [OF *(3)] by simp
    ultimately show ?thesis
      using *(1) skip_string_length [OF *(2)] length_skip_ws [of r1] length_skip_ws [of v] by simp
  qed
  show ?case using v e m by blast
qed simp

lemmas skip_value_length = skip_value_length_aux [THEN conjunct1, rule_format]
lemmas skip_elems_length = skip_value_length_aux [THEN conjunct2, THEN conjunct1, rule_format]
lemmas skip_members_length = skip_value_length_aux [THEN conjunct2, THEN conjunct2, rule_format]

section \<open>Scanning does not look past what it reads\<close>

text \<open>
  What is appended to a text does not change how its beginning is scanned, unless the text
  ends in a number and what follows could continue it.
\<close>

definition ends_number :: "string \<Rightarrow> bool" where
  "ends_number y \<longleftrightarrow>
     (case y of [] \<Rightarrow> True | c # _ \<Rightarrow> \<not> is_digit c \<and> c \<notin> {CHR ''.'', CHR ''e'', CHR ''E''})"

lemma skip_ws_append: "skip_ws r = c # r' \<Longrightarrow> skip_ws (r @ y) = c # r' @ y"
  by (induction r) (auto simp: skip_ws_def split: if_splits)

lemma skip_digits_append:
  "skip_digits r \<noteq> [] \<or> ends_number y \<Longrightarrow> skip_digits (r @ y) = skip_digits r @ y"
  by (induction r) (auto simp: skip_digits_def ends_number_def split: list.splits)

lemma skip_string_escape:
  assumes "skip_string (CHR 0x5C # t) = Some r"
  obtains (hex) h1 h2 h3 h4 u where "t = CHR ''u'' # h1 # h2 # h3 # h4 # u"
      "is_hex h1" "is_hex h2" "is_hex h3" "is_hex h4" "skip_string u = Some r"
    | (plain) e u where "t = e # u" "e \<noteq> CHR ''u''" "is_escape e" "skip_string u = Some r"
  using assms unfolding skip_string.simps(2) [of "CHR 0x5C" t]
  by (auto split: list.splits if_splits simp del: skip_string.simps)

lemma skip_string_append: "skip_string s = Some r \<Longrightarrow> skip_string (s @ y) = Some (r @ y)"
proof (induction "length s" arbitrary: s rule: less_induct)
  case less
  then obtain c t where s: "s = c # t" by (cases s) auto
  have IH: "skip_string u = Some r \<Longrightarrow> length u < length s \<Longrightarrow> skip_string (u @ y) = Some (r @ y)" for u
    using less.hyps by blast
  show ?case
  proof (cases "c = CHR 0x5C")
    case True
    then have "skip_string (CHR 0x5C # t) = Some r" using less.prems s by simp
    then show ?thesis
    proof (cases rule: skip_string_escape)
      case (hex h1 h2 h3 h4 u)
      then show ?thesis
        using IH [OF hex(6)] s True skip_string.simps(2) [of "CHR 0x5C" "t @ y"]
        by (simp del: skip_string.simps)
    next
      case (plain e u)
      then show ?thesis
        using IH [OF plain(4)] s True skip_string.simps(2) [of "CHR 0x5C" "t @ y"]
        by (simp del: skip_string.simps)
    qed
  next
    case False
    then show ?thesis
      using less.prems s IH [of t] skip_string.simps(2) [of c t] skip_string.simps(2) [of c "t @ y"]
      by (simp split: if_splits del: skip_string.simps)
  qed
qed

lemma skip_lit_append: "skip_lit l s = Some r \<Longrightarrow> skip_lit l (s @ y) = Some (r @ y)"
  by (induction l s rule: skip_lit.induct) (auto split: if_splits)

lemma skip_digits1_append:
  "skip_digits1 s = Some r \<Longrightarrow> r \<noteq> [] \<or> ends_number y \<Longrightarrow> skip_digits1 (s @ y) = Some (r @ y)"
  by (cases s) (auto split: if_splits simp: skip_digits_append)

lemma skip_int_append:
  "skip_int s = Some r \<Longrightarrow> r \<noteq> [] \<or> ends_number y \<Longrightarrow> skip_int (s @ y) = Some (r @ y)"
  by (cases s) (auto split: if_splits simp: skip_digits_append)

lemma skip_frac_append:
  "skip_frac s = Some r \<Longrightarrow> r \<noteq> [] \<or> ends_number y \<Longrightarrow> skip_frac (s @ y) = Some (r @ y)"
  by (cases s)
    (auto simp: skip_frac_def ends_number_def skip_digits1_append split: list.splits if_splits)

lemma skip_exp_append:
  assumes "skip_exp s = Some r" and "r \<noteq> [] \<or> ends_number y"
  shows "skip_exp (s @ y) = Some (r @ y)"
proof (cases s)
  case Nil
  with assms show ?thesis by (auto simp: skip_exp_def ends_number_def split: list.splits)
next
  case (Cons c t)
  have "skip_digits1 (skip_sign (t @ y)) = Some (r @ y)" if "skip_digits1 (skip_sign t) = Some r"
  proof (cases t)
    case Nil
    with that show ?thesis by (simp add: skip_sign_def)
  next
    case (Cons c' t')
    show ?thesis
    proof (cases "c' = CHR ''+'' \<or> c' = CHR ''-''")
      case True
      with that Cons assms(2) show ?thesis
        using skip_digits1_append [of t' r y] by (auto simp: skip_sign_def)
    next
      case False
      with that Cons assms(2) show ?thesis
        using skip_digits1_append [of t r y] by (simp add: skip_sign_def del: skip_digits1.simps)
    qed
  qed
  with Cons assms(1) show ?thesis by (auto simp: skip_exp_def split: if_splits)
qed

lemma skip_number_append:
  assumes "skip_number s = Some r" and "r \<noteq> [] \<or> ends_number y"
  shows "skip_number (s @ y) = Some (r @ y)"
proof -
  obtain r1 r2 where r: "skip_int (skip_minus s) = Some r1" "skip_frac r1 = Some r2" "skip_exp r2 = Some r"
    using assms(1) by (auto simp: skip_number_def bind_eq_Some_conv)
  have 2: "r2 \<noteq> [] \<or> ends_number y" using assms(2) r(3) by (auto simp: skip_exp_def)
  have 1: "r1 \<noteq> [] \<or> ends_number y" using 2 r(2) by (auto simp: skip_frac_def)
  have "skip_minus s \<noteq> []" using r(1) by auto
  then have "skip_minus (s @ y) = skip_minus s @ y"
    by (cases s) (auto simp: skip_minus_def)
  then show ?thesis
    using skip_int_append [OF r(1) 1] skip_frac_append [OF r(2) 2] skip_exp_append [OF r(3) assms(2)]
    by (simp add: skip_number_def)
qed

definition value_extends :: "string \<Rightarrow> nat \<Rightarrow> bool" where
  "value_extends y n \<longleftrightarrow>
     (\<forall>m d s r. n \<le> m \<longrightarrow> skip_value n d s = Some r \<longrightarrow> r \<noteq> [] \<or> ends_number y \<longrightarrow>
        skip_value m d (s @ y) = Some (r @ y))"

definition elems_extend :: "string \<Rightarrow> nat \<Rightarrow> bool" where
  "elems_extend y n \<longleftrightarrow>
     (\<forall>m d s r. n \<le> m \<longrightarrow> skip_elems n d s = Some r \<longrightarrow> skip_elems m d (s @ y) = Some (r @ y))"

definition members_extend :: "string \<Rightarrow> nat \<Rightarrow> bool" where
  "members_extend y n \<longleftrightarrow>
     (\<forall>m d s r. n \<le> m \<longrightarrow> skip_members n d s = Some r \<longrightarrow> skip_members m d (s @ y) = Some (r @ y))"

lemma skip_ws_append_ne: "skip_ws a \<noteq> [] \<Longrightarrow> skip_ws (a @ y) = skip_ws a @ y"
  using skip_ws_append by (cases "skip_ws a") auto

lemma skip_ws_nonempty: "skip_ws a = c # r \<Longrightarrow> a \<noteq> []"
  by (auto simp: skip_ws_def)

lemma value_extends_Suc:
  assumes "elems_extend y n" and "members_extend y n"
  shows "value_extends y (Suc n)"
  unfolding value_extends_def
proof (intro allI impI)
  fix m d s r
  assume le: "Suc n \<le> m" and sv: "skip_value (Suc n) d s = Some r" and st: "r \<noteq> [] \<or> ends_number y"
  then obtain m' where m: "m = Suc m'" "n \<le> m'" using Suc_le_D by blast
  obtain c t where s: "s = c # t" using sv by (cases s) auto
  have num: "skip_number (c # t @ y) = Some (r @ y)" if "skip_number (c # t) = Some r"
    using skip_number_append [OF that st] by simp
  have elems: "skip_elems m' d' (c' # r' @ y) = Some (r @ y)"
    if "skip_elems n d' (c' # r') = Some r" for c' r' d'
    using assms(1) m(2) that by (fastforce simp: elems_extend_def)
  have members: "skip_members m' d' (c' # r' @ y) = Some (r @ y)"
    if "skip_members n d' (c' # r') = Some r" for c' r' d'
    using assms(2) m(2) that by (fastforce simp: members_extend_def)
  show "skip_value m d (s @ y) = Some (r @ y)"
    using sv
    by (cases "skip_ws t")
      (auto simp: s m skip_value_Suc_Cons skip_string_append skip_lit_append num skip_ws_append
        elems members simp del: skip_string.simps skip_lit.simps split: if_splits)
qed

lemma elems_extend_Suc:
  assumes "value_extends y n" and "elems_extend y n"
  shows "elems_extend y (Suc n)"
  unfolding elems_extend_def
proof (intro allI impI)
  fix m d s r
  assume le: "Suc n \<le> m" and se: "skip_elems (Suc n) d s = Some r"
  then obtain m' where m: "m = Suc m'" "n \<le> m'" using Suc_le_D by blast
  obtain r1 c r2 where *: "skip_value n d s = Some r1" "skip_ws r1 = c # r2"
      "c = CHR '','' \<and> skip_elems n d (skip_ws r2) = Some r \<or> c = CHR '']'' \<and> r = r2"
    using se unfolding skip_elems_Suc_iff by blast
  have "skip_value m' d (s @ y) = Some (r1 @ y)"
    using assms(1) m(2) *(1) skip_ws_nonempty [OF *(2)] by (simp add: value_extends_def)
  moreover have "skip_ws (r1 @ y) = c # r2 @ y" by (rule skip_ws_append [OF *(2)])
  moreover have "skip_elems m' d (skip_ws (r2 @ y)) = Some (r @ y)"
    if "skip_elems n d (skip_ws r2) = Some r"
  proof -
    have "skip_ws r2 \<noteq> []" using skip_elems_length [OF that] by auto
    then show ?thesis using assms(2) m(2) that by (simp add: elems_extend_def skip_ws_append_ne)
  qed
  ultimately show "skip_elems m d (s @ y) = Some (r @ y)"
    unfolding m skip_elems_Suc_iff using *(3) by blast
qed

lemma members_extend_Suc:
  assumes "value_extends y n" and "members_extend y n"
  shows "members_extend y (Suc n)"
  unfolding members_extend_def
proof (intro allI impI)
  fix m d s r
  assume le: "Suc n \<le> m" and sm: "skip_members (Suc n) d s = Some r"
  then obtain m' where m: "m = Suc m'" "n \<le> m'" using Suc_le_D by blast
  obtain k r1 v r2 c r3 where *: "s = CHR 0x22 # k" "skip_string k = Some r1"
      "skip_lit '':'' (skip_ws r1) = Some v" "skip_value n d (skip_ws v) = Some r2"
      "skip_ws r2 = c # r3"
      "c = CHR '','' \<and> skip_members n d (skip_ws r3) = Some r \<or> c = CHR ''}'' \<and> r = r3"
    using sm unfolding skip_members_Suc_iff by blast
  have "skip_ws v \<noteq> []" using *(4) by auto
  then have "skip_value m' d (skip_ws (v @ y)) = Some (r2 @ y)"
    using assms(1) m(2) *(4) skip_ws_nonempty [OF *(5)] by (simp add: value_extends_def skip_ws_append_ne)
  moreover have "skip_lit '':'' (skip_ws (r1 @ y)) = Some (v @ y)"
  proof -
    have "skip_ws r1 \<noteq> []" using *(3) by auto
    then show ?thesis
      using skip_lit_append [OF *(3), of y] by (simp add: skip_ws_append_ne del: skip_lit.simps)
  qed
  moreover have "skip_ws (r2 @ y) = c # r3 @ y" by (rule skip_ws_append [OF *(5)])
  moreover have "skip_members m' d (skip_ws (r3 @ y)) = Some (r @ y)"
    if "skip_members n d (skip_ws r3) = Some r"
  proof -
    have "skip_ws r3 \<noteq> []" using skip_members_length [OF that] by auto
    then show ?thesis using assms(2) m(2) that by (simp add: members_extend_def skip_ws_append_ne)
  qed
  ultimately show "skip_members m d (s @ y) = Some (r @ y)"
    unfolding m skip_members_Suc_iff using *(1,6) skip_string_append [OF *(2), of y]
    by (metis append_Cons)
qed

lemma scan_extends: "value_extends y n \<and> elems_extend y n \<and> members_extend y n"
proof (induction n)
  case 0
  then show ?case by (simp add: value_extends_def elems_extend_def members_extend_def)
next
  case (Suc n)
  then show ?case using value_extends_Suc elems_extend_Suc members_extend_Suc by blast
qed

lemma skip_value_append:
  assumes "skip_value n d s = Some r" and "r \<noteq> [] \<or> ends_number y" and "n \<le> m"
  shows "skip_value m d (s @ y) = Some (r @ y)"
  using scan_extends [of y n] assms by (simp add: value_extends_def)

section \<open>The fuel is enough\<close>

text \<open>
  With fuel above twice the length of the text, the scanner's answer (a rest or a rejection)
  no longer depends on the fuel: it is the answer of the unbounded scanner.
\<close>

lemma skip_fuel_aux:
  "(\<forall>m d s. 2 * length s < n \<longrightarrow> 2 * length s < m \<longrightarrow> skip_value n d s = skip_value m d s)
   \<and> (\<forall>m d s. 2 * length s + 1 < n \<longrightarrow> 2 * length s + 1 < m \<longrightarrow> skip_elems n d s = skip_elems m d s)
   \<and> (\<forall>m d s. 2 * length s < n \<longrightarrow> 2 * length s < m \<longrightarrow> skip_members n d s = skip_members m d s)"
proof (induction n)
  case (Suc n)
  note IHv = Suc.IH [THEN conjunct1, rule_format]
  note IHe = Suc.IH [THEN conjunct2, THEN conjunct1, rule_format]
  note IHm = Suc.IH [THEN conjunct2, THEN conjunct2, rule_format]
  have v: "skip_value (Suc n) d s = skip_value m d s"
    if n: "2 * length s < Suc n" and m: "2 * length s < m" for m d s
  proof (cases s)
    case (Cons c t)
    obtain m' where m': "m = Suc m'" using m by (cases m) auto
    have "skip_elems n (d - 1) (skip_ws t) = skip_elems m' (d - 1) (skip_ws t)"
      by (rule IHe) (use n m m' Cons length_skip_ws [of t] in simp_all)
    moreover have "skip_members n (d - 1) (skip_ws t) = skip_members m' (d - 1) (skip_ws t)"
      by (rule IHm) (use n m m' Cons length_skip_ws [of t] in simp_all)
    ultimately show ?thesis
      by (cases "skip_ws t")
        (simp_all add: Cons m' skip_value_Suc_Cons del: skip_string.simps skip_lit.simps)
  qed simp
  have e: "skip_elems (Suc n) d s = skip_elems m d s"
    if n: "2 * length s + 1 < Suc n" and m: "2 * length s + 1 < m" for m d s
  proof -
    obtain m' where m': "m = Suc m'" using m by (cases m) auto
    have "skip_value n d s = skip_value m' d s" by (rule IHv) (use n m m' in simp_all)
    moreover have "skip_elems n d (skip_ws r2) = skip_elems m' d (skip_ws r2)"
      if "skip_value n d s = Some r1" "skip_ws r1 = c # r2" for r1 c r2
      by (rule IHe)
        (use n m m' skip_value_length [OF that(1)] length_skip_ws [of r1] length_skip_ws [of r2] that(2)
          in simp_all)
    ultimately show ?thesis by (simp add: m' skip_elems.simps(2) split: option.splits list.splits)
  qed
  have mm: "skip_members (Suc n) d s = skip_members m d s"
    if n: "2 * length s < Suc n" and m: "2 * length s < m" for m d s
  proof -
    obtain m' where m': "m = Suc m'" using m by (cases m) auto
    have len: "length (skip_ws v) + 2 \<le> length s"
      if "s = q # k" "skip_string k = Some r" "skip_lit '':'' (skip_ws r) = Some v" for q k r v
      using that(1) skip_string_length [OF that(2)] skip_lit_length [OF that(3)] length_skip_ws [of r]
        length_skip_ws [of v] by simp
    have "skip_value n d (skip_ws v) = skip_value m' d (skip_ws v)"
      if "s = q # k" "skip_string k = Some r" "skip_lit '':'' (skip_ws r) = Some v" for q k r v
      by (rule IHv) (use n m m' len [OF that] in simp_all)
    moreover have "skip_members n d (skip_ws r3) = skip_members m' d (skip_ws r3)"
      if "s = q # k" "skip_string k = Some r" "skip_lit '':'' (skip_ws r) = Some v"
        "skip_value n d (skip_ws v) = Some r2" "skip_ws r2 = c # r3" for q k r v r2 c r3
      by (rule IHm)
        (use n m m' len [OF that(1,2,3)] skip_value_length [OF that(4)] length_skip_ws [of r2]
          length_skip_ws [of r3] that(5) in simp_all)
    ultimately show ?thesis
      by (cases s) (auto simp: m' skip_members.simps(2) simp del: skip_string.simps skip_lit.simps
          split: option.splits list.splits bind_splits)
  qed
  show ?case using v e mm by blast
qed simp

lemma skip_fuel:
  assumes "2 * length s < n"
  shows "skip_value n d s = skip_value (2 * length s + 1) d s"
  by (rule skip_fuel_aux [of n, THEN conjunct1, rule_format]) (use assms in simp_all)

section \<open>The payload round trip\<close>

lemma before_append [simp]: "before (u @ r) r = u"
  by (simp add: before_def)

lemma json_value_skip:
  assumes "json_value x" and "2 * length x < n" and "ends_number y"
  shows "skip_value n (maxNestingDepth - 1) (x @ y) = Some y"
  using skip_value_append [of "2 * length x + 1" "maxNestingDepth - 1" x "[]" y n] assms
  by (simp add: json_value_def)

lemma json_value_no_ws:
  assumes "json_value x"
  shows "skip_ws (x @ y) = x @ y"
proof (cases x)
  case (Cons c t)
  have "skip_number (c # t) = None" if "is_ws c"
    using that by (auto simp: is_ws_def skip_number_def skip_minus_def is_digit_def less_eq_char_def)
  then have "\<not> is_ws c"
    using assms Cons by (auto simp: json_value_def skip_value_Suc_Cons is_ws_def)
  with Cons show ?thesis by (simp add: skip_ws_def)
qed (use assms in \<open>simp add: json_value_def\<close>)

lemma decode_field:
  assumes "json_value x" and "2 * length x < n" and "ends_number y"
    and "skip_string (k @ CHR 0x22 # CHR '':'' # x @ y) = Some (CHR '':'' # x @ y)"
  shows "decode_members (Suc n) (maxNestingDepth - 1) (CHR 0x22 # k @ CHR 0x22 # CHR '':'' # x @ y) f =
    (case skip_ws y of
       [] \<Rightarrow> None
     | c # r' \<Rightarrow>
         if c = CHR '','' then decode_members n (maxNestingDepth - 1) (skip_ws r') (set_field k x f)
         else if c = CHR ''}'' then Some (set_field k x f, r') else None)"
proof -
  have "before (k @ CHR 0x22 # CHR '':'' # x @ y) (CHR '':'' # x @ y) = k @ [CHR 0x22]"
    using before_append [of "k @ [CHR 0x22]" "CHR '':'' # x @ y"] by simp
  moreover have "skip_ws (CHR '':'' # x @ y) = CHR '':'' # x @ y" by (simp add: skip_ws_def is_ws_def)
  ultimately show ?thesis
    using assms(4) json_value_skip [OF assms(1,2,3)] json_value_no_ws [OF assms(1), of y]
    by (simp add: Let_def del: skip_string.simps split: list.split)
qed

lemma key_is_fields:
  "key_is ''data'' ''data''" "\<not> key_is ''metadata'' ''data''" "key_is ''metadata'' ''metadata''"
  by (simp_all add: key_is_def fold_code_def)

lemma skip_string_fields:
  "skip_string (''data'' @ CHR 0x22 # r) = Some r"
  "skip_string (''metadata'' @ CHR 0x22 # r) = Some r"
  by (simp_all add: less_char_def)

lemma ends_number_delims: "ends_number (CHR '','' # r)" "ends_number (CHR ''}'' # r)"
  by (simp_all add: ends_number_def is_digit_def less_eq_char_def)

lemma Unmarshal_payload_object:
  assumes "json_value x" and "json_value z"
  shows "Unmarshal_payload (''{\"data\":'' @ x @ '',\"metadata\":'' @ z @ ''}'') =
    Some \<lparr>pf_Data = Some x, pf_Metadata = Some z\<rparr>"
proof -
  let ?D = "maxNestingDepth - 1"
  let ?zero = "\<lparr>pf_Data = None, pf_Metadata = None\<rparr>"
  let ?t2 = "CHR 0x22 # ''metadata'' @ CHR 0x22 # CHR '':'' # z @ ''}''"
  let ?t1 = "CHR 0x22 # ''data'' @ CHR 0x22 # CHR '':'' # x @ CHR '','' # ?t2"
  define n where "n = 2 * length (CHR ''{'' # ?t1) - 1"
  have n: "2 * length x < Suc n" "2 * length z < n" "2 * length (CHR ''{'' # ?t1) + 1 = Suc (Suc n)"
    by (simp_all add: n_def)
  have ws: "skip_ws ?t2 = ?t2" "skip_ws (CHR '','' # r) = CHR '','' # r" "skip_ws (CHR ''}'' # r) = CHR ''}'' # r"
      "skip_ws ?t1 = ?t1" "skip_ws (CHR ''{'' # r) = CHR ''{'' # r" for r
    by (simp_all add: skip_ws_def is_ws_def)
  have f1: "set_field ''data'' x ?zero = \<lparr>pf_Data = Some x, pf_Metadata = None\<rparr>"
    by (simp add: set_field_def key_is_fields)
  have f2: "set_field ''metadata'' z \<lparr>pf_Data = Some x, pf_Metadata = None\<rparr> =
      \<lparr>pf_Data = Some x, pf_Metadata = Some z\<rparr>"
    by (simp add: set_field_def key_is_fields)
  have "decode_members (Suc (Suc n)) ?D ?t1 ?zero =
      decode_members (Suc n) ?D ?t2 \<lparr>pf_Data = Some x, pf_Metadata = None\<rparr>"
    unfolding decode_field [OF assms(1) n(1) ends_number_delims(1) skip_string_fields(1)] ws f1
    by (simp only: list.case ws simp_thms if_True)
  also have "\<dots> = Some (\<lparr>pf_Data = Some x, pf_Metadata = Some z\<rparr>, [])"
    unfolding decode_field [OF assms(2) n(2) ends_number_delims(2) skip_string_fields(2)] ws f2
    by (simp del: decode_members.simps)
  finally have d: "decode_members (2 * length (CHR ''{'' # ?t1) + 1) ?D ?t1 ?zero =
      Some (\<lparr>pf_Data = Some x, pf_Metadata = Some z\<rparr>, [])"
    unfolding n(3) .
  have "''{\"data\":'' @ x @ '',\"metadata\":'' @ z @ ''}'' = CHR ''{'' # ?t1" by simp
  then show ?thesis
    unfolding Unmarshal_payload_def Let_def using d ws(4,5)
    by (simp add: skip_ws_def [of "[]"] del: decode_members.simps)
qed

end
