(* ===== verification/Pg_Rows.thy ===== *)
theory Pg_Rows
  imports Pg_Serialize Go_Json
begin

text \<open>
  The rows of the events table and \<open>rowToSequencedEvent\<close> of \<open>postgres/cursor.go\<close>,
  with the round trip from an event through \<open>serialize.go\<close>, the table and back. A column
  of type \<open>bigint\<close> is an \<open>int\<close> that the sequence keeps within the 64-bit range;
  scanning it into an \<open>int64\<close> is \<open>word_of_int\<close>.
\<close>

record row =
  row_pos :: int
  row_type :: string
  row_tags :: "string list"
  row_payload :: string

definition rowToSequencedEvent :: "row \<Rightarrow> (error, SequencedEvent) outcome" where
  "rowToSequencedEvent r =
     (case Unmarshal_payload (row_payload r) of
        None \<Rightarrow> Err JsonError
      | Some decoded \<Rightarrow>
          (case TagsFrom (row_tags r) of
             Inl e \<Rightarrow> Err (TagsError e)
           | Inr tagSet \<Rightarrow>
               bind_outcome (int64ToPosition (word_of_int (row_pos r))) (\<lambda>pos.
                 Ok \<lparr>seEvent =
                       \<lparr>evType = row_type r, evTags = tagSet, evData = pf_Data decoded,
                        evMetadata = pf_Metadata decoded\<rparr>,
                     sePosition = pos\<rparr>)))"

section \<open>What an event becomes\<close>

text \<open>Nil data and metadata come back as the JSON text \<open>null\<close>; everything else as it was.\<close>

definition raw_or_null :: "string option \<Rightarrow> string" where
  "raw_or_null m = (case m of None \<Rightarrow> ''null'' | Some t \<Rightarrow> t)"

definition stored_event :: "Event \<Rightarrow> Event" where
  "stored_event ev =
     ev\<lparr>evData := Some (raw_or_null (evData ev)), evMetadata := Some (raw_or_null (evMetadata ev))\<rparr>"

text \<open>
  Events that come back. PostgreSQL also refuses text with a NUL byte or invalid UTF-8; such a
  parameter fails the statement and is one of the failures of the environment, not a case of
  the predicate.
\<close>

definition storable_event :: "Event \<Rightarrow> bool" where
  "storable_event ev \<longleftrightarrow>
     tags_ok (evTags ev) \<and> (\<forall>v \<in> fset (tag_values (evTags ev)). tagDelimiter \<notin> set v)
     \<and> json_value (raw_or_null (evData ev)) \<and> json_value (raw_or_null (evMetadata ev))"

text \<open>The rows the two append paths write for an event.\<close>

definition function_row :: "int \<Rightarrow> Event \<Rightarrow> row" where
  "function_row p ev =
     \<lparr>row_pos = p, row_type = evType ev,
      row_tags = string_to_array (Join (Values (evTags ev)) [tagDelimiter]) tagDelimiter,
      row_payload = serializePayload ev\<rparr>"

definition copy_row :: "int \<Rightarrow> Event \<Rightarrow> row" where
  "copy_row p ev =
     \<lparr>row_pos = p, row_type = evType ev, row_tags = Values (evTags ev),
      row_payload = serializePayload ev\<rparr>"

definition bigint_position :: "int \<Rightarrow> SequencePosition" where
  "bigint_position p = SequencePosition (word_of_int p)"

lemma sint_word_of_int64:
  assumes "- (2 ^ 63) \<le> p" and "p < 2 ^ 63"
  shows "sint (word_of_int p :: int64) = p"
  using assms by (simp add: sint_uint uint_word_of_int_eq signed_take_bit_int_eq_self
      signed_take_bit_take_bit)

lemma bigint_position_less:
  assumes "0 \<le> p" and "p < 2 ^ 63" and "0 \<le> q" and "q < 2 ^ 63"
  shows "bigint_position p < bigint_position q \<longleftrightarrow> p < q"
  using assms
  by (simp add: bigint_position_def less_SequencePosition_def word_less_def uint_word_of_int)

lemma int64ToPosition_bigint:
  assumes "0 \<le> p" and "p < 2 ^ 63"
  shows "int64ToPosition (word_of_int p) = Ok (bigint_position p)"
  using assms sint_word_of_int64 [of p] by (simp add: int64ToPosition_nonneg bigint_position_def)

lemma tags_ok_nonempty: "tags_ok t \<Longrightarrow> v |\<in>| tag_values t \<Longrightarrow> v \<noteq> []"
  by (auto simp: tags_ok_def isValidTagToken_def split: if_splits)

lemma row_tags_split:
  assumes "tags_ok t" and "\<forall>v \<in> fset (tag_values t). tagDelimiter \<notin> set v"
  shows "string_to_array (Join (Values t) [tagDelimiter]) tagDelimiter = Values t"
  by (rule string_to_array_Join) (use assms tags_ok_nonempty in auto)

lemma function_row_copy_row: "storable_event ev \<Longrightarrow> function_row p ev = copy_row p ev"
  by (simp add: function_row_def copy_row_def storable_event_def row_tags_split)

lemma TagsFrom_Values: "tags_ok t \<Longrightarrow> TagsFrom (Values t) = Inr t"
  by (simp add: TagsFrom_Inr_iff tags_ok_def) (simp add: Values_def)

lemma serializePayload_eq:
  "serializePayload ev =
     ''{\"data\":'' @ raw_or_null (evData ev) @ '',\"metadata\":'' @ raw_or_null (evMetadata ev) @ ''}''"
  by (simp add: serializePayload_def raw_or_null_def)

lemma Unmarshal_serializePayload:
  assumes "storable_event ev"
  shows "Unmarshal_payload (serializePayload ev) =
    Some \<lparr>pf_Data = Some (raw_or_null (evData ev)), pf_Metadata = Some (raw_or_null (evMetadata ev))\<rparr>"
  unfolding serializePayload_eq
  by (rule Unmarshal_payload_object) (use assms in \<open>simp_all add: storable_event_def\<close>)

lemma copy_row_decodes:
  assumes "storable_event ev" and "0 \<le> p" and "p < 2 ^ 63"
  shows "rowToSequencedEvent (copy_row p ev) =
    Ok \<lparr>seEvent = stored_event ev, sePosition = bigint_position p\<rparr>"
proof -
  have "TagsFrom (Values (evTags ev)) = Inr (evTags ev)"
    using assms(1) by (simp add: storable_event_def TagsFrom_Values)
  then show ?thesis
    using assms
    by (simp add: rowToSequencedEvent_def copy_row_def Unmarshal_serializePayload
        int64ToPosition_bigint stored_event_def)
qed

text \<open>
  C29: the storage round trip. An event whose tags are valid and free of the delimiter and whose
  data and metadata are nil or JSON values comes back from either append path's row with its
  type and tags unchanged, its data and metadata byte for byte the same (nil as \<open>null\<close>),
  and the position it was stored at.
\<close>

theorem event_row_roundtrip:
  assumes "storable_event ev" and "0 \<le> p" and "p < 2 ^ 63"
  shows "rowToSequencedEvent (copy_row p ev) =
      Ok \<lparr>seEvent = stored_event ev, sePosition = bigint_position p\<rparr>
    \<and> rowToSequencedEvent (function_row p ev) =
      Ok \<lparr>seEvent = stored_event ev, sePosition = bigint_position p\<rparr>
    \<and> evType (stored_event ev) = evType ev \<and> evTags (stored_event ev) = evTags ev"
  using copy_row_decodes [OF assms] function_row_copy_row [OF assms(1)]
  by (simp add: stored_event_def)

lemma json_value_null: "json_value ''null''"
  unfolding json_value_def maxNestingDepth_def by code_simp

lemma storable_plain:
  assumes "\<forall>v \<in> set tags. isValidTagToken v \<and> tagDelimiter \<notin> set v"
  shows "storable_event (event_of t tags)"
  using assms
  by (auto simp: storable_event_def event_of_def tags_ok_def raw_or_null_def json_value_null
      fset_of_list.rep_eq)

theorem event_row_roundtrip_witness:
  "rowToSequencedEvent (function_row 7
       \<lparr>evType = ''A'', evTags = \<lparr>tag_values = {|''x''|}\<rparr>, evData = Some ''{\"n\":[1,2.5e3]}'', evMetadata = None\<rparr>) =
     Ok \<lparr>seEvent = \<lparr>evType = ''A'', evTags = \<lparr>tag_values = {|''x''|}\<rparr>, evData = Some ''{\"n\":[1,2.5e3]}'',
                     evMetadata = Some ''null''\<rparr>, sePosition = SequencePosition 7\<rparr>"
proof -
  let ?ev = "\<lparr>evType = ''A'', evTags = \<lparr>tag_values = {|''x''|}\<rparr>, evData = Some ''{\"n\":[1,2.5e3]}'', evMetadata = None\<rparr>"
  have "json_value ''{\"n\":[1,2.5e3]}''"
    unfolding json_value_def maxNestingDepth_def by code_simp
  then have s: "storable_event ?ev"
    by (simp add: storable_event_def raw_or_null_def json_value_null tags_ok_def isValidTagToken_def
        ContainsFunc_def decode_rune_def IsSpace_def tagDelimiter_def)
  show ?thesis
    using event_row_roundtrip [OF s, of 7] by (simp add: stored_event_def raw_or_null_def bigint_position_def)
qed

section \<open>What does not come back\<close>

lemma decoded_tags:
  assumes "rowToSequencedEvent r = Ok se"
  shows "evTags (seEvent se) = \<lparr>tag_values = fset_of_list (row_tags r)\<rparr>"
  using assms
  by (cases "int64ToPosition (word_of_int (row_pos r))")
    (auto simp: rowToSequencedEvent_def TagsFrom_Inr_iff split: option.splits sum.splits)

lemma isValidTagToken_delimiter:
  assumes "isValidTagToken u" and "isValidTagToken w"
  shows "isValidTagToken (u @ tagDelimiter # w)"
  using assms runes_append_ascii [of tagDelimiter u w]
  by (auto simp: isValidTagToken_def ContainsFunc_def IsSpace_def tagDelimiter_def split: if_splits)

text \<open>
  C38: the delimiter is not a space, so \<open>TagsFrom\<close> accepts a tag that contains it: any two
  valid tags with the delimiter between them are one. An event with such a tag survives the
  COPY path, but on the procedure's path the tag is not among those of the row, and the event
  that is read back, if any is, has other tags: the same event comes back with different tags
  depending on the size of its batch.
\<close>

theorem delimiter_tag_is_split:
  assumes "v |\<in>| tag_values (evTags ev)" and "tagDelimiter \<in> set v"
  shows "v \<in> set (row_tags (copy_row p ev)) \<and> v \<notin> set (row_tags (function_row p ev))
    \<and> (\<forall>se. rowToSequencedEvent (copy_row p ev) = Ok se \<longrightarrow> evTags (seEvent se) = evTags ev)
    \<and> (\<forall>se. rowToSequencedEvent (function_row p ev) = Ok se \<longrightarrow> evTags (seEvent se) \<noteq> evTags ev)
    \<and> (isValidTagToken u \<and> isValidTagToken w \<longrightarrow>
        TagsFrom [u @ tagDelimiter # w] = Inr \<lparr>tag_values = {|u @ tagDelimiter # w|}\<rparr>)"
proof -
  have split: "v \<notin> set (row_tags (function_row p ev))"
    using assms(2) string_to_array_pieces by (fastforce simp: function_row_def)
  moreover have "evTags (seEvent se) \<noteq> evTags ev" if "rowToSequencedEvent (function_row p ev) = Ok se" for se
    using decoded_tags [OF that] split assms(1) by (metis Tags.select_convs(1) fset_of_list_elem)
  moreover have "evTags (seEvent se) = evTags ev" if "rowToSequencedEvent (copy_row p ev) = Ok se" for se
    using decoded_tags [OF that] by (simp add: copy_row_def Values_def)
  moreover have "v \<in> set (row_tags (copy_row p ev))" using assms(1) by (simp add: copy_row_def)
  ultimately show ?thesis
    using isValidTagToken_delimiter by (simp add: TagsFrom_Inr_iff)
qed

theorem delimiter_tag_is_split_witness:
  "let v = ''a'' @ tagDelimiter # ''b''; ev = event_of ''A'' [v]
   in TagsFrom [v] = Inr (evTags ev) \<and> v \<in> set (row_tags (copy_row 1 ev)) \<and> v \<notin> set (row_tags (function_row 1 ev))"
proof -
  let ?v = "''a'' @ tagDelimiter # ''b''"
  have "isValidTagToken ''a''" "isValidTagToken ''b''"
    by (simp_all add: isValidTagToken_def ContainsFunc_def decode_rune_def IsSpace_def)
  then show ?thesis
    using delimiter_tag_is_split [of ?v "event_of ''A'' [?v]" 1 "''a''" "''b''"] by (simp add: event_of_def Let_def)
qed

text \<open>
  C39: nothing checks that data is JSON before it is stored. An event with empty but non-nil
  data is stored as a text that does not parse, and reading its row back is an error whatever
  its position, type and tags.
\<close>

theorem empty_data_is_unreadable:
  "rowToSequencedEvent (copy_row p \<lparr>evType = t, evTags = tags, evData = Some [], evMetadata = m\<rparr>) = Err JsonError
   \<and> rowToSequencedEvent (function_row p \<lparr>evType = t, evTags = tags, evData = Some [], evMetadata = m\<rparr>) = Err JsonError"
proof -
  let ?ev = "\<lparr>evType = t, evTags = tags, evData = Some [], evMetadata = m\<rparr>"
  have "Unmarshal_payload (serializePayload ?ev) = None"
    by (simp add: serializePayload_eq raw_or_null_def Unmarshal_payload_def skip_ws_def is_ws_def
        less_char_def skip_value_Suc_Cons skip_number_def skip_minus_def is_digit_def less_eq_char_def Let_def
        split: nat.split)
  then show ?thesis by (simp add: rowToSequencedEvent_def copy_row_def function_row_def)
qed

end
