(* ===== verification/Lock_Keys.thy ===== *)
theory Lock_Keys
  imports Query "HOL-Library.Multiset"
begin

unbundle bit_operations_syntax

text \<open>
  \<open>postgres/lockkeys.go\<close>: the advisory-lock keys of writers and readers. The hash is
  FNV-1a at 64 bits, byte by byte, reinterpreted as a signed integer. Key sets are collected
  in maps and enumerated by \<open>keysOf\<close>; Go leaves that order open and the model takes the
  ascending one, which nothing depends on: the SQL that takes the locks sorts them
  (\<open>lock_requests_any_order\<close>). The main lemmas are the coverage properties the locking
  protocol rests on: whenever an event could violate another writer's condition, or be seen by
  a reader's query, the two sides have a key in common in conflicting modes.
\<close>

section \<open>Hashing\<close>

definition fnv_offset64 :: uint64 where
  "fnv_offset64 = 14695981039346656037"

definition fnv_prime64 :: uint64 where
  "fnv_prime64 = 1099511628211"

fun fnv1a :: "uint64 \<Rightarrow> string \<Rightarrow> uint64" where
  "fnv1a h [] = h"
| "fnv1a h (c # cs) = fnv1a ((h XOR of_nat (of_char c)) * fnv_prime64) cs"

definition hashKey :: "string \<Rightarrow> int64" where
  "hashKey s = fnv1a fnv_offset64 s"

definition leafKey :: "string \<Rightarrow> string \<Rightarrow> int64" where
  "leafKey eventType tag = hashKey (''L:'' @ eventType @ ''|'' @ tag)"

definition typeIntentKey :: "string \<Rightarrow> int64" where
  "typeIntentKey eventType = hashKey (''T:'' @ eventType)"

definition globalIntentKey :: int64 where
  "globalIntentKey = hashKey ''G''"

definition keysOf :: "int64 fset \<Rightarrow> int64 list" where
  "keysOf S = sorted_list_of_fset S"

section \<open>Writers\<close>

record writerLockKeys =
  leafX :: "int64 list"
  intentS :: "int64 list"

fun leaf_tags :: "string \<Rightarrow> string list \<Rightarrow> int64 fset \<Rightarrow> int64 fset" where
  "leaf_tags t [] leaf = leaf"
| "leaf_tags t (tag # tags) leaf = leaf_tags t tags (finsert (leafKey t tag) leaf)"

fun leaf_types :: "string list \<Rightarrow> string list \<Rightarrow> int64 fset \<Rightarrow> int64 fset" where
  "leaf_types [] tags leaf = leaf"
| "leaf_types (t # ts) tags leaf = leaf_types ts tags (leaf_tags t tags leaf)"

fun leaf_items :: "QueryItem list \<Rightarrow> int64 fset \<Rightarrow> int64 fset" where
  "leaf_items [] leaf = leaf"
| "leaf_items (item # items) leaf =
     leaf_items items (leaf_types (itemTypes item) (Values (itemTags item)) leaf)"

fun event_keys :: "Event list \<Rightarrow> int64 fset \<times> int64 fset \<Rightarrow> int64 fset \<times> int64 fset" where
  "event_keys [] (leaf, intent) = (leaf, intent)"
| "event_keys (ev # evs) (leaf, intent) =
     event_keys evs
       (leaf_tags (evType ev) (Values (evTags ev)) leaf, finsert (typeIntentKey (evType ev)) intent)"

definition computeWriterLockKeys :: "Event list \<Rightarrow> AppendCondition option \<Rightarrow> writerLockKeys" where
  "computeWriterLockKeys events condition =
     (let leaf = (case condition of
                    None \<Rightarrow> {||}
                  | Some c \<Rightarrow>
                      if \<not> IsAll (FailIfEventsMatch c)
                      then leaf_items (Items (FailIfEventsMatch c)) {||} else {||});
          (leaf, intent) = event_keys events (leaf, {||});
          intent = (if length events > 0 then finsert globalIntentKey intent else intent)
      in \<lparr>leafX = keysOf leaf, intentS = keysOf intent\<rparr>)"

section \<open>Readers\<close>

record readerLockKeys =
  leafS :: "int64 list"
  intentX :: "int64 list"

fun intent_types :: "string list \<Rightarrow> int64 fset \<Rightarrow> int64 fset" where
  "intent_types [] intent = intent"
| "intent_types (t # ts) intent = intent_types ts (finsert (typeIntentKey t) intent)"

fun reader_items :: "QueryItem list \<Rightarrow> int64 fset \<times> int64 fset \<Rightarrow> int64 fset \<times> int64 fset" where
  "reader_items [] (leaf, intent) = (leaf, intent)"
| "reader_items (item # items) (leaf, intent) =
     (if length (Values (itemTags item)) > 0
      then reader_items items (leaf_types (itemTypes item) (Values (itemTags item)) leaf, intent)
      else reader_items items (leaf, intent_types (itemTypes item) intent))"

definition computeReaderLockKeys :: "Query \<Rightarrow> readerLockKeys" where
  "computeReaderLockKeys query =
     (if IsAll query then \<lparr>leafS = [], intentX = [globalIntentKey]\<rparr>
      else let (leaf, intent) = reader_items (Items query) ({||}, {||})
           in \<lparr>leafS = keysOf leaf, intentX = keysOf intent\<rparr>)"

section \<open>The order in which the SQL takes the locks\<close>

text \<open>
  \<open>acquireWriterLocksSQL\<close> and the barrier procedure: one statement over both key arrays,
  ordered by key as a signed \<open>bigint\<close>; each request says whether it is exclusive.
\<close>

definition writer_requests :: "int64 list \<Rightarrow> int64 list \<Rightarrow> (int64 \<times> bool) list" where
  "writer_requests lock_keys intent_keys =
     sort_key (\<lambda>(k, excl). sint k)
       (map (\<lambda>k. (k, True)) lock_keys @ map (\<lambda>k. (k, False)) intent_keys)"

definition barrier_requests :: "int64 list \<Rightarrow> int64 list \<Rightarrow> (int64 \<times> bool) list" where
  "barrier_requests shared_keys exclusive_keys =
     sort_key (\<lambda>(k, excl). sint k)
       (map (\<lambda>k. (k, False)) shared_keys @ map (\<lambda>k. (k, True)) exclusive_keys)"

lemma set_writer_requests [simp]:
  "set (writer_requests L I) = (\<lambda>k. (k, True)) ` set L \<union> (\<lambda>k. (k, False)) ` set I"
  by (simp add: writer_requests_def)

lemma set_barrier_requests [simp]:
  "set (barrier_requests S X) = (\<lambda>k. (k, False)) ` set S \<union> (\<lambda>k. (k, True)) ` set X"
  by (simp add: barrier_requests_def)

lemma sint_inj: "sint (a :: int64) = sint b \<longleftrightarrow> a = b"
proof
  assume "sint a = sint b"
  then have "(word_of_int (sint a) :: int64) = word_of_int (sint b)" by (rule arg_cong)
  then show "a = b" by simp
qed simp

lemma writer_requests_sorted: "sorted (map (\<lambda>(k, excl). sint k) (writer_requests L I))"
  by (simp add: writer_requests_def)

lemma barrier_requests_sorted: "sorted (map (\<lambda>(k, excl). sint k) (barrier_requests S X))"
  by (simp add: barrier_requests_def)

lemma distinct_sort_key_map:
  assumes "distinct (map f xs)"
  shows "distinct (map f (sort_key g xs))"
proof -
  have "mset (map f (sort_key g xs)) = mset (map f xs)" by simp
  with assms show ?thesis by (metis distinct_count_atmost_1 mset_eq_setD)
qed

lemma writer_requests_distinct:
  assumes "distinct L" and "distinct I" and "set L \<inter> set I = {}"
  shows "distinct (map fst (writer_requests L I))"
  unfolding writer_requests_def
  by (rule distinct_sort_key_map) (use assms in \<open>simp add: comp_def\<close>)

lemma barrier_requests_distinct:
  assumes "distinct S" and "distinct X" and "set S \<inter> set X = {}"
  shows "distinct (map fst (barrier_requests S X))"
  unfolding barrier_requests_def
  by (rule distinct_sort_key_map) (use assms in \<open>simp add: comp_def\<close>)

lemma lock_requests_any_order:
  assumes "mset L = mset L'" and "mset I = mset I'" and "set L \<inter> set I = {}"
  shows "writer_requests L I = writer_requests L' I'"
proof -
  let ?f = "\<lambda>(k :: int64, excl :: bool). sint k"
  have "inj_on ?f (set (map (\<lambda>k. (k, True)) L @ map (\<lambda>k. (k, False)) I))"
    using assms(3) by (auto simp: inj_on_def sint_inj)
  moreover have "mset (map (\<lambda>k. (k, True)) L @ map (\<lambda>k. (k, False)) I)
      = mset (map (\<lambda>k. (k, True)) L' @ map (\<lambda>k. (k, False)) I')"
    using assms(1,2) by simp
  ultimately show ?thesis
    unfolding writer_requests_def by (intro sort_key_inj_key_eq) simp_all
qed

section \<open>Which keys are taken\<close>

lemma set_keysOf [simp]: "set (keysOf S) = fset S"
  by (simp add: keysOf_def)

lemma distinct_keysOf [simp]: "distinct (keysOf S)"
  by (simp add: keysOf_def)

lemma fset_leaf_tags [simp]: "fset (leaf_tags t tags S) = leafKey t ` set tags \<union> fset S"
  by (induction tags arbitrary: S) auto

lemma fset_leaf_types [simp]:
  "fset (leaf_types ts tags S) = (\<Union>t \<in> set ts. leafKey t ` set tags) \<union> fset S"
  by (induction ts arbitrary: S) auto

lemma fset_intent_types [simp]: "fset (intent_types ts S) = typeIntentKey ` set ts \<union> fset S"
  by (induction ts arbitrary: S) auto

text \<open>The keys of one query item: leaf keys if it has tags, type-intent keys if it has none.\<close>

definition item_leaf :: "QueryItem \<Rightarrow> int64 set" where
  "item_leaf item = (\<Union>t \<in> set (itemTypes item). leafKey t ` fset (tag_values (itemTags item)))"

definition item_intent :: "QueryItem \<Rightarrow> int64 set" where
  "item_intent item =
     (if tag_values (itemTags item) = {||} then typeIntentKey ` set (itemTypes item) else {})"

lemma fset_leaf_items [simp]:
  "fset (leaf_items items S) =
     (\<Union>item \<in> set items. item_leaf item) \<union> fset S"
  by (induction items arbitrary: S) (auto simp: item_leaf_def)

definition event_leaf :: "Event \<Rightarrow> int64 set" where
  "event_leaf ev = leafKey (evType ev) ` fset (tag_values (evTags ev))"

definition condition_leaf :: "AppendCondition \<Rightarrow> int64 set" where
  "condition_leaf c =
     (if IsAll (FailIfEventsMatch c) then {}
      else \<Union>item \<in> set (Items (FailIfEventsMatch c)). item_leaf item)"

lemma event_keys_sets:
  "fset (fst (event_keys evs (L, I))) = (\<Union>ev \<in> set evs. event_leaf ev) \<union> fset L"
  "fset (snd (event_keys evs (L, I))) = (typeIntentKey \<circ> evType) ` set evs \<union> fset I"
  by (induction evs arbitrary: L I) (auto simp: event_leaf_def)

lemma writer_leaf_keys:
  "set (leafX (computeWriterLockKeys events condition)) =
     (\<Union>ev \<in> set events. event_leaf ev)
     \<union> (case condition of None \<Rightarrow> {} | Some c \<Rightarrow> condition_leaf c)"
  by (auto simp: computeWriterLockKeys_def Let_def case_prod_unfold event_keys_sets
      condition_leaf_def split: option.splits)

lemma writer_intent_keys:
  "set (intentS (computeWriterLockKeys events condition)) =
     (typeIntentKey \<circ> evType) ` set events \<union> (if events = [] then {} else {globalIntentKey})"
  by (auto simp: computeWriterLockKeys_def Let_def case_prod_unfold event_keys_sets)

lemma reader_items_leaf:
  "fset (fst (reader_items items (L, I))) = (\<Union>item \<in> set items. item_leaf item) \<union> fset L"
proof (induction items arbitrary: L I)
  case (Cons item items)
  have "item_leaf item = {}" if "Tags_Len (itemTags item) = 0"
    using that by (simp add: item_leaf_def Tags_Len_0_iff)
  with Cons show ?case by (auto simp: item_leaf_def)
qed simp

lemma reader_items_intent:
  "fset (snd (reader_items items (L, I))) = (\<Union>item \<in> set items. item_intent item) \<union> fset I"
proof (induction items arbitrary: L I)
  case (Cons item items)
  have "item_intent item =
      (if 0 < length (Values (itemTags item)) then {} else typeIntentKey ` set (itemTypes item))"
    using Tags_Len_0_iff [of "itemTags item"] by (auto simp: item_intent_def)
  then show ?case by (auto simp: Cons.IH)
qed simp

lemma reader_keys:
  assumes "\<not> query_all q"
  shows "set (leafS (computeReaderLockKeys q)) = (\<Union>item \<in> set (query_items q). item_leaf item)"
    and "set (intentX (computeReaderLockKeys q)) = (\<Union>item \<in> set (query_items q). item_intent item)"
  using assms
  by (simp_all add: computeReaderLockKeys_def IsAll_def Items_def Let_def case_prod_unfold
      reader_items_leaf reader_items_intent)

section \<open>Coverage\<close>

text \<open>
  The events a reader's SQL selects for an item: the type is listed, and the tags overlap when
  the item has any (see the theory of the read SQL).
\<close>

definition item_overlaps :: "QueryItem \<Rightarrow> Event \<Rightarrow> bool" where
  "item_overlaps item ev \<longleftrightarrow>
     evType ev \<in> set (itemTypes item)
     \<and> (tag_values (itemTags item) \<noteq> {||} \<longrightarrow>
          tag_values (itemTags item) |\<inter>| tag_values (evTags ev) \<noteq> {||})"

definition query_overlaps :: "Query \<Rightarrow> Event \<Rightarrow> bool" where
  "query_overlaps q ev \<longleftrightarrow> query_all q \<or> (\<exists>item \<in> set (query_items q). item_overlaps item ev)"

lemma item_matches_overlaps: "item_matches item ev \<Longrightarrow> item_overlaps item ev"
  by (auto simp: item_matches_def item_overlaps_def)

lemma query_matches_overlaps: "query_matches q ev \<Longrightarrow> query_overlaps q ev"
  unfolding query_matches_def query_overlaps_def using item_matches_overlaps by blast

lemma condition_event_leaf:
  assumes "condition_scoped c" and "query_matches (FailIfEventsMatch c) ev"
  shows "event_leaf ev \<inter> condition_leaf c \<noteq> {}"
proof -
  obtain item where item: "item \<in> set (query_items (FailIfEventsMatch c))"
      "item_matches item ev" "item_scoped item" "\<not> query_all (FailIfEventsMatch c)"
    using assms by (auto simp: condition_scoped_def query_matches_def)
  then obtain tag where tag: "tag |\<in>| tag_values (itemTags item)"
    by (auto simp: item_scoped_def)
  have "leafKey (evType ev) tag \<in> event_leaf ev" and "leafKey (evType ev) tag \<in> condition_leaf c"
    using item tag
    by (auto simp: event_leaf_def condition_leaf_def item_leaf_def item_matches_def IsAll_def Items_def)
  then show ?thesis by blast
qed

text \<open>A reader's key that an event of its query meets: a leaf key, its type's intent key, or the global one.\<close>

lemma reader_event_key:
  assumes "query_overlaps q ev"
  shows "set (leafS (computeReaderLockKeys q)) \<inter> event_leaf ev \<noteq> {}
    \<or> set (intentX (computeReaderLockKeys q)) \<inter> {typeIntentKey (evType ev), globalIntentKey} \<noteq> {}"
proof (cases "query_all q")
  case True
  then show ?thesis by (simp add: computeReaderLockKeys_def IsAll_def)
next
  case False
  then obtain item where item: "item \<in> set (query_items q)" "item_overlaps item ev"
    using assms by (auto simp: query_overlaps_def)
  show ?thesis
  proof (cases "tag_values (itemTags item) = {||}")
    case True
    then have "typeIntentKey (evType ev) \<in> set (intentX (computeReaderLockKeys q))"
      using item by (auto simp: reader_keys [OF False] item_intent_def item_overlaps_def)
    then show ?thesis by auto
  next
    case nonempty: False
    then obtain tag where tag: "tag |\<in>| tag_values (itemTags item)" "tag |\<in>| tag_values (evTags ev)"
      using item(2) by (auto simp: item_overlaps_def)
    then have "leafKey (evType ev) tag \<in> set (leafS (computeReaderLockKeys q))"
      using item by (auto simp: reader_keys [OF False] item_leaf_def item_overlaps_def)
    moreover have "leafKey (evType ev) tag \<in> event_leaf ev"
      using tag by (simp add: event_leaf_def)
    ultimately show ?thesis by blast
  qed
qed

text \<open>
  C22: writers meet writers. If an event one append writes would violate the scoped condition
  of another append, the two appends have a leaf key in common, which both take exclusively.
\<close>

theorem writer_condition_coverage:
  assumes "ValidateAppendCondition c = None" and "condition_violated_by c se"
    and "seEvent se \<in> set events1"
  shows "set (leafX (computeWriterLockKeys events1 c1))
           \<inter> set (leafX (computeWriterLockKeys events2 (Some c))) \<noteq> {}"
  using condition_event_leaf [of c "seEvent se"] assms
  by (auto simp: ValidateAppendCondition_None_iff condition_violated_by_def writer_leaf_keys)

theorem writer_condition_coverage_witness:
  "set (leafX (computeWriterLockKeys [event_of ''A'' [''x'', ''y'']] None))
     \<inter> set (leafX (computeWriterLockKeys [event_of ''B'' []] (Some (condition_of [''A''] [''x''] None)))) \<noteq> {}"
proof -
  have v: "ValidateAppendCondition (condition_of [''A''] [''x''] None) = None"
    by (simp add: ValidateAppendCondition_None_iff condition_scoped_def condition_of_def item_scoped_def)
  have b: "condition_violated_by (condition_of [''A''] [''x''] None)
      \<lparr>seEvent = event_of ''A'' [''x'', ''y''], sePosition = SequencePosition 1\<rparr>"
    by (simp add: condition_violated_by_def condition_of_def event_of_def query_matches_def item_matches_def)
  show ?thesis by (rule writer_condition_coverage [OF v b]) simp
qed

text \<open>
  C23: readers meet writers. If a reader's query selects an event of an append, the reader's
  barrier and the append have a key in common in conflicting modes: a leaf key shared by the
  reader and exclusive for the writer, or an intent key exclusive for the reader and shared by
  the writer.
\<close>

theorem reader_writer_coverage:
  assumes "query_overlaps q ev" and "ev \<in> set events"
  shows "set (leafS (computeReaderLockKeys q)) \<inter> set (leafX (computeWriterLockKeys events c)) \<noteq> {}
    \<or> set (intentX (computeReaderLockKeys q)) \<inter> set (intentS (computeWriterLockKeys events c)) \<noteq> {}"
proof -
  have "event_leaf ev \<subseteq> set (leafX (computeWriterLockKeys events c))"
    and "{typeIntentKey (evType ev), globalIntentKey} \<subseteq> set (intentS (computeWriterLockKeys events c))"
    using assms(2) by (auto simp: writer_leaf_keys writer_intent_keys)
  with reader_event_key [OF assms(1)] show ?thesis by blast
qed

theorem reader_writer_coverage_witness:
  "set (intentX (computeReaderLockKeys QueryAll))
     \<inter> set (intentS (computeWriterLockKeys [event_of ''A'' [''x'']] None)) \<noteq> {}"
proof -
  have "query_overlaps QueryAll (event_of ''A'' [''x''])" by (simp add: query_overlaps_def QueryAll_def)
  moreover have "leafS (computeReaderLockKeys QueryAll) = []"
    by (simp add: computeReaderLockKeys_def IsAll_def QueryAll_def)
  ultimately show ?thesis
    using reader_writer_coverage [of QueryAll "event_of ''A'' [''x'']" "[event_of ''A'' [''x'']]" None] by simp
qed

text \<open>
  A leaf key does not determine its pair: the separator may occur in types and tags. Such pairs
  only wait for each other more than they need to.
\<close>

theorem leaf_key_ambiguous: "leafKey (t @ ''|'' @ u) v = leafKey t (u @ ''|'' @ v)"
  by (simp add: leafKey_def)

end
