(* ===== verification/Pg_Store.thy ===== *)
theory Pg_Store
  imports Pg_Rows Lock_Keys
begin

text \<open>
  \<open>postgres/store.go\<close>: the store's configuration (\<open>New\<close>) and the SQL it installs
  (\<open>EnsureInstalled\<close>): the events table with its sequence, and the three stored
  procedures. The procedures are translated statement by statement as functions on the
  database: the committed rows, the last value of the position sequence, and the notifications
  sent. What they use of SQL is written out: \<open>unnest\<close> of parallel arrays is a zip,
  \<open>@>\<close> is inclusion of arrays as sets, \<open>ORDER BY ... LIMIT 1\<close> is the head of the
  sorted list, \<open>nextval\<close> counts up to the bound of a \<open>bigint\<close>, an unquoted
  identifier is folded to lower case and a quoted one is not. The locks a procedure takes are
  the request lists of the theory of lock keys; what they mean between concurrent calls is the
  subject of the theory of concurrent appends.
\<close>

section \<open>Configuration\<close>

record PgStore =
  tableName :: string
  appendFunctionName :: string
  checkFunctionName :: string
  barrierFunctionName :: string
  notifyChannel :: string
  copyThreshold :: int

record PgOptions =
  TablePrefix :: string
  CopyThreshold :: int

definition defaultCopyThreshold :: int where
  "defaultCopyThreshold = 10000"

text \<open>
  The regular expression \<open>(?i)^[a-z_][a-z0-9_]{0,62}$\<close> works on runes. Case-insensitive
  matching folds by Unicode, so beside \<open>A\<close> to \<open>Z\<close> the class also has the long s
  (\<open>0x17F\<close>) and the Kelvin sign (\<open>0x212A\<close>).
\<close>

definition ident_start :: "nat \<Rightarrow> bool" where
  "ident_start r \<longleftrightarrow>
     97 \<le> r \<and> r \<le> 122 \<or> 65 \<le> r \<and> r \<le> 90 \<or> r = 95 \<or> r = 0x17F \<or> r = 0x212A"

definition ident_part :: "nat \<Rightarrow> bool" where
  "ident_part r \<longleftrightarrow> ident_start r \<or> 48 \<le> r \<and> r \<le> 57"

definition validIdentifier :: "string \<Rightarrow> bool" where
  "validIdentifier s =
     (case runes s of
        [] \<Rightarrow> False
      | r # rs \<Rightarrow> ident_start r \<and> list_all ident_part rs \<and> length rs \<le> 62)"

definition pg_New :: "PgOptions \<Rightarrow> error + PgStore" where
  "pg_New opts =
     (let table = (if TablePrefix opts \<noteq> [] then TablePrefix opts @ ''_events'' else ''events'')
      in if \<not> validIdentifier table then Inl (InvalidTableName table)
         else
           Inr \<lparr>tableName = table,
                appendFunctionName = table @ ''_append'',
                checkFunctionName = table @ ''_check_conditions'',
                barrierFunctionName = table @ ''_barrier_hwm'',
                notifyChannel = table,
                copyThreshold =
                  (if CopyThreshold opts \<le> 0 then defaultCopyThreshold else CopyThreshold opts)\<rparr>)"

text \<open>
  How PostgreSQL reads the names. The table is created and queried, and the channel listened
  to, by an unquoted identifier, which is folded to lower case; COPY quotes the table's name and
  \<open>pg_notify\<close> takes the channel's as a string. Identifiers, quoted or not, are cut to 63
  bytes, at the end of a character. (\<open>pg_notify\<close> refuses channel names of 64 bytes and
  more; names from \<open>New\<close> have at most 63 characters, so only those with the two non-ASCII
  letters could be that long, and the refusal is not modelled.)
\<close>

definition to_lower :: "char \<Rightarrow> char" where
  "to_lower c = (let n = of_char c :: nat in if 65 \<le> n \<and> n \<le> 90 then char_of (n + 32) else c)"

definition unquoted :: "string \<Rightarrow> string" where
  "unquoted s = map to_lower s"

definition mblen :: "char \<Rightarrow> nat" where
  "mblen c =
     (let b = of_char c :: nat
      in if b < 128 then 1 else if b div 32 = 6 then 2 else if b div 16 = 14 then 3
         else if b div 8 = 30 then 4 else 1)"

lemma mblen_pos: "0 < mblen c"
  by (simp add: mblen_def Let_def)

function cliplen :: "nat \<Rightarrow> string \<Rightarrow> string" where
  "cliplen n [] = []"
| "cliplen n (c # cs) =
     (if mblen c > n then []
      else take (mblen c) (c # cs) @ cliplen (n - mblen c) (drop (mblen c) (c # cs)))"
  by pat_completeness auto
termination
  by (relation "measure fst") (use mblen_pos less_le_trans [OF mblen_pos] in \<open>auto simp: not_less intro!: diff_less\<close>)

definition NAMEDATALEN :: nat where
  "NAMEDATALEN = 64"

definition quoted_name :: "string \<Rightarrow> string" where
  "quoted_name s = (if length s < NAMEDATALEN then s else cliplen (NAMEDATALEN - 1) s)"

definition sql_name :: "string \<Rightarrow> string" where
  "sql_name s = quoted_name (unquoted s)"

definition created_table :: "PgStore \<Rightarrow> string" where
  "created_table s = sql_name (tableName s)"

definition copy_table :: "PgStore \<Rightarrow> string" where
  "copy_table s = quoted_name (tableName s)"

definition listen_channel :: "PgStore \<Rightarrow> string" where
  "listen_channel s = sql_name (notifyChannel s)"

section \<open>The database\<close>

record PgDb =
  db_rows :: "row list"
  db_seq :: "int option"
  db_notified :: "(string \<times> string) list"

text \<open>\<open>COALESCE(pg_sequence_last_value(...), 0)\<close>\<close>

definition seq_hwm :: "int option \<Rightarrow> int" where
  "seq_hwm s = (case s of None \<Rightarrow> 0 | Some v \<Rightarrow> v)"

definition bigint_max :: int where
  "bigint_max = 9223372036854775807"

definition nextval :: "int option \<Rightarrow> (error, int) outcome" where
  "nextval s =
     (if seq_hwm s \<ge> bigint_max
      then Err (PgError ''nextval: reached maximum value of sequence'')
      else Ok (seq_hwm s + 1))"

text \<open>The sequence after \<open>n\<close> values were drawn from it, by statements whose effects are gone.\<close>

fun draw :: "nat \<Rightarrow> int option \<Rightarrow> int option" where
  "draw 0 s = s"
| "draw (Suc n) s =
     (case nextval s of Ok p \<Rightarrow> draw n (Some p) | Err e \<Rightarrow> s | Panic m \<Rightarrow> s)"

text \<open>
  Inserting rows: each takes the next position. A failure aborts the statement, but values
  already drawn from the sequence are not given back.
\<close>

fun insert_rows ::
  "(string \<times> string list \<times> string) list \<Rightarrow> int option \<Rightarrow> row list \<Rightarrow>
     (error, row list) outcome \<times> int option" where
  "insert_rows [] s acc = (Ok acc, s)"
| "insert_rows ((t, tags, payload) # rest) s acc =
     (case nextval s of
        Ok p \<Rightarrow>
          insert_rows rest (Some p)
            (acc @ [\<lparr>row_pos = p, row_type = t, row_tags = tags, row_payload = payload\<rparr>])
      | Err e \<Rightarrow> (Err e, s)
      | Panic m \<Rightarrow> (Panic m, s))"

section \<open>The condition check\<close>

definition split_tags :: "string \<Rightarrow> string list" where
  "split_tags s = (if s = [] then [] else string_to_array s tagDelimiter)"

definition row_hits :: "int \<Rightarrow> string \<Rightarrow> string \<Rightarrow> int64 \<Rightarrow> row \<Rightarrow> bool" where
  "row_hits p_hwm ctype ctags_str after_pos e \<longleftrightarrow>
     set (split_tags ctags_str) \<subseteq> set (row_tags e) \<and> row_type e = ctype
     \<and> row_pos e > sint after_pos \<and> row_pos e \<le> p_hwm"

definition unnest_conditions :: "cond_arrays \<Rightarrow> (int32 \<times> string \<times> string \<times> int64) list" where
  "unnest_conditions a =
     (case a of (idxs, types, tags, after) \<Rightarrow> zip idxs (zip types (zip tags after)))"

definition check_conditions :: "cond_arrays \<Rightarrow> int \<Rightarrow> row list \<Rightarrow> int32 option" where
  "check_conditions arrays p_hwm rows =
     (case sort_key sint (map fst (filter
         (\<lambda>(cmd_idx, ctype, ctags_str, after_pos).
            list_ex (row_hits p_hwm ctype ctags_str after_pos) rows)
         (unnest_conditions arrays))) of
        [] \<Rightarrow> None
      | v_failed # _ \<Rightarrow> Some v_failed)"

section \<open>The append procedure\<close>

definition append_requests :: "int64 list \<Rightarrow> int64 list \<Rightarrow> (int64 \<times> bool) list" where
  "append_requests lock_keys intent_keys =
     (if length lock_keys > 0 \<or> length intent_keys > 0
      then writer_requests lock_keys intent_keys else [])"

definition violated_prefix :: string where
  "violated_prefix = ''APPEND_CONDITION_VIOLATED:cmd=''"

definition raise_violated :: "int32 \<Rightarrow> error" where
  "raise_violated idx = PgError (violated_prefix @ format_int (sint idx))"

text \<open>The check of the procedure: a single condition row is looked up directly.\<close>

definition append_check :: "cond_arrays \<Rightarrow> int \<Rightarrow> row list \<Rightarrow> error option" where
  "append_check arrays v_hwm rows =
     (case arrays of (idxs, types, tags, after) \<Rightarrow>
        if length idxs > 0 then
          if length idxs = 1 then
            (if list_ex (row_hits v_hwm (hd types) (hd tags) (hd after)) rows
             then Some (raise_violated (hd idxs)) else None)
          else
            (case check_conditions arrays v_hwm rows of
               Some v_failed \<Rightarrow> Some (raise_violated v_failed)
             | None \<Rightarrow> None)
        else None)"

text \<open>
  Taking locks may fail (a deadlock is detected, the wait is cancelled); what the lock manager
  does with the requests is the parameter \<open>acquire\<close>, the error or \<open>None\<close> once all are granted.
\<close>

definition events_append ::
  "PgStore \<Rightarrow> ((int64 \<times> bool) list \<Rightarrow> error option) \<Rightarrow> int64 list \<Rightarrow> int64 list \<Rightarrow>
     string list \<times> string list \<times> string list \<Rightarrow> cond_arrays \<Rightarrow> PgDb \<Rightarrow>
     (error, int) outcome \<times> PgDb" where
  "events_append s acquire lock_keys intent_keys events arrays db =
     (case acquire (append_requests lock_keys intent_keys) of
        Some e \<Rightarrow> (Err e, db)
      | None \<Rightarrow>
      let v_hwm = seq_hwm (db_seq db)
      in case append_check arrays v_hwm (db_rows db) of
           Some e \<Rightarrow> (Err e, db)
         | None \<Rightarrow>
             (case events of (types, tags, payloads) \<Rightarrow>
                case insert_rows
                       (zip types (zip (map (\<lambda>t. string_to_array t tagDelimiter) tags) payloads))
                       (db_seq db) [] of
                  (Ok new, seq') \<Rightarrow>
                    if new = []
                    then (Err (PgError ''currval of sequence is not yet defined in this session''), db)
                    else
                      let v_pos = row_pos (last new)
                      in (Ok v_pos,
                          \<lparr>db_rows = db_rows db @ new, db_seq = seq',
                           db_notified = db_notified db @ [(notifyChannel s, format_int v_pos)]\<rparr>)
                | (Err e, seq') \<Rightarrow> (Err e, db\<lparr>db_seq := seq'\<rparr>)
                | (Panic m, seq') \<Rightarrow> (Panic m, db)))"

section \<open>The barrier procedure\<close>

definition barrier_hwm ::
  "((int64 \<times> bool) list \<Rightarrow> error option) \<Rightarrow> int64 list \<Rightarrow> int64 list \<Rightarrow> PgDb \<Rightarrow> (error, int) outcome" where
  "barrier_hwm acquire shared_keys exclusive_keys db =
     (case acquire (barrier_requests shared_keys exclusive_keys) of
        Some e \<Rightarrow> Err e
      | None \<Rightarrow> Ok (seq_hwm (db_seq db)))"

section \<open>Configuration is sound\<close>

lemma length_unquoted [simp]: "length (unquoted s) = length s"
  by (simp add: unquoted_def)

definition upper_case :: "char \<Rightarrow> bool" where
  "upper_case c \<longleftrightarrow> 65 \<le> byte c \<and> byte c \<le> 90"

lemma to_lower_id: "to_lower c = c \<longleftrightarrow> \<not> upper_case c"
proof -
  have "byte (to_lower c) = byte c + 32" if "upper_case c"
    using that by (simp add: to_lower_def upper_case_def Let_def of_char_of take_bit_eq_mod)
  then have "upper_case c \<Longrightarrow> to_lower c \<noteq> c" by fastforce
  moreover have "\<not> upper_case c \<Longrightarrow> to_lower c = c" by (auto simp: to_lower_def upper_case_def Let_def)
  ultimately show ?thesis by blast
qed

lemma unquoted_id: "unquoted s = s \<longleftrightarrow> \<not> list_ex upper_case s"
  by (induction s) (simp_all add: unquoted_def to_lower_id)

text \<open>An ASCII prefix that gives a table name of at most 63 letters, digits and underscores.\<close>

definition prefix_ok :: "string \<Rightarrow> bool" where
  "prefix_ok p \<longleftrightarrow>
     p = [] \<or> ident_start (byte (hd p)) \<and> list_all (\<lambda>c. ident_part (byte c)) p \<and> length p \<le> 56"

definition table_named :: "string \<Rightarrow> string" where
  "table_named p = (if p = [] then ''events'' else p @ ''_events'')"

lemma validIdentifier_table:
  assumes "list_all (\<lambda>c. byte c < 0x80) p"
  shows "validIdentifier (table_named p) \<longleftrightarrow> prefix_ok p"
proof (cases p)
  case Nil
  then show ?thesis
    by (simp add: table_named_def prefix_ok_def validIdentifier_def decode_rune_def ident_start_def ident_part_def)
next
  case (Cons c cs)
  have "runes (p @ ''_events'') = map byte (p @ ''_events'')"
    using assms by (intro runes_ascii) simp
  moreover have "list_all ident_part (map byte ''_events'')" by (simp add: ident_part_def ident_start_def)
  ultimately show ?thesis
    using Cons by (auto simp: table_named_def prefix_ok_def validIdentifier_def ident_part_def list_all_iff)
qed

lemma names_of_table:
  assumes "length (tableName s) < 64" and "notifyChannel s = tableName s"
  shows "created_table s = unquoted (tableName s)" "copy_table s = tableName s"
    "listen_channel s = unquoted (tableName s)"
  using assms by (simp_all add: created_table_def copy_table_def listen_channel_def sql_name_def quoted_name_def
      NAMEDATALEN_def)

lemma pg_New_ascii:
  assumes "list_all (\<lambda>c. byte c < 0x80) (TablePrefix opts)"
  shows "pg_New opts =
    (let t = table_named (TablePrefix opts)
     in if prefix_ok (TablePrefix opts)
        then Inr \<lparr>tableName = t, appendFunctionName = t @ ''_append'', checkFunctionName = t @ ''_check_conditions'',
          barrierFunctionName = t @ ''_barrier_hwm'', notifyChannel = t,
          copyThreshold = (if 0 < CopyThreshold opts then CopyThreshold opts else 10000)\<rparr>
        else Inl (InvalidTableName t))"
  using validIdentifier_table [OF assms]
  by (auto simp: pg_New_def Let_def table_named_def defaultCopyThreshold_def split: if_splits)

lemma pg_New_names:
  assumes ascii: "list_all (\<lambda>c. byte c < 0x80) (TablePrefix opts)" and s: "pg_New opts = Inr s"
  shows "created_table s = unquoted (tableName s)"
    and "copy_table s = created_table s \<longleftrightarrow> \<not> list_ex upper_case (TablePrefix opts)"
    and "listen_channel s = notifyChannel s \<longleftrightarrow> \<not> list_ex upper_case (TablePrefix opts)"
proof -
  let ?t = "table_named (TablePrefix opts)"
  have t: "tableName s = ?t" "notifyChannel s = ?t" and ok: "prefix_ok (TablePrefix opts)"
    using s unfolding pg_New_ascii [OF ascii] by (auto simp: Let_def split: if_splits)
  have "length ?t < 64" using ok by (auto simp: prefix_ok_def table_named_def)
  then have names: "created_table s = unquoted ?t" "copy_table s = ?t" "listen_channel s = unquoted ?t"
    using names_of_table [of s] t by simp_all
  moreover have "list_ex upper_case ?t \<longleftrightarrow> list_ex upper_case (TablePrefix opts)"
    by (simp add: table_named_def upper_case_def)
  moreover have "?t = unquoted ?t \<longleftrightarrow> \<not> list_ex upper_case ?t" using unquoted_id [of ?t] by metis
  ultimately show "created_table s = unquoted (tableName s)"
    "copy_table s = created_table s \<longleftrightarrow> \<not> list_ex upper_case (TablePrefix opts)"
    "listen_channel s = notifyChannel s \<longleftrightarrow> \<not> list_ex upper_case (TablePrefix opts)"
    using t unquoted_id [of ?t] by simp_all
qed

text \<open>
  C34: \<open>New\<close>, for an ASCII prefix. It is accepted exactly when it is empty, or begins with a
  letter or underscore and has at most 56 letters, digits and underscores; the table is then
  \<open>events\<close> or \<open>prefix_events\<close>, the procedures, the channel and the COPY threshold are
  derived as documented, no name of a table or channel is cut, and COPY addresses the table that
  was created, and notifications the channel that is listened to, exactly when the prefix has no
  upper-case letter. Otherwise the error names the rejected table name.
\<close>

theorem pg_New_correct:
  assumes "list_all (\<lambda>c. byte c < 0x80) (TablePrefix opts)"
  shows "case pg_New opts of
     Inl e \<Rightarrow> e = InvalidTableName (TablePrefix opts @ ''_events'') \<and> \<not> prefix_ok (TablePrefix opts)
   | Inr s \<Rightarrow>
       prefix_ok (TablePrefix opts)
       \<and> tableName s = (if TablePrefix opts = [] then ''events'' else TablePrefix opts @ ''_events'')
       \<and> appendFunctionName s = tableName s @ ''_append''
       \<and> checkFunctionName s = tableName s @ ''_check_conditions''
       \<and> barrierFunctionName s = tableName s @ ''_barrier_hwm''
       \<and> notifyChannel s = tableName s
       \<and> copyThreshold s = (if 0 < CopyThreshold opts then CopyThreshold opts else 10000)
       \<and> created_table s = unquoted (tableName s)
       \<and> (copy_table s = created_table s \<longleftrightarrow> \<not> list_ex upper_case (TablePrefix opts))
       \<and> (listen_channel s = notifyChannel s \<longleftrightarrow> \<not> list_ex upper_case (TablePrefix opts))"
proof (cases "pg_New opts")
  case (Inl e)
  then show ?thesis
    using pg_New_ascii [OF assms] by (auto simp: Let_def table_named_def prefix_ok_def split: if_splits)
next
  case (Inr s)
  then have "prefix_ok (TablePrefix opts)" and fields: "s = \<lparr>tableName = table_named (TablePrefix opts),
      appendFunctionName = table_named (TablePrefix opts) @ ''_append'',
      checkFunctionName = table_named (TablePrefix opts) @ ''_check_conditions'',
      barrierFunctionName = table_named (TablePrefix opts) @ ''_barrier_hwm'',
      notifyChannel = table_named (TablePrefix opts),
      copyThreshold = (if 0 < CopyThreshold opts then CopyThreshold opts else 10000)\<rparr>"
    using pg_New_ascii [OF assms] by (auto simp: Let_def split: if_splits)
  then show ?thesis
    using Inr pg_New_names [OF assms Inr] by (simp add: table_named_def)
qed

theorem pg_New_correct_witness:
  "\<exists>s. pg_New \<lparr>TablePrefix = ''Orders'', CopyThreshold = 0\<rparr> = Inr s
     \<and> tableName s = ''Orders_events'' \<and> copyThreshold s = 10000 \<and> copy_table s \<noteq> created_table s"
proof -
  let ?o = "\<lparr>TablePrefix = ''Orders'', CopyThreshold = 0\<rparr>"
  have "prefix_ok ''Orders''" by (simp add: prefix_ok_def ident_start_def ident_part_def)
  then show ?thesis
    using pg_New_correct [of ?o] by (cases "pg_New ?o") (auto simp: upper_case_def)
qed

end
