(* ===== verification/Read_SQL.thy ===== *)
theory Read_SQL
  imports Pg_Store Memory_Matching
begin

text \<open>
  \<open>postgres/readsql.go\<close>: the statement a read declares its cursor with. The functions
  that build the text and its numbered parameters are translated string by string. Beside
  them stands the syntax tree of the same statement, with the placeholders as numbers: the text
  is proved to be the rendering of the tree, and the tree has a meaning on the rows of the
  table in which each placeholder is looked up among the parameters, so a parameter that is
  missing, misplaced or of the wrong type would show. The properties say what a read selects.
\<close>

section \<open>The text\<close>

datatype sql_arg = ArgBigint int64 | ArgInt int | ArgText string | ArgTexts "string list"

record paramManager =
  pm_args :: "sql_arg list"

definition pm_add :: "sql_arg \<Rightarrow> paramManager \<Rightarrow> string \<times> paramManager" where
  "pm_add v p =
     (let args = pm_args p @ [v] in (''$'' @ format_nat (length args), p\<lparr>pm_args := args\<rparr>))"

definition readCursorName :: string where
  "readCursorName = ''event_cursor''"

fun add_types :: "string list \<Rightarrow> paramManager \<Rightarrow> string list \<times> paramManager" where
  "add_types [] pm = ([], pm)"
| "add_types (t # ts) pm =
     (let (p, pm) = pm_add (ArgText t) pm; (ps, pm) = add_types ts pm in (p # ps, pm))"

definition itemFilterClause :: "QueryItem \<Rightarrow> paramManager \<Rightarrow> string \<times> paramManager" where
  "itemFilterClause item pm =
     (let (parts, pm) =
            (if length (itemTypes item) > 0
             then let (placeholders, pm) = add_types (itemTypes item) pm
                  in ([''type IN ('' @ Join placeholders '', '' @ '')''], pm)
             else ([], pm));
          (parts, pm) =
            (if Tags_Len (itemTags item) > 0
             then let (p, pm) = pm_add (ArgTexts (Values (itemTags item))) pm
                  in (parts @ [''tags && '' @ p @ ''::text[]''], pm)
             else (parts, pm))
      in if length parts = 0 then ([], pm) else (''('' @ Join parts '' AND '' @ '')'', pm))"

fun criteria_clauses :: "QueryItem list \<Rightarrow> paramManager \<Rightarrow> string list \<times> paramManager" where
  "criteria_clauses [] pm = ([], pm)"
| "criteria_clauses (item # items) pm =
     (let (clause, pm) = itemFilterClause item pm; (clauses, pm) = criteria_clauses items pm
      in (if clause \<noteq> [] then clause # clauses else clauses, pm))"

definition criteriaClause :: "Query \<Rightarrow> paramManager \<Rightarrow> string \<times> paramManager" where
  "criteriaClause query pm =
     (let (clauses, pm) = criteria_clauses (Items query) pm
      in (case clauses of
            [] \<Rightarrow> []
          | [clause] \<Rightarrow> clause
          | _ \<Rightarrow> ''('' @ Join clauses '' OR '' @ '')'', pm))"

definition buildReadSQL ::
  "string \<Rightarrow> Query \<Rightarrow> ReadOptions \<Rightarrow> int64 option \<Rightarrow> (error, string \<times> sql_arg list) outcome" where
  "buildReadSQL table query opts upperBound =
     bind_outcome
       (case readAfter opts of
          None \<Rightarrow> Ok ([], \<lparr>pm_args = []\<rparr>)
        | Some a \<Rightarrow>
            bind_outcome (positionToInt64 a) (\<lambda>n.
              let op = (if Backwards opts then ''<'' else ''>'');
                  (p, pm) = pm_add (ArgBigint n) \<lparr>pm_args = []\<rparr>
              in Ok ([''e.sequence_position '' @ op @ '' '' @ p], pm)))
       (\<lambda>(filters, pm).
         let (filters, pm) =
               (case upperBound of
                  None \<Rightarrow> (filters, pm)
                | Some u \<Rightarrow>
                    let (p, pm) = pm_add (ArgBigint u) pm
                    in (filters @ [''e.sequence_position <= '' @ p], pm));
             (filters, pm) =
               (if \<not> IsAll query
                then let (clause, pm) = criteriaClause query pm
                     in (if clause \<noteq> [] then filters @ [clause] else filters, pm)
                else (filters, pm));
             whr = (if length filters > 0 then ''WHERE '' @ Join filters '' AND '' else []);
             order = (if Backwards opts then ''DESC'' else ''ASC'');
             (limit, pm) =
               (if Limit opts > 0
                then let (p, pm) = pm_add (ArgInt (Limit opts)) pm in (''LIMIT '' @ p, pm)
                else ([], pm))
         in Ok (''DECLARE \"'' @ readCursorName
                  @ ''\" CURSOR FOR SELECT e.sequence_position, e.type, e.payload, e.tags FROM ''
                  @ table @ '' e '' @ whr @ '' ORDER BY e.sequence_position '' @ order @ '' '' @ limit,
                pm_args pm))"

section \<open>The statement\<close>

datatype sql_item = SqlItem "nat list" "nat option"

datatype sql_filter = PosAbove nat | PosBelow nat | PosUpTo nat | Criteria "sql_item list"

record read_stmt =
  st_filters :: "sql_filter list"
  st_descending :: bool
  st_limit :: "nat option"

definition placeholder :: "nat \<Rightarrow> string" where
  "placeholder n = ''$'' @ format_nat n"

fun render_item :: "sql_item \<Rightarrow> string" where
  "render_item (SqlItem types tags) =
     ''('' @ Join
       ((if types = [] then [] else [''type IN ('' @ Join (map placeholder types) '', '' @ '')''])
        @ (case tags of None \<Rightarrow> [] | Some n \<Rightarrow> [''tags && '' @ placeholder n @ ''::text[]'']))
       '' AND '' @ '')''"

fun render_filter :: "sql_filter \<Rightarrow> string" where
  "render_filter (PosAbove n) = ''e.sequence_position > '' @ placeholder n"
| "render_filter (PosBelow n) = ''e.sequence_position < '' @ placeholder n"
| "render_filter (PosUpTo n) = ''e.sequence_position <= '' @ placeholder n"
| "render_filter (Criteria items) =
     (if length items = 1 then render_item (hd items)
      else ''('' @ Join (map render_item items) '' OR '' @ '')'')"

definition render_stmt :: "string \<Rightarrow> read_stmt \<Rightarrow> string" where
  "render_stmt table st =
     ''DECLARE \"'' @ readCursorName
       @ ''\" CURSOR FOR SELECT e.sequence_position, e.type, e.payload, e.tags FROM ''
       @ table @ '' e ''
       @ (if st_filters st = [] then [] else ''WHERE '' @ Join (map render_filter (st_filters st)) '' AND '')
       @ '' ORDER BY e.sequence_position '' @ (if st_descending st then ''DESC'' else ''ASC'') @ '' ''
       @ (case st_limit st of None \<Rightarrow> [] | Some n \<Rightarrow> ''LIMIT '' @ placeholder n)"

text \<open>The tree that the builder produces, with the parameters it collects.\<close>

definition plan_item :: "QueryItem \<Rightarrow> sql_arg list \<Rightarrow> sql_item \<times> sql_arg list" where
  "plan_item item args =
     (let k = length args; n = length (itemTypes item);
          args' = args @ map ArgText (itemTypes item)
      in if Tags_Len (itemTags item) > 0
         then (SqlItem [Suc k..<Suc (k + n)] (Some (Suc (k + n))), args' @ [ArgTexts (Values (itemTags item))])
         else (SqlItem [Suc k..<Suc (k + n)] None, args'))"

fun plan_items :: "QueryItem list \<Rightarrow> sql_arg list \<Rightarrow> sql_item list \<times> sql_arg list" where
  "plan_items [] args = ([], args)"
| "plan_items (item # items) args =
     (let (si, args) = plan_item item args; (sis, args) = plan_items items args
      in (if si = SqlItem [] None then sis else si # sis, args))"

definition plan_read :: "Query \<Rightarrow> ReadOptions \<Rightarrow> int64 option \<Rightarrow> (error, read_stmt \<times> sql_arg list) outcome" where
  "plan_read query opts upperBound =
     bind_outcome
       (case readAfter opts of
          None \<Rightarrow> Ok ([], [])
        | Some a \<Rightarrow>
            bind_outcome (positionToInt64 a) (\<lambda>n.
              Ok ([if Backwards opts then PosBelow 1 else PosAbove 1], [ArgBigint n])))
       (\<lambda>(filters, args).
         let (filters, args) =
               (case upperBound of
                  None \<Rightarrow> (filters, args)
                | Some u \<Rightarrow> (filters @ [PosUpTo (Suc (length args))], args @ [ArgBigint u]));
             (filters, args) =
               (if query_all query then (filters, args)
                else let (sis, args) = plan_items (query_items query) args
                     in (if sis = [] then filters else filters @ [Criteria sis], args));
             (limit, args) =
               (if Limit opts > 0 then (Some (Suc (length args)), args @ [ArgInt (Limit opts)])
                else (None, args))
         in Ok (\<lparr>st_filters = filters, st_descending = Backwards opts, st_limit = limit\<rparr>, args))"

section \<open>The text is the rendering of the statement\<close>

lemma pm_add_eq [simp]:
  "pm_add v \<lparr>pm_args = args\<rparr> = (placeholder (Suc (length args)), \<lparr>pm_args = args @ [v]\<rparr>)"
  by (simp add: pm_add_def placeholder_def Let_def)

lemma add_types_eq [simp]:
  "add_types ts \<lparr>pm_args = args\<rparr> =
     (map placeholder [Suc (length args)..<Suc (length args + length ts)],
      \<lparr>pm_args = args @ map ArgText ts\<rparr>)"
proof (induction ts arbitrary: args)
  case (Cons t ts)
  have "[Suc (length args)..<Suc (length args + length (t # ts))] =
      Suc (length args) # [Suc (Suc (length args))..<Suc (Suc (length args) + length ts)]"
    by (simp add: upt_conv_Cons del: upt_Suc)
  with Cons [of "args @ [ArgText t]"] show ?case by (simp del: upt_Suc)
qed simp

lemma itemFilterClause_eq:
  "itemFilterClause item \<lparr>pm_args = args\<rparr> =
     (case plan_item item args of (si, args') \<Rightarrow>
        (if si = SqlItem [] None then [] else render_item si, \<lparr>pm_args = args'\<rparr>))"
proof -
  have "[Suc k..<Suc (k + n)] = [] \<longleftrightarrow> n = 0" for k n by auto
  then show ?thesis
    by (simp add: itemFilterClause_def plan_item_def Let_def del: upt_Suc)
qed

lemma render_item_nonempty [simp]: "render_item si \<noteq> []"
  by (cases si) simp

lemma criteria_clauses_eq:
  "criteria_clauses items \<lparr>pm_args = args\<rparr> =
     (case plan_items items args of (sis, args') \<Rightarrow> (map render_item sis, \<lparr>pm_args = args'\<rparr>))"
  by (induction items arbitrary: args)
    (auto simp: itemFilterClause_eq Let_def split: prod.splits)

lemma criteriaClause_eq:
  "criteriaClause q \<lparr>pm_args = args\<rparr> =
     (case plan_items (query_items q) args of (sis, args') \<Rightarrow>
        (if sis = [] then [] else render_filter (Criteria sis), \<lparr>pm_args = args'\<rparr>))"
  by (auto simp: criteriaClause_def criteria_clauses_eq Items_def Let_def split: prod.splits list.splits)

lemma render_filter_nonempty [simp]: "render_filter f \<noteq> []"
  by (cases f) auto

lemma buildReadSQL_plan:
  "buildReadSQL table q opts u =
     bind_outcome (plan_read q opts u) (\<lambda>(st, args). Ok (render_stmt table st, args))"
proof -
  note defs = buildReadSQL_def plan_read_def render_stmt_def criteriaClause_eq IsAll_def Let_def case_prod_unfold
  show ?thesis
  proof (cases "readAfter opts")
    case None
    then show ?thesis
      by (cases u; cases "query_all q"; cases "Limit opts > 0") (simp_all add: defs del: render_filter.simps(4))
  next
    case (Some a)
    show ?thesis
    proof (cases "positionToInt64 a")
      case (Ok n)
      with Some show ?thesis
        by (cases u; cases "query_all q"; cases "Limit opts > 0"; cases "Backwards opts")
          (simp_all add: defs del: render_filter.simps(4))
    qed (use Some in \<open>simp_all add: buildReadSQL_def plan_read_def\<close>)
  qed
qed

section \<open>What the statement selects\<close>

definition arg_at :: "sql_arg list \<Rightarrow> nat \<Rightarrow> sql_arg option" where
  "arg_at args n = (if 0 < n \<and> n \<le> length args then Some (args ! (n - 1)) else None)"

fun is_bigint :: "sql_arg option \<Rightarrow> bool" where
  "is_bigint (Some (ArgBigint _)) = True" | "is_bigint _ = False"

fun is_int :: "sql_arg option \<Rightarrow> bool" where
  "is_int (Some (ArgInt _)) = True" | "is_int _ = False"

fun is_text :: "sql_arg option \<Rightarrow> bool" where
  "is_text (Some (ArgText _)) = True" | "is_text _ = False"

fun is_texts :: "sql_arg option \<Rightarrow> bool" where
  "is_texts (Some (ArgTexts _)) = True" | "is_texts _ = False"

fun item_params_ok :: "sql_arg list \<Rightarrow> sql_item \<Rightarrow> bool" where
  "item_params_ok args (SqlItem types tags) \<longleftrightarrow>
     list_all (\<lambda>n. is_text (arg_at args n)) types
     \<and> (case tags of None \<Rightarrow> True | Some n \<Rightarrow> is_texts (arg_at args n))"

fun filter_params_ok :: "sql_arg list \<Rightarrow> sql_filter \<Rightarrow> bool" where
  "filter_params_ok args (PosAbove n) = is_bigint (arg_at args n)"
| "filter_params_ok args (PosBelow n) = is_bigint (arg_at args n)"
| "filter_params_ok args (PosUpTo n) = is_bigint (arg_at args n)"
| "filter_params_ok args (Criteria items) = list_all (item_params_ok args) items"

definition stmt_params_ok :: "sql_arg list \<Rightarrow> read_stmt \<Rightarrow> bool" where
  "stmt_params_ok args st \<longleftrightarrow>
     list_all (filter_params_ok args) (st_filters st)
     \<and> (case st_limit st of None \<Rightarrow> True | Some n \<Rightarrow> is_int (arg_at args n))"

fun eval_item :: "sql_arg list \<Rightarrow> row \<Rightarrow> sql_item \<Rightarrow> bool" where
  "eval_item args r (SqlItem types tags) \<longleftrightarrow>
     (types = [] \<or> list_ex (\<lambda>n. arg_at args n = Some (ArgText (row_type r))) types)
     \<and> (case tags of
          None \<Rightarrow> True
        | Some n \<Rightarrow>
            (case arg_at args n of
               Some (ArgTexts vs) \<Rightarrow> set (row_tags r) \<inter> set vs \<noteq> {}
             | _ \<Rightarrow> False))"

definition bigint_at :: "sql_arg list \<Rightarrow> nat \<Rightarrow> int" where
  "bigint_at args n = (case arg_at args n of Some (ArgBigint v) \<Rightarrow> sint v | _ \<Rightarrow> 0)"

fun eval_filter :: "sql_arg list \<Rightarrow> row \<Rightarrow> sql_filter \<Rightarrow> bool" where
  "eval_filter args r (PosAbove n) \<longleftrightarrow> bigint_at args n < row_pos r"
| "eval_filter args r (PosBelow n) \<longleftrightarrow> row_pos r < bigint_at args n"
| "eval_filter args r (PosUpTo n) \<longleftrightarrow> row_pos r \<le> bigint_at args n"
| "eval_filter args r (Criteria items) \<longleftrightarrow> list_ex (eval_item args r) items"

definition exec_declare :: "read_stmt \<Rightarrow> sql_arg list \<Rightarrow> row list \<Rightarrow> (error, row list) outcome" where
  "exec_declare st args rows =
     (if \<not> stmt_params_ok args st then Err (PgError ''invalid parameter'')
      else
        let selected = filter (\<lambda>r. list_all (eval_filter args r) (st_filters st)) rows;
            ordered = sort_key (\<lambda>r. if st_descending st then - row_pos r else row_pos r) selected
        in Ok (case st_limit st of
                 Some n \<Rightarrow> (case arg_at args n of Some (ArgInt l) \<Rightarrow> take (nat l) ordered | _ \<Rightarrow> ordered)
               | None \<Rightarrow> ordered))"

text \<open>The rows that an item and a query select.\<close>

definition item_selects :: "QueryItem \<Rightarrow> row \<Rightarrow> bool" where
  "item_selects item r \<longleftrightarrow>
     (itemTypes item = [] \<or> row_type r \<in> set (itemTypes item))
     \<and> (tag_values (itemTags item) = {||} \<or> set (row_tags r) \<inter> fset (tag_values (itemTags item)) \<noteq> {})"

definition vacuous_item :: "QueryItem \<Rightarrow> bool" where
  "vacuous_item item \<longleftrightarrow> itemTypes item = [] \<and> tag_values (itemTags item) = {||}"

definition query_selects :: "Query \<Rightarrow> row \<Rightarrow> bool" where
  "query_selects q r \<longleftrightarrow>
     query_all q \<or> (\<forall>item \<in> set (query_items q). vacuous_item item)
     \<or> (\<exists>item \<in> set (query_items q). \<not> vacuous_item item \<and> item_selects item r)"

definition pos_selects :: "ReadOptions \<Rightarrow> int64 option \<Rightarrow> row \<Rightarrow> bool" where
  "pos_selects opts u r \<longleftrightarrow>
     (case readAfter opts of
        None \<Rightarrow> True
      | Some a \<Rightarrow> if Backwards opts then row_pos r < uint (pos_value a) else uint (pos_value a) < row_pos r)
     \<and> (case u of None \<Rightarrow> True | Some b \<Rightarrow> row_pos r \<le> sint b)"

lemma arg_at_simps [simp]:
  "arg_at (args @ v # tl_args) (Suc (length args)) = Some v"
  "arg_at (args @ vs @ v # tl_args) (Suc (length args + length vs)) = Some v"
  by (simp_all add: arg_at_def nth_append)

lemma arg_at_block:
  "i < length vs \<Longrightarrow> arg_at (args @ vs @ tl_args) (Suc (length args + i)) = Some (vs ! i)"
  by (simp add: arg_at_def nth_append)

lemma plan_item_sem:
  assumes "plan_item item args = (si, args')"
  shows "\<exists>ext. args' = args @ ext" and "si = SqlItem [] None \<longleftrightarrow> vacuous_item item"
    and "item_params_ok (args' @ tl_args) si" and "eval_item (args' @ tl_args) r si \<longleftrightarrow> item_selects item r"
proof -
  let ?k = "length args" and ?n = "length (itemTypes item)"
  let ?ps = "[Suc ?k..<Suc (?k + ?n)]"
  have ps: "?ps = map (\<lambda>i. Suc (?k + i)) [0..<?n]"
    by (rule nth_equalityI) (simp_all del: upt_Suc)
  have typ_at: "arg_at (args @ map ArgText (itemTypes item) @ m) (Suc (?k + i)) = Some (ArgText (itemTypes item ! i))"
    if "i < ?n" for i m
    using arg_at_block [of i "map ArgText (itemTypes item)" args m] that by simp
  have tags: "Tags_Len (itemTags item) = 0 \<longleftrightarrow> tag_values (itemTags item) = {||}"
    by (rule Tags_Len_0_iff)
  show "\<exists>ext. args' = args @ ext"
    using assms by (auto simp: plan_item_def Let_def split: if_splits)
  show "si = SqlItem [] None \<longleftrightarrow> vacuous_item item"
    using assms tags
    by (cases "itemTypes item") (auto simp: plan_item_def vacuous_item_def Let_def split: if_splits)
  have last: "arg_at (args @ map ArgText (itemTypes item) @ v # m) (Suc (?k + ?n)) = Some v" for v m
    using arg_at_simps(2) [of args "map ArgText (itemTypes item)" v m] by simp
  show "item_params_ok (args' @ tl_args) si"
    using assms typ_at last
    by (auto simp: plan_item_def Let_def ps list_all_iff simp del: upt_Suc split: if_splits)
  have "list_ex (\<lambda>m. arg_at (args @ map ArgText (itemTypes item) @ w) m = Some (ArgText (row_type r))) ?ps
      \<longleftrightarrow> row_type r \<in> set (itemTypes item)" for w
    unfolding ps using typ_at by (auto simp: list_ex_iff in_set_conv_nth)
  then show "eval_item (args' @ tl_args) r si \<longleftrightarrow> item_selects item r"
    using assms last tags
    by (auto simp: plan_item_def Let_def item_selects_def simp del: upt_Suc split: if_splits)
qed

lemma plan_items_sem:
  "plan_items items args = (sis, args') \<Longrightarrow>
     (\<exists>ext. args' = args @ ext) \<and> (sis = [] \<longleftrightarrow> (\<forall>item \<in> set items. vacuous_item item))
     \<and> list_all (item_params_ok (args' @ w)) sis
     \<and> (list_ex (eval_item (args' @ w) r) sis
          \<longleftrightarrow> (\<exists>item \<in> set items. \<not> vacuous_item item \<and> item_selects item r))"
proof (induction items arbitrary: args sis)
  case (Cons item items)
  obtain si args1 where p1: "plan_item item args = (si, args1)" by fastforce
  obtain sis1 where p2: "plan_items items args1 = (sis1, args')"
      "sis = (if si = SqlItem [] None then sis1 else si # sis1)"
    using Cons.prems p1 by (auto simp: Let_def split: prod.splits)
  obtain ext1 where e1: "args1 = args @ ext1" using plan_item_sem(1) [OF p1] by blast
  obtain ext2 where e2: "args' = args1 @ ext2" using Cons.IH [OF p2(1)] by blast
  show ?case
    using Cons.IH [OF p2(1)] p2(2) e1 e2 plan_item_sem(2) [OF p1]
      plan_item_sem(3,4) [OF p1, where tl_args = "ext2 @ w"]
    by auto
qed simp

lemma arg_at_append: "arg_at args n = Some v \<Longrightarrow> arg_at (args @ w) n = Some v"
  by (auto simp: arg_at_def nth_append split: if_splits)

text \<open>The bounds on the position, then the criteria, then the limit.\<close>

lemma plan_read_sem:
  assumes "\<forall>a. readAfter opts = Some a \<longrightarrow> pos_value a < 2 ^ 63"
  obtains st args where "plan_read q opts u = Ok (st, args)" and "stmt_params_ok args st"
    and "\<forall>r. list_all (eval_filter args r) (st_filters st) \<longleftrightarrow> pos_selects opts u r \<and> query_selects q r"
    and "st_descending st = Backwards opts"
    and "st_limit st = None \<and> Limit opts \<le> 0
      \<or> (\<exists>n. st_limit st = Some n \<and> arg_at args n = Some (ArgInt (Limit opts)) \<and> Limit opts > 0)"
proof -
  define fs0 as0 where "fs0 = (case readAfter opts of None \<Rightarrow> []
      | Some a \<Rightarrow> [if Backwards opts then PosBelow 1 else PosAbove 1])"
    and "as0 = (case readAfter opts of None \<Rightarrow> [] | Some a \<Rightarrow> [ArgBigint (pos_value a)])"
  define fs1 as1 where "fs1 = fs0 @ (case u of None \<Rightarrow> [] | Some b \<Rightarrow> [PosUpTo (Suc (length as0))])"
    and "as1 = as0 @ (case u of None \<Rightarrow> [] | Some b \<Rightarrow> [ArgBigint b])"
  obtain sis as2 where items: "plan_items (query_items q) as1 = (sis, as2)" by fastforce
  define fs3 as3 where "fs3 = (if query_all q \<or> sis = [] then fs1 else fs1 @ [Criteria sis])"
    and "as3 = (if query_all q then as1 else as2)"
  define st where "st = \<lparr>st_filters = fs3, st_descending = Backwards opts,
      st_limit = (if Limit opts > 0 then Some (Suc (length as3)) else None)\<rparr>"
  define lim where "lim = (if Limit opts > 0 then [ArgInt (Limit opts)] else [])"
  have plan: "plan_read q opts u = Ok (st, as3 @ lim)"
    using assms items
    by (cases "readAfter opts"; cases u)
      (auto simp: plan_read_def st_def lim_def fs0_def as0_def fs1_def as1_def fs3_def as3_def
        positionToInt64_eq Let_def)
  have sint_after: "sint (pos_value a) = uint (pos_value a)" if "readAfter opts = Some a" for a
    using assms that sint_nonneg_iff [of "pos_value a"] by (simp add: sint_nonneg_uint)
  have pos: "list_all (filter_params_ok (as1 @ w)) fs1
      \<and> (list_all (eval_filter (as1 @ w) r) fs1 \<longleftrightarrow> pos_selects opts u r)" for w r
    by (cases "readAfter opts"; cases u)
      (auto simp: fs1_def as1_def fs0_def as0_def pos_selects_def arg_at_def bigint_at_def sint_after)
  obtain ext where ext: "as2 = as1 @ ext" using plan_items_sem [OF items] by blast
  have crit: "list_all (filter_params_ok (as3 @ lim)) fs3
      \<and> (list_all (eval_filter (as3 @ lim) r) fs3 \<longleftrightarrow> pos_selects opts u r \<and> query_selects q r)" for r
    using pos [of lim r] pos [of "ext @ lim" r] plan_items_sem [OF items, of lim r] ext
    by (auto simp: fs3_def as3_def query_selects_def)
  show thesis
  proof (rule that [OF plan])
    show "stmt_params_ok (as3 @ lim) st"
      using crit by (simp add: stmt_params_ok_def st_def lim_def)
    show "\<forall>r. list_all (eval_filter (as3 @ lim) r) (st_filters st)
        \<longleftrightarrow> pos_selects opts u r \<and> query_selects q r"
      using crit by (simp add: st_def)
  qed (simp_all add: st_def lim_def)
qed

section \<open>Properties of the read statement\<close>

text \<open>
  C27: the statement a read declares. Its text is the rendering of a statement whose every
  placeholder finds a parameter of the right type, and which returns exactly the rows within
  the position bounds that the query selects, by ascending (backwards: descending) position,
  cut to the limit if it is positive. A position at or above \<open>2 ^ 63\<close> panics instead.
\<close>

theorem read_statement_correct:
  "if \<forall>a. readAfter opts = Some a \<longrightarrow> pos_value a < 2 ^ 63
   then \<exists>st args. buildReadSQL table q opts u = Ok (render_stmt table st, args)
     \<and> exec_declare st args rows =
         Ok (limited (Limit opts)
           (sort_key (\<lambda>r. if Backwards opts then - row_pos r else row_pos r)
             (filter (\<lambda>r. pos_selects opts u r \<and> query_selects q r) rows)))
   else is_panic (buildReadSQL table q opts u)"
proof (cases "\<forall>a. readAfter opts = Some a \<longrightarrow> pos_value a < 2 ^ 63")
  case True
  obtain st args where st: "plan_read q opts u = Ok (st, args)" "stmt_params_ok args st"
      "\<forall>r. list_all (eval_filter args r) (st_filters st) \<longleftrightarrow> pos_selects opts u r \<and> query_selects q r"
      "st_descending st = Backwards opts"
      "st_limit st = None \<and> Limit opts \<le> 0
        \<or> (\<exists>n. st_limit st = Some n \<and> arg_at args n = Some (ArgInt (Limit opts)) \<and> Limit opts > 0)"
    by (rule plan_read_sem [OF True])
  then have "exec_declare st args rows =
      Ok (limited (Limit opts)
        (sort_key (\<lambda>r. if Backwards opts then - row_pos r else row_pos r)
          (filter (\<lambda>r. pos_selects opts u r \<and> query_selects q r) rows)))"
    by (auto simp: exec_declare_def limited_def Let_def)
  moreover have "buildReadSQL table q opts u = Ok (render_stmt table st, args)"
    using st(1) by (simp add: buildReadSQL_plan)
  ultimately show ?thesis using True by auto
next
  case False
  then show ?thesis by (auto simp: buildReadSQL_def positionToInt64_eq split: if_splits)
qed

theorem read_statement_correct_witness:
  "\<exists>st args. buildReadSQL ''events'' (FailIfEventsMatch (condition_of [''A''] [''x''] None))
       \<lparr>Backwards = False, readAfter = Some (SequencePosition 4), Limit = 2\<rparr> (Some 9)
       = Ok (render_stmt ''events'' st, args)
     \<and> exec_declare st args
         [copy_row 4 (event_of ''A'' [''x'']), copy_row 5 (event_of ''A'' [''x'']),
          copy_row 6 (event_of ''B'' [''x'']), copy_row 10 (event_of ''A'' [''x''])]
       = Ok [copy_row 5 (event_of ''A'' [''x''])]"
  using read_statement_correct [of "\<lparr>Backwards = False, readAfter = Some (SequencePosition 4), Limit = 2\<rparr>"
      "''events''" "FailIfEventsMatch (condition_of [''A''] [''x''] None)" "Some 9"
      "[copy_row 4 (event_of ''A'' [''x'']), copy_row 5 (event_of ''A'' [''x'']),
        copy_row 6 (event_of ''B'' [''x'']), copy_row 10 (event_of ''A'' [''x''])]"]
  by (simp add: word_less_def pos_selects_def query_selects_def vacuous_item_def item_selects_def
      condition_of_def event_of_def copy_row_def limited_def)

lemma constructed_cases:
  assumes "constructed q"
  shows "query_all q \<or> query_items q \<noteq> [] \<and> (\<forall>item \<in> set (query_items q). itemTypes item \<noteq> [])"
  using assms item_without_types_None_iff [of 0]
  by (auto simp: constructed_def QueryAll_def QueryFromItems_def split: option.splits if_splits)

definition row_of_event :: "row \<Rightarrow> Event \<Rightarrow> bool" where
  "row_of_event r ev \<longleftrightarrow> row_type r = evType ev \<and> set (row_tags r) = fset (tag_values (evTags ev))"

lemma query_selects_overlaps:
  assumes "constructed q" and "row_of_event r ev"
  shows "query_selects q r \<longleftrightarrow> query_overlaps q ev"
proof -
  have "item_selects item r \<longleftrightarrow> item_overlaps item ev" if "itemTypes item \<noteq> []" for item
    using assms(2) that by (auto simp: item_selects_def item_overlaps_def row_of_event_def)
  moreover have "\<not> (\<forall>item \<in> set (query_items q). vacuous_item item)"
    if "query_items q \<noteq> []" and "\<forall>item \<in> set (query_items q). itemTypes item \<noteq> []"
    using that by (cases "query_items q") (simp_all add: vacuous_item_def)
  ultimately show ?thesis
    using constructed_cases [OF assms(1)]
    unfolding query_selects_def query_overlaps_def vacuous_item_def by blast
qed

lemma one_tag_overlap:
  assumes "fcard (tag_values (itemTags item)) \<le> 1"
  shows "item_overlaps item ev \<longleftrightarrow> item_matches item ev"
proof (cases "tag_values (itemTags item) = {||}")
  case False
  then have "card (fset (tag_values (itemTags item))) \<noteq> 0" 
    by (metis bot_fset.rep_eq card_0_eq finite_fset fset_inject)
  with assms have "card (fset (tag_values (itemTags item))) = 1"
    unfolding fcard.rep_eq by linarith
  then obtain v where "fset (tag_values (itemTags item)) = {v}" by (rule card_1_singletonE)
  then have "tag_values (itemTags item) = {|v|}"
    by (metis bot_fset.rep_eq finsert.rep_eq fset_inject)
  then show ?thesis by (auto simp: item_overlaps_def item_matches_def)
qed (simp add: item_overlaps_def item_matches_def)

lemma one_tag_query:
  assumes "\<forall>item \<in> set (Items q). Tags_Len (itemTags item) \<le> 1"
  shows "query_overlaps q ev \<longleftrightarrow> query_matches q ev"
  using assms one_tag_overlap by (auto simp: query_overlaps_def query_matches_def Items_def Tags_Len_def)

text \<open>
  C28: for a query built by \<open>QueryAll\<close> or \<open>QueryFromItems\<close>, every stored event that
  matches the query is selected, and nothing else is when no item has more than one tag.
\<close>

theorem read_selects_matches:
  assumes "constructed q" and "row_of_event r ev"
  shows "(query_matches q ev \<longrightarrow> query_selects q r)
    \<and> ((\<forall>item \<in> set (Items q). Tags_Len (itemTags item) \<le> 1) \<longrightarrow>
         (query_selects q r \<longleftrightarrow> query_matches q ev))"
  using query_selects_overlaps [OF assms] query_matches_overlaps [of q ev] one_tag_query [of q ev] by auto

theorem read_selects_matches_witness:
  "query_selects (FailIfEventsMatch (condition_of [''A''] [''x''] None)) (copy_row 1 (event_of ''A'' [''x'', ''y'']))"
proof -
  let ?q = "FailIfEventsMatch (condition_of [''A''] [''x''] None)"
  have c: "constructed ?q"
    unfolding constructed_def
    by (rule disjI2, rule exI [of _ "query_items ?q"]) (simp add: QueryFromItems_def condition_of_def)
  have r: "row_of_event (copy_row 1 (event_of ''A'' [''x'', ''y''])) (event_of ''A'' [''x'', ''y''])"
    by (simp add: row_of_event_def copy_row_def)
  have "query_matches ?q (event_of ''A'' [''x'', ''y''])"
    by (simp add: query_matches_def item_matches_def condition_of_def event_of_def)
  then show ?thesis using read_selects_matches [OF c r] by blast
qed

text \<open>
  C37: with several tags the read returns too much. The statement tests whether the tags
  overlap (\<open>&&\<close>), not whether they include the item's tags. For a query of one item, the
  stored events that are selected although they do not match are exactly those of a listed
  type with some but not all of the item's tags; and there are such events exactly when the
  item has two tags or more.
\<close>

theorem read_overlap_is_not_match:
  assumes "QueryFromItems [item] = Inr q" and "row_of_event r ev"
  shows "(query_selects q r \<and> \<not> query_matches q ev \<longleftrightarrow>
        evType ev \<in> set (itemTypes item)
        \<and> tag_values (itemTags item) |\<inter>| tag_values (evTags ev) \<noteq> {||}
        \<and> \<not> tag_values (itemTags item) |\<subseteq>| tag_values (evTags ev))
    \<and> (2 \<le> Tags_Len (itemTags item) \<longleftrightarrow>
        (\<exists>ev'. query_selects q (copy_row p ev') \<and> \<not> query_matches q ev'))"
proof -
  have q: "q = \<lparr>query_items = [item], query_all = False\<rparr>" "itemTypes item \<noteq> []"
    using assms(1) by (simp_all add: QueryFromItems_def split: if_splits)
  have c: "constructed q" unfolding constructed_def using assms(1) by blast
  have extra: "query_selects q r' \<and> \<not> query_matches q ev' \<longleftrightarrow>
        evType ev' \<in> set (itemTypes item)
        \<and> tag_values (itemTags item) |\<inter>| tag_values (evTags ev') \<noteq> {||}
        \<and> \<not> tag_values (itemTags item) |\<subseteq>| tag_values (evTags ev')" if "row_of_event r' ev'" for r' ev'
    unfolding query_selects_overlaps [OF c that]
    by (auto simp: q(1) query_overlaps_def query_matches_def item_overlaps_def item_matches_def)
  have copied: "row_of_event (copy_row p ev') ev'" for ev'
    by (simp add: row_of_event_def copy_row_def)
  have "\<exists>ev'. query_selects q (copy_row p ev') \<and> \<not> query_matches q ev'" if "2 \<le> Tags_Len (itemTags item)"
  proof -
    let ?tags = "tag_values (itemTags item)"
    from that have "?tags \<noteq> {||}" using Tags_Len_0_iff [of "itemTags item"] by auto
    then obtain v where v: "v |\<in>| ?tags" by blast
    have "\<not> ?tags |\<subseteq>| {|v|}" using that fcard_mono [of ?tags "{|v|}"] by (auto simp: Tags_Len_def fcard.rep_eq)
    with v show ?thesis
      using extra [OF copied, of "event_of (hd (itemTypes item)) [v]"] q(2) by (auto simp: event_of_def)
  qed
  moreover have "2 \<le> Tags_Len (itemTags item)" if "query_selects q (copy_row p ev')" "\<not> query_matches q ev'" for ev'
  proof (rule ccontr)
    assume "\<not> 2 \<le> Tags_Len (itemTags item)"
    then have "query_overlaps q ev' \<longleftrightarrow> query_matches q ev'" by (intro one_tag_query) (simp add: q(1) Items_def)
    with that show False by (simp add: query_selects_overlaps [OF c copied])
  qed
  ultimately show ?thesis using extra [OF assms(2)] by blast
qed

theorem read_overlap_is_not_match_witness:
  "\<exists>q. QueryFromItems [\<lparr>itemTypes = [''A''], itemTags = \<lparr>tag_values = {|''x'', ''y''|}\<rparr>\<rparr>] = Inr q
     \<and> query_selects q (copy_row 1 (event_of ''A'' [''x'']))
     \<and> \<not> query_matches q (event_of ''A'' [''x''])"
proof -
  let ?item = "\<lparr>itemTypes = [''A''], itemTags = \<lparr>tag_values = {|''x'', ''y''|}\<rparr>\<rparr>"
  obtain q where q: "QueryFromItems [?item] = Inr q" by (simp add: QueryFromItems_def)
  have "row_of_event (copy_row 1 (event_of ''A'' [''x''])) (event_of ''A'' [''x''])"
    by (simp add: row_of_event_def copy_row_def)
  from read_overlap_is_not_match [OF q this] show ?thesis using q by (auto simp: event_of_def)
qed

text \<open>
  The zero value \<open>Query{}\<close>, which no constructor returns, matches no event but builds a
  statement without criteria, which selects every row; and its barrier takes no lock at all.
\<close>

theorem zero_query_selects_all:
  "\<not> query_matches \<lparr>query_items = [], query_all = False\<rparr> ev
   \<and> query_selects \<lparr>query_items = [], query_all = False\<rparr> r
   \<and> computeReaderLockKeys \<lparr>query_items = [], query_all = False\<rparr> = \<lparr>leafS = [], intentX = []\<rparr>"
  by (simp add: query_matches_def query_selects_def computeReaderLockKeys_def IsAll_def Items_def keysOf_def)

end
