(* ===== verification/Pg_Append.thy ===== *)
theory Pg_Append
  imports Pg_Store
begin

text \<open>
  \<open>postgres/append.go\<close>: the append of the PostgreSQL store on both of its paths, the
  stored procedure and COPY, with every error and panic of the source. The driver and the
  network are a parameter: the round trip of the procedure call is delivered or lost (with the
  statement run or not, and with the error the driver reports, which may also be a parameter
  value the server refuses), and every statement of the COPY transaction may fail. The calls
  of this theory run one at a time; the theory of concurrent appends interleaves them. The
  store is proved to satisfy the append contract for every database its own appends produce.
\<close>

section \<open>Errors of the condition check\<close>

definition parseConditionViolation :: "error \<Rightarrow> int64 option" where
  "parseConditionViolation err =
     (case err of
        PgError message \<Rightarrow>
          if \<not> HasPrefix message violated_prefix then None
          else (case Atoi (TrimPrefix message violated_prefix) of
                  Inl _ \<Rightarrow> None
                | Inr idx \<Rightarrow> Some idx)
      | _ \<Rightarrow> None)"

definition conditionError :: "AppendCommand list \<Rightarrow> int64 \<Rightarrow> (error, SequencePosition) outcome" where
  "conditionError commands idx =
     (let commandIndex = (if length commands > 1 then Some (unat idx) else None)
      in if sint idx < 0 \<or> int (length commands) \<le> sint idx then Panic ''index out of range''
         else case cmdCondition (commands ! nat (sint idx)) of
                None \<Rightarrow> Panic ''invalid memory address or nil pointer dereference''
              | Some c \<Rightarrow>
                  Err (ConditionViolated \<lparr>errCondition = c, errCommandIndex = commandIndex\<rparr>))"

section \<open>The two paths\<close>

datatype net = Delivered | Lost error bool

datatype copy_step = BeginTx | ReadHwm | CheckConditions | CopyFrom | Currval | Notify

text \<open>
  The environment of a call: what the lock manager answers, the fate of the procedure's round
  trip, the statements of the COPY transaction that fail, how many rows a call that was lost
  unexecuted or a failing COPY had numbered, and the fate of the commit.
\<close>

record pg_env =
  env_locks :: "(int64 \<times> bool) list \<Rightarrow> error option"
  env_call :: net
  env_fails :: "copy_step \<Rightarrow> error option"
  env_drawn :: nat
  env_commit :: net

text \<open>
  A healthy environment: locks are granted, every statement runs and every reply arrives. In
  particular the server accepts the texts it is sent, which have to be valid UTF-8 without NUL
  bytes; a refusal is a call lost unexecuted, or a failing statement.
\<close>

definition healthy :: pg_env where
  "healthy =
     \<lparr>env_locks = (\<lambda>_. None), env_call = Delivered, env_fails = (\<lambda>_. None), env_drawn = 0, env_commit = Delivered\<rparr>"

text \<open>
  A call that is rolled back gives no position back: it may have numbered any of the rows it
  would have inserted.
\<close>

definition rolled_back :: "pg_env \<Rightarrow> PgDb \<Rightarrow> PgDb \<Rightarrow> PgDb" where
  "rolled_back env db db' =
     db\<lparr>db_seq := draw (min (env_drawn env) (nat (seq_hwm (db_seq db') - seq_hwm (db_seq db)))) (db_seq db)\<rparr>"

definition appendViaFunction ::
  "PgStore \<Rightarrow> pg_env \<Rightarrow> PgDb \<Rightarrow> AppendCommand list \<Rightarrow> writerLockKeys \<Rightarrow>
     (error, SequencePosition) outcome \<times> PgDb" where
  "appendViaFunction s env db commands keys =
     (case serializeConditions commands of
        Panic m \<Rightarrow> (Panic m, db)
      | Err e \<Rightarrow> (Err e, db)
      | Ok arrays \<Rightarrow>
          let run = events_append s (env_locks env) (leafX keys) (intentS keys)
                      (serializeEvents commands) arrays db;
              (result, db') =
                (case env_call env of
                   Delivered \<Rightarrow> run
                 | Lost e executed \<Rightarrow> (Err e, if executed then snd run else rolled_back env db (snd run)))
          in (case result of
                Panic m \<Rightarrow> Panic m
              | Err err \<Rightarrow>
                  (case parseConditionViolation err of
                     Some idx \<Rightarrow> conditionError commands idx
                   | None \<Rightarrow> Err err)
              | Ok pos \<Rightarrow> int64ToPosition (word_of_int pos), db'))"

text \<open>The check on the COPY path: nothing is sent when there are no condition rows.\<close>

definition checkConditions ::
  "error option \<Rightarrow> AppendCommand list \<Rightarrow> int \<Rightarrow> PgDb \<Rightarrow> (error, int64 option) outcome" where
  "checkConditions fails commands hwm db =
     bind_outcome (serializeConditions commands) (\<lambda>arrays.
       if length (fst arrays) = 0 then Ok None
       else case fails of
              Some e \<Rightarrow> Err e
            | None \<Rightarrow> Ok (map_option (\<lambda>failed. word_of_int (sint failed)) (check_conditions arrays hwm (db_rows db))))"

definition copy_insert :: "PgStore \<Rightarrow> pg_env \<Rightarrow> Event list \<Rightarrow> PgDb \<Rightarrow> (error, row list) outcome \<times> int option" where
  "copy_insert s env events db =
     (let values = map (\<lambda>ev. (evType ev, Values (evTags ev), serializePayload ev)) events
      in case env_fails env CopyFrom of
           Some e \<Rightarrow> (Err e, snd (insert_rows (take (env_drawn env) values) (db_seq db) []))
         | None \<Rightarrow>
             if copy_table s \<noteq> created_table s then (Err (PgError ''relation does not exist''), db_seq db)
             else insert_rows values (db_seq db) [])"

definition appendViaCopy ::
  "PgStore \<Rightarrow> pg_env \<Rightarrow> PgDb \<Rightarrow> AppendCommand list \<Rightarrow> writerLockKeys \<Rightarrow>
     (error, SequencePosition) outcome \<times> PgDb" where
  "appendViaCopy s env db commands keys =
     (case env_fails env BeginTx of Some e \<Rightarrow> (Err e, db) | None \<Rightarrow>
     (case env_locks env (writer_requests (leafX keys) (intentS keys)) of Some e \<Rightarrow> (Err e, db) | None \<Rightarrow>
     (case env_fails env ReadHwm of Some e \<Rightarrow> (Err e, db) | None \<Rightarrow>
        let hwm = seq_hwm (db_seq db)
        in case checkConditions (env_fails env CheckConditions) commands hwm db of
             Panic m \<Rightarrow> (Panic m, db)
           | Err e \<Rightarrow> (Err e, db)
           | Ok (Some idx) \<Rightarrow> (conditionError commands idx, db)
           | Ok None \<Rightarrow>
               (case copy_insert s env (command_events commands) db of
                  (Panic m, seq') \<Rightarrow> (Panic m, db\<lparr>db_seq := seq'\<rparr>)
                | (Err e, seq') \<Rightarrow> (Err e, db\<lparr>db_seq := seq'\<rparr>)
                | (Ok new, seq') \<Rightarrow>
                    let undone = db\<lparr>db_seq := seq'\<rparr>
                    in case (case env_fails env Currval of Some e \<Rightarrow> Some e | None \<Rightarrow> env_fails env Notify) of
                         Some e \<Rightarrow> (Err e, undone)
                       | None \<Rightarrow>
                           let pos = seq_hwm seq';
                               committed =
                                 \<lparr>db_rows = db_rows db @ new, db_seq = seq',
                                  db_notified = db_notified db
                                    @ [(notifyChannel s, FormatInt (word_of_int pos))]\<rparr>
                           in case env_commit env of
                                Lost e executed \<Rightarrow> (Err e, if executed then committed else undone)
                              | Delivered \<Rightarrow> (int64ToPosition (word_of_int pos), committed)))))"

section \<open>Append\<close>

fun collect_keys ::
  "AppendCommand list \<Rightarrow> int \<times> int64 fset \<times> int64 fset \<Rightarrow> int \<times> int64 fset \<times> int64 fset" where
  "collect_keys [] acc = acc"
| "collect_keys (cmd # cmds) (totalEvents, leaf, intent) =
     (let keys = computeWriterLockKeys (cmdEvents cmd) (cmdCondition cmd)
      in collect_keys cmds
           (totalEvents + int (length (cmdEvents cmd)),
            leaf |\<union>| fset_of_list (leafX keys), intent |\<union>| fset_of_list (intentS keys)))"

definition append_keys :: "AppendCommand list \<Rightarrow> writerLockKeys" where
  "append_keys commands =
     (case collect_keys commands (0, {||}, {||}) of
        (totalEvents, leaf, intent) \<Rightarrow> \<lparr>leafX = keysOf leaf, intentS = keysOf intent\<rparr>)"

definition pg_Append ::
  "PgStore \<Rightarrow> pg_env \<Rightarrow> PgDb \<Rightarrow> AppendCommand list \<Rightarrow> (error, SequencePosition) outcome \<times> PgDb" where
  "pg_Append s env db commands =
     (case validate_commands commands of
        Some e \<Rightarrow> (Err e, db)
      | None \<Rightarrow>
          let totalEvents = fst (collect_keys commands (0, {||}, {||}))
          in if totalEvents = 0 then (Err ZeroEvents, db)
             else if totalEvents \<le> copyThreshold s
             then appendViaFunction s env db commands (append_keys commands)
             else appendViaCopy s env db commands (append_keys commands))"

section \<open>The database as a log\<close>

definition decoded :: "row \<Rightarrow> SequencedEvent list" where
  "decoded r = (case rowToSequencedEvent r of Ok se \<Rightarrow> [se] | Err e \<Rightarrow> [] | Panic m \<Rightarrow> [])"

definition db_log :: "PgDb \<Rightarrow> SequencedEvent list" where
  "db_log db = concat (map decoded (db_rows db))"

text \<open>
  The invariant of the database: every row is what an append writes for a storable event,
  positions strictly ascend, and none is beyond the sequence.
\<close>

definition row_ok :: "int \<Rightarrow> row \<Rightarrow> bool" where
  "row_ok hwm r \<longleftrightarrow>
     (\<exists>ev. storable_event ev \<and> r = copy_row (row_pos r) ev) \<and> 0 < row_pos r \<and> row_pos r \<le> hwm"

definition db_ok :: "PgDb \<Rightarrow> bool" where
  "db_ok db \<longleftrightarrow>
     (\<forall>r \<in> set (db_rows db). row_ok (seq_hwm (db_seq db)) r)
     \<and> sorted_wrt (<) (map row_pos (db_rows db))
     \<and> 0 \<le> seq_hwm (db_seq db) \<and> seq_hwm (db_seq db) \<le> bigint_max"

definition pg_room :: "PgDb \<Rightarrow> nat \<Rightarrow> bool" where
  "pg_room db n \<longleftrightarrow> seq_hwm (db_seq db) + int n \<le> bigint_max"

text \<open>What a caller has to respect for its commands to be stored and checked faithfully.\<close>

definition clean_tags :: "Tags \<Rightarrow> bool" where
  "clean_tags t \<longleftrightarrow> tags_ok t \<and> (\<forall>v \<in> fset (tag_values t). tagDelimiter \<notin> set v)"

definition clean_conditions :: "AppendCommand list \<Rightarrow> bool" where
  "clean_conditions cmds \<longleftrightarrow>
     (\<forall>cmd \<in> set cmds. \<forall>c. cmdCondition cmd = Some c \<longrightarrow>
        (\<forall>item \<in> set (query_items (FailIfEventsMatch c)). clean_tags (itemTags item)))"

definition pg_storable :: "PgStore \<Rightarrow> AppendCommand list \<Rightarrow> bool" where
  "pg_storable s cmds \<longleftrightarrow>
     (\<forall>ev \<in> set (command_events cmds). storable_event ev) \<and> clean_conditions cmds
     \<and> after_fits cmds \<and> length cmds < 2 ^ 31 \<and> copy_table s = created_table s"

lemma row_ok_pos63: "row_ok hwm r \<Longrightarrow> hwm \<le> bigint_max \<Longrightarrow> 0 \<le> row_pos r \<and> row_pos r < 2 ^ 63"
  by (simp add: row_ok_def bigint_max_def)

lemma decoded_row_ok:
  assumes "row_ok hwm r" and "hwm \<le> bigint_max"
  obtains ev where "storable_event ev" "r = copy_row (row_pos r) ev"
    "decoded r = [\<lparr>seEvent = stored_event ev, sePosition = bigint_position (row_pos r)\<rparr>]"
proof -
  obtain ev where ev: "storable_event ev" "r = copy_row (row_pos r) ev"
    using assms(1) by (auto simp: row_ok_def)
  have "rowToSequencedEvent (copy_row (row_pos r) ev) =
      Ok \<lparr>seEvent = stored_event ev, sePosition = bigint_position (row_pos r)\<rparr>"
    using ev(1) row_ok_pos63 [OF assms] by (intro copy_row_decodes) auto
  then have "decoded r = [\<lparr>seEvent = stored_event ev, sePosition = bigint_position (row_pos r)\<rparr>]"
    using ev(2) by (simp add: decoded_def)
  with ev show thesis by (rule that)
qed

lemma db_log_ascends:
  assumes "\<forall>r \<in> set rows. row_ok hwm r" and "hwm \<le> bigint_max" and "sorted_wrt (<) (map row_pos rows)"
  shows "map sePosition (concat (map decoded rows)) = map (bigint_position \<circ> row_pos) rows
    \<and> positions_ascend (concat (map decoded rows))"
proof -
  have eq: "map sePosition (concat (map decoded rs)) = map (bigint_position \<circ> row_pos) rs"
    if "\<forall>r \<in> set rs. row_ok hwm r" for rs
    using that
  proof (induction rs)
    case (Cons r rs)
    then obtain ev where "decoded r = [\<lparr>seEvent = stored_event ev, sePosition = bigint_position (row_pos r)\<rparr>]"
      using assms(2) by (auto elim: decoded_row_ok)
    with Cons show ?case by simp
  qed simp
  have "sorted_wrt (<) (map (bigint_position \<circ> row_pos) rows)"
    using assms(3) row_ok_pos63 [OF _ assms(2)] assms(1)
    by (simp add: sorted_wrt_map sorted_wrt_mono_rel [rotated] bigint_position_less)
  then show ?thesis using eq [OF assms(1)] by (simp add: positions_ascend_def)
qed

section \<open>The condition check against the meaning of conditions\<close>

lemma split_tags_Join:
  assumes "clean_tags t"
  shows "split_tags (Join (Values t) [tagDelimiter]) = Values t"
  using row_tags_split [of t] assms
  by (auto simp: clean_tags_def split_tags_def string_to_array_def split: if_splits)

lemma sint_after_value:
  assumes "\<forall>p. condAfter c = Some p \<longrightarrow> pos_value p < 2 ^ 63"
  shows "sint (after_value c) = (case condAfter c of None \<Rightarrow> 0 | Some p \<Rightarrow> uint (pos_value p))"
proof (cases "condAfter c")
  case (Some p)
  with assms have "0 \<le> sint (pos_value p)" by (simp only: sint_nonneg_iff)
  with Some show ?thesis by (simp add: after_value_def sint_nonneg_uint)
qed (simp add: after_value_def)

lemma row_hits_item:
  assumes "row_ok hwm r" and "hwm \<le> bigint_max" and "clean_tags (itemTags item)"
    and "\<forall>p. condAfter c = Some p \<longrightarrow> pos_value p < 2 ^ 63"
    and "decoded r = [se]"
  shows "(\<exists>t \<in> set (itemTypes item). row_hits hwm t (Join (Values (itemTags item)) [tagDelimiter]) (after_value c) r)
    \<longleftrightarrow> item_matches item (seEvent se) \<and> (case condAfter c of None \<Rightarrow> True | Some p \<Rightarrow> p < sePosition se)"
proof -
  obtain ev where ev: "r = copy_row (row_pos r) ev" "storable_event ev"
      "se = \<lparr>seEvent = stored_event ev, sePosition = bigint_position (row_pos r)\<rparr>"
    using decoded_row_ok [OF assms(1,2)] assms(5) by (metis list.inject)
  have tt: "row_type r = evType ev" "row_tags r = Values (evTags ev)"
    by (subst ev(1), simp add: copy_row_def)+
  have pos: "(row_pos r > sint (after_value c)) =
      (case condAfter c of None \<Rightarrow> True | Some p \<Rightarrow> p < sePosition se)"
  proof (cases "condAfter c")
    case None
    then show ?thesis using assms(1) sint_after_value [OF assms(4)] by (simp add: row_ok_def)
  next
    case (Some p)
    have "uint (word_of_int (row_pos r) :: int64) = row_pos r"
      using row_ok_pos63 [OF assms(1,2)] by (simp add: uint_word_of_int)
    then show ?thesis
      using Some sint_after_value [OF assms(4)] ev(3)
      by (simp add: bigint_position_def less_SequencePosition_def word_less_def)
  qed
  have "row_pos r \<le> hwm" using assms(1) by (simp add: row_ok_def)
  then show ?thesis
    unfolding row_hits_def split_tags_Join [OF assms(3)] pos tt
    using ev(3) by (auto simp: item_matches_def stored_event_def less_eq_fset.rep_eq)
qed

definition condition_hit :: "int \<Rightarrow> row list \<Rightarrow> int32 \<times> string \<times> string \<times> int64 \<Rightarrow> bool" where
  "condition_hit hwm rows cr =
     (case cr of (cmd_idx, ctype, ctags_str, after_pos) \<Rightarrow>
        list_ex (row_hits hwm ctype ctags_str after_pos) rows)"

lemma condition_rows_hit:
  assumes rows: "\<forall>r \<in> set rows. row_ok hwm r" and hwm: "hwm \<le> bigint_max"
    and scoped: "condition_scoped c"
    and clean: "\<forall>item \<in> set (query_items (FailIfEventsMatch c)). clean_tags (itemTags item)"
    and fits: "\<forall>p. condAfter c = Some p \<longrightarrow> pos_value p < 2 ^ 63"
  shows "(\<exists>cr \<in> set (condition_rows i c). condition_hit hwm rows cr)
    \<longleftrightarrow> (\<exists>se \<in> set (concat (map decoded rows)). condition_violated_by c se)"
proof -
  let ?items = "query_items (FailIfEventsMatch c)"
  let ?tags = "\<lambda>item. Join (Values (itemTags item)) [tagDelimiter]"
  have row: "(\<exists>item \<in> set ?items. \<exists>t \<in> set (itemTypes item). row_hits hwm t (?tags item) (after_value c) r)
      \<longleftrightarrow> (\<exists>se \<in> set (decoded r). condition_violated_by c se)" if r: "r \<in> set rows" for r
  proof -
    obtain se where se: "decoded r = [se]" using decoded_row_ok [OF bspec [OF rows r] hwm] by metis
    have "(\<exists>t \<in> set (itemTypes item). row_hits hwm t (?tags item) (after_value c) r)
        \<longleftrightarrow> item_matches item (seEvent se) \<and> (case condAfter c of None \<Rightarrow> True | Some p \<Rightarrow> p < sePosition se)"
      if "item \<in> set ?items" for item
      using row_hits_item [OF bspec [OF rows r] hwm bspec [OF clean that] fits se] .
    then show ?thesis
      using scoped se by (auto simp: condition_violated_by_def query_matches_def condition_scoped_def)
  qed
  have "(\<exists>cr \<in> set (condition_rows i c). condition_hit hwm rows cr)
      \<longleftrightarrow> (\<exists>r \<in> set rows. \<exists>item \<in> set ?items. \<exists>t \<in> set (itemTypes item).
            row_hits hwm t (?tags item) (after_value c) r)"
    by (auto simp: condition_rows_def condition_hit_def Items_def list_ex_iff)
  also have "\<dots> \<longleftrightarrow> (\<exists>r \<in> set rows. \<exists>se \<in> set (decoded r). condition_violated_by c se)"
    using row by blast
  finally show ?thesis by simp
qed

definition first_index :: "(int32 \<times> 'a) list \<Rightarrow> int32 option" where
  "first_index crs = (case crs of [] \<Rightarrow> None | cr # _ \<Rightarrow> Some (fst cr))"

lemma command_rows_hits:
  assumes rows: "\<forall>r \<in> set rows. row_ok hwm r" and hwm: "hwm \<le> bigint_max"
    and "conditions_scoped cmds" and "clean_conditions cmds" and "after_fits cmds"
  shows "first_index (filter (condition_hit hwm rows) (command_rows i cmds)) =
    map_option (\<lambda>jc. of_nat (fst jc)) (first_violated i (concat (map decoded rows)) cmds)"
  using assms(3-5)
proof (induction cmds arbitrary: i)
  case (Cons cmd cmds)
  have IH: "first_index (filter (condition_hit hwm rows) (command_rows (Suc i) cmds)) =
      map_option (\<lambda>jc. of_nat (fst jc)) (first_violated (Suc i) (concat (map decoded rows)) cmds)"
    by (rule Cons.IH) (use Cons.prems in \<open>auto simp: clean_conditions_def after_fits_def\<close>)
  show ?case
  proof (cases "cmdCondition cmd")
    case None
    then show ?thesis using IH by simp
  next
    case (Some c)
    have iff: "(\<exists>cr \<in> set (condition_rows i c). condition_hit hwm rows cr)
        \<longleftrightarrow> (\<exists>se \<in> set (concat (map decoded rows)). condition_violated_by c se)"
      by (rule condition_rows_hit [OF rows hwm])
        (use Some Cons.prems in \<open>auto simp: clean_conditions_def after_fits_def\<close>)
    have idx: "\<forall>cr \<in> set (condition_rows i c). fst cr = of_nat i"
      by (auto simp: condition_rows_def)
    show ?thesis
    proof (cases "filter (condition_hit hwm rows) (condition_rows i c)")
      case Nil
      then have "\<not> (\<exists>se \<in> set (concat (map decoded rows)). condition_violated_by c se)"
        using iff by (auto simp: filter_empty_conv)
      then show ?thesis using Some Nil IH by auto
    next
      case (Cons cr crs)
      then have "cr \<in> set (filter (condition_hit hwm rows) (condition_rows i c))" by simp
      then have "cr \<in> set (condition_rows i c)" "condition_hit hwm rows cr" by simp_all
      then show ?thesis using Some Cons iff idx by (auto simp: first_index_def)
    qed
  qed
qed (simp add: first_index_def)

lemma sint_of_nat32: "k < 2 ^ 31 \<Longrightarrow> sint (of_nat k :: int32) = int k"
  by (simp add: sint_uint uint_nat unat_of_nat signed_take_bit_int_eq_self)

lemma command_rows_index:
  "cr \<in> set (command_rows i cmds) \<Longrightarrow> \<exists>k. fst cr = of_nat k \<and> i \<le> k \<and> k < i + length cmds"
  by (induction cmds arbitrary: i) (fastforce simp: condition_rows_def split: option.splits)+

lemma command_rows_sorted:
  "i + length cmds \<le> 2 ^ 31 \<Longrightarrow> sorted (map (\<lambda>cr. sint (fst cr)) (command_rows i cmds))"
proof (induction cmds arbitrary: i)
  case (Cons cmd cmds)
  have here: "sint (fst cr) = int i" if "cr \<in> set (condition_rows i c)" for cr c
    using that Cons.prems by (auto simp: condition_rows_def sint_of_nat32)
  have "map (\<lambda>cr. sint (fst cr)) (condition_rows i c) = replicate (length (condition_rows i c)) (int i)" for c
    by (rule replicate_eqI) (simp, use here in \<open>auto simp del: split_paired_All\<close>)
  then have "sorted (map (\<lambda>cr. sint (fst cr)) (condition_rows i c))" for c
    by simp
  moreover have "int i \<le> sint (fst cr)" if "cr \<in> set (command_rows (Suc i) cmds)" for cr
    using command_rows_index [OF that] Cons.prems by (auto simp: sint_of_nat32)
  moreover have "sorted (map (\<lambda>cr. sint (fst cr)) (command_rows (Suc i) cmds))"
    using Cons by simp
  ultimately show ?case using here
    by (cases "cmdCondition cmd") (simp_all add: sorted_append image_iff, blast?)
qed simp

lemma check_conditions_columns:
  assumes "i + length cmds \<le> 2 ^ 31"
  shows "check_conditions (columns (command_rows i cmds)) hwm rows =
    first_index (filter (condition_hit hwm rows) (command_rows i cmds))"
proof -
  have zip: "unnest_conditions (columns crs) = crs" for crs
    by (simp add: unnest_conditions_def columns_def zip_map_map) (induction crs, auto)
  have hit: "(\<lambda>(cmd_idx, ctype, ctags_str, after_pos). list_ex (row_hits hwm ctype ctags_str after_pos) rows)
      = condition_hit hwm rows"
    by (auto simp: condition_hit_def)
  let ?hits = "filter (condition_hit hwm rows) (command_rows i cmds)"
  have "sorted (map (\<lambda>cr. sint (fst cr)) ?hits)"
    using command_rows_sorted [OF assms] by (rule sorted_filter)
  then have "sort_key sint (map fst ?hits) = map fst ?hits"
    by (intro sort_key_id_if_sorted) (simp add: comp_def)
  then show ?thesis
    unfolding check_conditions_def zip hit by (simp add: first_index_def split: list.split)
qed

lemma append_check_columns:
  "append_check (columns crs) hwm rows = map_option raise_violated (check_conditions (columns crs) hwm rows)"
proof (cases crs)
  case Nil
  then show ?thesis by (simp add: append_check_def columns_def check_conditions_def unnest_conditions_def)
next
  case (Cons cr rest)
  then show ?thesis
    by (cases cr; cases rest)
      (simp_all add: append_check_def columns_def check_conditions_def unnest_conditions_def split: option.splits)
qed

text \<open>Together: both paths find exactly the first violated command, and report it.\<close>

lemma check_finds_first:
  assumes "db_ok db" and "conditions_scoped cmds" and "clean_conditions cmds" and "after_fits cmds"
    and "length cmds < 2 ^ 31"
  shows "check_conditions (columns (command_rows 0 cmds)) (seq_hwm (db_seq db)) (db_rows db) =
    map_option (\<lambda>jc. of_nat (fst jc)) (first_violated 0 (db_log db) cmds)"
proof -
  have "check_conditions (columns (command_rows 0 cmds)) (seq_hwm (db_seq db)) (db_rows db) =
      first_index (filter (condition_hit (seq_hwm (db_seq db)) (db_rows db)) (command_rows 0 cmds))"
    using assms(5) by (intro check_conditions_columns) simp
  also have "\<dots> = map_option (\<lambda>jc. of_nat (fst jc)) (first_violated 0 (db_log db) cmds)"
    unfolding db_log_def using assms by (intro command_rows_hits) (simp_all add: db_ok_def)
  finally show ?thesis .
qed

lemma parse_raise_violated:
  assumes "j < 2 ^ 31"
  shows "parseConditionViolation (raise_violated (of_nat j)) = Some (of_nat j)"
proof -
  have "format_int (int j) = FormatUint (of_nat j :: uint64)"
    using assms by (simp add: format_int_def FormatUint_def unat_of_nat)
  moreover have "\<not> 2 ^ 63 \<le> (of_nat j :: uint64)"
    using assms by (simp add: word_le_nat_alt unat_of_nat)
  ultimately show ?thesis
    using assms
    by (simp add: parseConditionViolation_def raise_violated_def sint_of_nat32 Atoi_def ParseInt_FormatUint)
qed

lemma sint_of_nat64: "k < 2 ^ 31 \<Longrightarrow> sint (of_nat k :: int64) = int k"
  by (simp add: sint_uint uint_nat unat_of_nat signed_take_bit_int_eq_self)

lemma conditionError_first:
  assumes "first_violated 0 lg cmds = Some (j, c)" and "length cmds < 2 ^ 31"
  shows "conditionError cmds (of_nat j) = Err (violation_error cmds j c)"
proof -
  have j: "j < length cmds" "cmdCondition (cmds ! j) = Some c"
    using first_violated_Some [OF assms(1)] by simp_all
  moreover have "unat (of_nat j :: int64) = j" using j assms(2) by (simp add: unat_of_nat)
  ultimately show ?thesis
    using assms(2) by (simp add: conditionError_def Let_def sint_of_nat64 violation_error_def)
qed

section \<open>Inserting\<close>

fun numbered_rows :: "int \<Rightarrow> Event list \<Rightarrow> row list" where
  "numbered_rows p [] = []"
| "numbered_rows p (ev # evs) = copy_row (p + 1) ev # numbered_rows (p + 1) evs"

definition row_values :: "Event \<Rightarrow> string \<times> string list \<times> string" where
  "row_values ev = (evType ev, Values (evTags ev), serializePayload ev)"

lemma insert_rows_eq:
  assumes "seq_hwm sq + int (length evs) \<le> bigint_max"
  shows "insert_rows (map row_values evs) sq acc =
    (Ok (acc @ numbered_rows (seq_hwm sq) evs),
     if evs = [] then sq else Some (seq_hwm sq + int (length evs)))"
  using assms
proof (induction evs arbitrary: sq acc)
  case (Cons ev evs)
  have "nextval sq = Ok (seq_hwm sq + 1)" using Cons.prems by (simp add: nextval_def)
  moreover have "seq_hwm (Some (seq_hwm sq + 1)) = seq_hwm sq + 1" by (simp add: seq_hwm_def)
  ultimately show ?case
    using Cons.IH [of "Some (seq_hwm sq + 1)"] Cons.prems
    by (simp add: row_values_def copy_row_def)
qed simp

definition exhausted :: error where
  "exhausted = PgError ''nextval: reached maximum value of sequence''"

lemma insert_rows_exhausted:
  assumes "bigint_max < seq_hwm sq + int (length evs)" and "seq_hwm sq \<le> bigint_max"
  shows "insert_rows (map row_values evs) sq acc = (Err exhausted, Some bigint_max)"
  using assms
proof (induction evs arbitrary: sq acc)
  case (Cons ev evs)
  show ?case
  proof (cases "seq_hwm sq = bigint_max")
    case True
    then have "sq = Some bigint_max" by (auto simp: seq_hwm_def bigint_max_def split: option.splits)
    with True show ?thesis by (simp add: row_values_def nextval_def exhausted_def)
  next
    case False
    moreover have "seq_hwm (Some (seq_hwm sq + 1)) = seq_hwm sq + 1" by (simp add: seq_hwm_def)
    ultimately show ?thesis
      using Cons.IH [of "Some (seq_hwm sq + 1)"] Cons.prems by (simp add: row_values_def nextval_def)
  qed
qed simp

lemma insert_rows_draw: "snd (insert_rows vals sq acc) = draw (length vals) sq"
  by (induction vals sq acc rule: insert_rows.induct) (auto split: outcome.split)

lemma draw_hwm: "seq_hwm (draw n sq) = max (seq_hwm sq) (min (seq_hwm sq + int n) bigint_max)"
proof (induction n sq rule: draw.induct)
  case (2 n sq)
  then show ?case by (auto simp: nextval_def seq_hwm_def [of "Some _"])
qed simp

lemma length_numbered_rows [simp]: "length (numbered_rows p evs) = length evs"
  by (induction evs arbitrary: p) auto

lemma numbered_rows_Nil_iff [simp]: "numbered_rows p evs = [] \<longleftrightarrow> evs = []"
  by (cases evs) auto

lemma last_numbered_rows: "evs \<noteq> [] \<Longrightarrow> row_pos (last (numbered_rows p evs)) = p + int (length evs)"
  by (induction evs arbitrary: p) (auto simp: copy_row_def)

lemma numbered_rows_pos: "r \<in> set (numbered_rows p evs) \<Longrightarrow> p < row_pos r \<and> row_pos r \<le> p + int (length evs)"
  by (induction evs arbitrary: p) (fastforce simp: copy_row_def)+

lemma numbered_rows_ok:
  assumes "\<forall>ev \<in> set evs. storable_event ev" and "0 \<le> p"
  shows "\<forall>r \<in> set (numbered_rows p evs). row_ok (p + int (length evs)) r"
proof -
  have "\<exists>ev. storable_event ev \<and> r = copy_row (row_pos r) ev" if "r \<in> set (numbered_rows p evs)" for r
    using assms(1) that by (induction evs arbitrary: p) (auto simp: copy_row_def)
  then show ?thesis using numbered_rows_pos [of _ p evs] assms(2) by (fastforce simp: row_ok_def)
qed

lemma numbered_rows_ascend: "sorted_wrt (<) (map row_pos (numbered_rows p evs))"
  by (induction evs arbitrary: p) (auto simp: copy_row_def dest: numbered_rows_pos)

lemma row_values_function:
  assumes "\<forall>ev \<in> set evs. storable_event ev"
  shows "zip (map evType evs) (zip (map (\<lambda>t. string_to_array t tagDelimiter)
      (map (\<lambda>ev. Join (Values (evTags ev)) [tagDelimiter]) evs)) (map serializePayload evs))
    = map row_values evs"
  using assms by (induction evs) (auto simp: row_values_def storable_event_def row_tags_split)

definition pg_appended :: "PgStore \<Rightarrow> PgDb \<Rightarrow> AppendCommand list \<Rightarrow> PgDb" where
  "pg_appended s db cmds =
     (let pos = seq_hwm (db_seq db) + int (length (command_events cmds))
      in \<lparr>db_rows = db_rows db @ numbered_rows (seq_hwm (db_seq db)) (command_events cmds),
          db_seq = Some pos,
          db_notified = db_notified db @ [(notifyChannel s, format_int pos)]\<rparr>)"

lemma fst_collect_keys: "fst (collect_keys cmds (n, L, I)) = n + int (length (command_events cmds))"
  by (induction cmds arbitrary: n L I) (auto simp: Let_def)

section \<open>What the two paths do\<close>

text \<open>An error of the server or the driver, unless it reads as a violation.\<close>

definition reported :: "AppendCommand list \<Rightarrow> error \<Rightarrow> (error, SequencePosition) outcome" where
  "reported cmds e =
     (case parseConditionViolation e of Some idx \<Rightarrow> conditionError cmds idx | None \<Rightarrow> Err e)"

text \<open>
  The append in terms of the log. The stored procedure, once its locks are granted, reports the
  first violated condition, or appends all events, or runs into the end of the sequence.
\<close>

definition procedure_run :: "PgStore \<Rightarrow> error option \<Rightarrow> PgDb \<Rightarrow> AppendCommand list \<Rightarrow> (error, SequencePosition) outcome \<times> PgDb" where
  "procedure_run s refused db cmds =
     (let n = length (command_events cmds)
      in case refused of
           Some e \<Rightarrow> (reported cmds e, db)
         | None \<Rightarrow>
             (case first_violated 0 (db_log db) cmds of
                Some (i, c) \<Rightarrow> (Err (violation_error cmds i c), db)
              | None \<Rightarrow>
                  if pg_room db n
                  then (Ok (bigint_position (seq_hwm (db_seq db) + int n)), pg_appended s db cmds)
                  else (Err exhausted, db\<lparr>db_seq := Some bigint_max\<rparr>)))"

definition function_outcome :: "PgStore \<Rightarrow> pg_env \<Rightarrow> PgDb \<Rightarrow> AppendCommand list \<Rightarrow> (error, SequencePosition) outcome \<times> PgDb" where
  "function_outcome s env db cmds =
     (let keys = append_keys cmds;
          refused = env_locks env (append_requests (leafX keys) (intentS keys));
          run = procedure_run s refused db cmds
      in if \<not> after_fits cmds then (Panic ''postgres: impossible non-numeric position'', db)
         else case env_call env of
                Delivered \<Rightarrow> run
              | Lost e True \<Rightarrow> (reported cmds e, snd run)
              | Lost e False \<Rightarrow> (reported cmds e, rolled_back env db (snd run)))"

definition first_error :: "error option list \<Rightarrow> error option" where
  "first_error es = (case filter (\<lambda>e. e \<noteq> None) es of [] \<Rightarrow> None | e # _ \<Rightarrow> e)"

definition copy_outcome :: "PgStore \<Rightarrow> pg_env \<Rightarrow> PgDb \<Rightarrow> AppendCommand list \<Rightarrow> (error, SequencePosition) outcome \<times> PgDb" where
  "copy_outcome s env db cmds =
     (let keys = append_keys cmds;
          refused = env_locks env (writer_requests (leafX keys) (intentS keys));
          n = length (command_events cmds);
          last_pos = seq_hwm (db_seq db) + int n;
          numbered = db\<lparr>db_seq := Some last_pos\<rparr>
      in case first_error [env_fails env BeginTx, refused, env_fails env ReadHwm] of
           Some e \<Rightarrow> (Err e, db)
         | None \<Rightarrow>
           if \<not> after_fits cmds then (Panic ''postgres: impossible non-numeric position'', db)
           else if command_rows 0 cmds \<noteq> [] \<and> env_fails env CheckConditions \<noteq> None
           then (Err (the (env_fails env CheckConditions)), db)
           else (case first_violated 0 (db_log db) cmds of
             Some (i, c) \<Rightarrow> (Err (violation_error cmds i c), db)
           | None \<Rightarrow>
             (case env_fails env CopyFrom of
                Some e \<Rightarrow> (Err e, db\<lparr>db_seq := draw (min (env_drawn env) n) (db_seq db)\<rparr>)
              | None \<Rightarrow>
                if copy_table s \<noteq> created_table s then (Err (PgError ''relation does not exist''), db)
                else if \<not> pg_room db n then (Err exhausted, db\<lparr>db_seq := Some bigint_max\<rparr>)
                else (case first_error [env_fails env Currval, env_fails env Notify] of
                  Some e \<Rightarrow> (Err e, numbered)
                | None \<Rightarrow>
                  (case env_commit env of
                     Delivered \<Rightarrow> (Ok (bigint_position last_pos), pg_appended s db cmds)
                   | Lost e executed \<Rightarrow> (Err e, if executed then pg_appended s db cmds else numbered))))))"

lemma first_error_simps [simp]:
  "first_error [] = None" "first_error (None # es) = first_error es" "first_error (Some e # es) = Some e"
  by (simp_all add: first_error_def)

lemma events_append_run:
  assumes "db_ok db" and "conditions_scoped cmds" and "clean_conditions cmds" and "after_fits cmds"
    and "length cmds < 2 ^ 31" and "\<forall>ev \<in> set (command_events cmds). storable_event ev"
    and "command_events cmds \<noteq> []"
  shows "events_append s acquire leaf intent (serializeEvents cmds) (columns (command_rows 0 cmds)) db =
    (case acquire (append_requests leaf intent) of
       Some e \<Rightarrow> (Err e, db)
     | None \<Rightarrow>
         (case first_violated 0 (db_log db) cmds of
            Some (i, c) \<Rightarrow> (Err (raise_violated (of_nat i)), db)
          | None \<Rightarrow>
              if pg_room db (length (command_events cmds))
              then (Ok (seq_hwm (db_seq db) + int (length (command_events cmds))), pg_appended s db cmds)
              else (Err exhausted, db\<lparr>db_seq := Some bigint_max\<rparr>)))"
proof -
  let ?p = "seq_hwm (db_seq db)" and ?evs = "command_events cmds"
  have "append_check (columns (command_rows 0 cmds)) ?p (db_rows db) =
      map_option (\<lambda>jc. raise_violated (of_nat (fst jc))) (first_violated 0 (db_log db) cmds)"
    using check_finds_first [OF assms(1-5)] by (simp add: append_check_columns option.map_comp comp_def)
  moreover have "insert_rows (map row_values ?evs) (db_seq db) [] =
      (if pg_room db (length ?evs) then (Ok (numbered_rows ?p ?evs), Some (?p + int (length ?evs)))
       else (Err exhausted, Some bigint_max))"
    using insert_rows_eq [of "db_seq db" ?evs "[]"] insert_rows_exhausted [of "db_seq db" ?evs "[]"] assms(1,7)
    by (simp add: pg_room_def db_ok_def)
  ultimately show ?thesis
    using assms(7) row_values_function [OF assms(6)]
    by (simp add: events_append_def serializeEvents_eq last_numbered_rows pg_appended_def Let_def
        split: option.split)
qed

lemma bigint_position_room:
  assumes "db_ok db" and "pg_room db n"
  shows "int64ToPosition (word_of_int (seq_hwm (db_seq db) + int n)) = Ok (bigint_position (seq_hwm (db_seq db) + int n))"
  using assms by (intro int64ToPosition_bigint) (simp_all add: pg_room_def db_ok_def bigint_max_def)

lemma parse_exhausted [simp]: "parseConditionViolation exhausted = None"
  by (simp add: parseConditionViolation_def exhausted_def HasPrefix_def violated_prefix_def)

lemma reported_violation:
  assumes "first_violated 0 lg cmds = Some (j, c)" and "length cmds < 2 ^ 31"
  shows "reported cmds (raise_violated (of_nat j)) = Err (violation_error cmds j c)"
  using parse_raise_violated [of j] conditionError_first [OF assms] first_violated_Some [OF assms(1)] assms(2)
  by (simp add: reported_def)

lemma appendViaFunction_eq:
  assumes "db_ok db" and "conditions_scoped cmds" and "clean_conditions cmds" and "length cmds < 2 ^ 31"
    and "\<forall>ev \<in> set (command_events cmds). storable_event ev" and "command_events cmds \<noteq> []"
  shows "appendViaFunction s env db cmds (append_keys cmds) = function_outcome s env db cmds"
proof (cases "after_fits cmds")
  case True
  note run = events_append_run [OF assms(1-3) True assms(4-6)]
  note rep = reported_def [symmetric]
  let ?n = "length (command_events cmds)"
  have ok: "pg_room db ?n \<Longrightarrow> int64ToPosition (word_of_int (seq_hwm (db_seq db) + int ?n))
      = Ok (bigint_position (seq_hwm (db_seq db) + int ?n))"
    using bigint_position_room [OF assms(1)] .
  show ?thesis
    using True serializeConditions_eq [OF True] reported_violation [OF _ assms(4)] ok
    by (auto simp: appendViaFunction_def function_outcome_def procedure_run_def run rep Let_def
        split: option.split net.split bool.split)
next
  case False
  then show ?thesis by (simp add: appendViaFunction_def function_outcome_def serializeConditions_panics Let_def)
qed

lemma checkConditions_eq:
  assumes "db_ok db" and "conditions_scoped cmds" and "clean_conditions cmds" and "after_fits cmds"
    and "length cmds < 2 ^ 31"
  shows "checkConditions fails cmds (seq_hwm (db_seq db)) db =
    (if command_rows 0 cmds \<noteq> [] \<and> fails \<noteq> None then Err (the fails)
     else Ok (map_option (\<lambda>jc. of_nat (fst jc)) (first_violated 0 (db_log db) cmds)))"
proof -
  have idx: "(word_of_int (sint (of_nat j :: int32)) :: int64) = of_nat j"
    if "first_violated 0 (db_log db) cmds = Some (j, c)" for j c
    using first_violated_Some [OF that] assms(5) sint_of_nat32 [of j] by simp
  have "first_violated 0 (db_log db) cmds = None" if "command_rows 0 cmds = []"
    using check_finds_first [OF assms] that by (simp add: columns_def check_conditions_def unnest_conditions_def)
  then show ?thesis
    using check_finds_first [OF assms] serializeConditions_eq [OF assms(4)] idx
    by (auto simp: checkConditions_def columns_def option.map_comp comp_def split: option.split
        intro!: option.map_cong0)
qed

lemma copy_insert_eq:
  assumes "db_ok db" and "evs \<noteq> []"
  shows "copy_insert s env evs db =
    (case env_fails env CopyFrom of
       Some e \<Rightarrow> (Err e, draw (min (env_drawn env) (length evs)) (db_seq db))
     | None \<Rightarrow>
         if copy_table s \<noteq> created_table s then (Err (PgError ''relation does not exist''), db_seq db)
         else if pg_room db (length evs)
         then (Ok (numbered_rows (seq_hwm (db_seq db)) evs), Some (seq_hwm (db_seq db) + int (length evs)))
         else (Err exhausted, Some bigint_max))"
  using assms insert_rows_eq [of "db_seq db" evs "[]"] insert_rows_exhausted [of "db_seq db" evs "[]"]
  by (auto simp: copy_insert_def Let_def row_values_def [abs_def] insert_rows_draw min.commute pg_room_def db_ok_def
      split: option.split)

lemma appendViaCopy_eq:
  assumes "db_ok db" and "conditions_scoped cmds" and "clean_conditions cmds" and "length cmds < 2 ^ 31"
    and "command_events cmds \<noteq> []"
  shows "appendViaCopy s env db cmds (append_keys cmds) = copy_outcome s env db cmds"
proof (cases "after_fits cmds")
  case True
  let ?q = "seq_hwm (db_seq db) + int (length (command_events cmds))"
  have ok: "int64ToPosition (word_of_int ?q) = Ok (bigint_position ?q)" "FormatInt (word_of_int ?q) = format_int ?q"
    if "pg_room db (length (command_events cmds))"
    using that bigint_position_room [OF assms(1) that] assms(1) sint_word_of_int64 [of ?q]
    by (simp_all add: FormatInt_def pg_room_def db_ok_def bigint_max_def)
  show ?thesis
    using True checkConditions_eq [OF assms(1-3) True assms(4)] copy_insert_eq [OF assms(1,5)]
      conditionError_first [OF _ assms(4)] ok
    by (auto simp: appendViaCopy_def copy_outcome_def pg_appended_def seq_hwm_def [of "Some _"] Let_def
        split: option.split net.split)
next
  case False
  then show ?thesis
    by (auto simp: appendViaCopy_def copy_outcome_def checkConditions_def serializeConditions_panics Let_def
        split: option.split)
qed

lemma pg_Append_outcome:
  assumes "db_ok db" and "clean_conditions cmds" and "length cmds < 2 ^ 31"
    and "\<forall>ev \<in> set (command_events cmds). storable_event ev"
  shows "pg_Append s env db cmds =
    (case validate_commands cmds of
       Some e \<Rightarrow> (Err e, db)
     | None \<Rightarrow>
         if command_events cmds = [] then (Err ZeroEvents, db)
         else if int (length (command_events cmds)) \<le> copyThreshold s then function_outcome s env db cmds
         else copy_outcome s env db cmds)"
proof -
  have "appendViaFunction s env db cmds (append_keys cmds) = function_outcome s env db cmds"
    "appendViaCopy s env db cmds (append_keys cmds) = copy_outcome s env db cmds"
    if "validate_commands cmds = None" "command_events cmds \<noteq> []"
    using that appendViaFunction_eq [OF assms(1) _ assms(2-4)] appendViaCopy_eq [OF assms(1) _ assms(2-3)]
    by (simp_all add: validate_commands_None_iff)
  then show ?thesis
    using fst_collect_keys [of cmds 0 "{||}" "{||}"] by (simp add: pg_Append_def Let_def split: option.split)
qed

text \<open>On a server that answers, with room in the sequence, the two paths do the same.\<close>

lemma pg_Append_eq:
  assumes "db_ok db" and "pg_storable s cmds"
    and "first_violated 0 (db_log db) cmds = None \<longrightarrow> pg_room db (length (command_events cmds))"
  shows "pg_Append s healthy db cmds =
    (case validate_commands cmds of
       Some e \<Rightarrow> (Err e, db)
     | None \<Rightarrow>
         if command_events cmds = [] then (Err ZeroEvents, db)
         else case first_violated 0 (db_log db) cmds of
                Some (i, c) \<Rightarrow> (Err (violation_error cmds i c), db)
              | None \<Rightarrow>
                  (Ok (bigint_position (seq_hwm (db_seq db) + int (length (command_events cmds)))),
                   pg_appended s db cmds))"
proof -
  have p: "clean_conditions cmds" "length cmds < 2 ^ 31" "\<forall>ev \<in> set (command_events cmds). storable_event ev"
      "after_fits cmds" "copy_table s = created_table s"
    using assms(2) by (simp_all add: pg_storable_def)
  show ?thesis
    using p(4,5) assms(3) pg_Append_outcome [OF assms(1) p(1-3), of s healthy]
    by (simp add: function_outcome_def copy_outcome_def procedure_run_def healthy_def Let_def split: option.split)
qed

section \<open>The store keeps the contract\<close>

lemma pg_appended_ok:
  assumes "db_ok db" and "\<forall>ev \<in> set (command_events cmds). storable_event ev"
    and "pg_room db (length (command_events cmds))"
  shows "db_ok (pg_appended s db cmds)"
proof -
  let ?p = "seq_hwm (db_seq db)" and ?evs = "command_events cmds"
  have "\<forall>r \<in> set (numbered_rows ?p ?evs). row_ok (?p + int (length ?evs)) r"
    using assms by (intro numbered_rows_ok) (simp_all add: db_ok_def)
  moreover have "\<forall>r \<in> set (db_rows db). row_ok (?p + int (length ?evs)) r \<and> row_pos r \<le> ?p"
    using assms(1) by (fastforce simp: db_ok_def row_ok_def)
  moreover have "\<forall>r \<in> set (numbered_rows ?p ?evs). ?p < row_pos r"
    using numbered_rows_pos by blast
  ultimately show ?thesis
    using assms(1,3) numbered_rows_ascend [of ?p ?evs]
    by (fastforce simp: db_ok_def pg_appended_def Let_def sorted_wrt_append seq_hwm_def pg_room_def)
qed

lemma decoded_numbered_rows:
  assumes "\<forall>ev \<in> set evs. storable_event ev" and "0 \<le> p" and "p + int (length evs) \<le> bigint_max"
  shows "map seEvent (concat (map decoded (numbered_rows p evs))) = map stored_event evs"
  using assms
proof (induction evs arbitrary: p)
  case (Cons ev evs)
  have "decoded (copy_row (p + 1) ev) =
      [\<lparr>seEvent = stored_event ev, sePosition = bigint_position (p + 1)\<rparr>]"
    using Cons.prems copy_row_decodes [of ev "p + 1"] by (simp add: decoded_def bigint_max_def)
  then show ?case using Cons by simp
qed simp

lemma db_log_appended:
  "db_log (pg_appended s db cmds) =
     db_log db @ concat (map decoded (numbered_rows (seq_hwm (db_seq db)) (command_events cmds)))"
  by (simp add: db_log_def pg_appended_def Let_def)

lemma last_decoded_numbered_rows:
  assumes "\<forall>ev \<in> set evs. storable_event ev" and "0 \<le> p" and "p + int (length evs) \<le> bigint_max" and "evs \<noteq> []"
  shows "sePosition (last (concat (map decoded (numbered_rows p evs)))) = bigint_position (p + int (length evs))"
proof -
  let ?rows = "numbered_rows p evs"
  have "map sePosition (concat (map decoded ?rows)) = map (bigint_position \<circ> row_pos) ?rows"
    using db_log_ascends [OF numbered_rows_ok [OF assms(1,2)] assms(3) numbered_rows_ascend] by blast
  then have "last (map sePosition (concat (map decoded ?rows))) = bigint_position (row_pos (last ?rows))"
    using assms(4) by (simp add: last_map)
  moreover have "concat (map decoded ?rows) \<noteq> []"
    using decoded_numbered_rows [OF assms(1-3)] assms(4) by fastforce
  ultimately show ?thesis using assms(4) by (simp add: last_map last_numbered_rows)
qed

interpretation pg: append_store "pg_Append s healthy" db_log db_ok pg_room "pg_storable s" stored_event
  for s :: PgStore
proof unfold_locales
  fix db cmds
  assume ok: "db_ok db" and st: "pg_storable s cmds" and room: "pg_room db (length (command_events cmds))"
    and sc: "conditions_scoped cmds" and ne: "command_events cmds \<noteq> []"
    and nv: "\<forall>cmd \<in> set cmds. \<not> command_violated (db_log db) cmd"
  let ?new = "concat (map decoded (numbered_rows (seq_hwm (db_seq db)) (command_events cmds)))"
  have evs: "\<forall>ev \<in> set (command_events cmds). storable_event ev" using st by (simp add: pg_storable_def)
  have b: "0 \<le> seq_hwm (db_seq db)" using ok by (simp add: db_ok_def)
  note room' = room [unfolded pg_room_def]
  have "pg_Append s healthy db cmds = (Ok (sePosition (last ?new)), pg_appended s db cmds)"
    using nv sc ne room last_decoded_numbered_rows [OF evs b room' ne] pg_Append_eq [OF ok st]
    by (simp add: validate_commands_None_iff [symmetric] first_violated_None_iff [symmetric, of _ _ 0])
  moreover have "\<forall>n. pg_room db (length (command_events cmds) + n) \<longrightarrow> pg_room (pg_appended s db cmds) n"
    by (simp add: pg_room_def pg_appended_def Let_def seq_hwm_def)
  ultimately show "\<exists>s' new. pg_Append s healthy db cmds = (Ok (sePosition (last new)), s')
      \<and> db_log s' = db_log db @ new \<and> map seEvent new = map stored_event (command_events cmds) \<and> db_ok s'
      \<and> (\<forall>n. pg_room db (length (command_events cmds) + n) \<longrightarrow> pg_room s' n)"
    using db_log_appended decoded_numbered_rows [OF evs b room'] pg_appended_ok [OF ok evs room] by blast
next
  fix db cmds i c
  assume "db_ok db" "pg_storable s cmds" "conditions_scoped cmds" "command_events cmds \<noteq> []"
    "first_violated 0 (db_log db) cmds = Some (i, c)"
  then show "pg_Append s healthy db cmds = (Err (violation_error cmds i c), db)"
    by (simp add: pg_Append_eq validate_commands_None_iff [symmetric])
next
  fix db cmds
  assume "db_ok db" "pg_storable s cmds" "\<not> conditions_scoped cmds \<or> command_events cmds = []"
  then show "\<exists>e. pg_Append s healthy db cmds = (Err e, db)"
    using fst_collect_keys [of cmds 0 "{||}" "{||}"]
    by (auto simp: pg_Append_def Let_def validate_commands_None_iff [symmetric] split: option.splits)
next
  fix db
  assume "db_ok db"
  then show "positions_ascend (db_log db)"
    using db_log_ascends [of "db_rows db" "seq_hwm (db_seq db)"] by (simp add: db_ok_def db_log_def)
qed (auto simp: pg_room_def stored_event_def)

section \<open>Properties of the PostgreSQL append\<close>

lemma db_ok_seq:
  assumes "db_ok db" and "seq_hwm (db_seq db) \<le> seq_hwm sq" and "seq_hwm sq \<le> bigint_max"
  shows "db_ok (db\<lparr>db_seq := sq\<rparr>)"
  using assms by (fastforce simp: db_ok_def row_ok_def)

lemma outcomes_ok:
  assumes ok: "db_ok db" and evs: "\<forall>ev \<in> set (command_events cmds). storable_event ev"
  shows "db_ok (snd (function_outcome s env db cmds))" and "db_ok (snd (copy_outcome s env db cmds))"
proof -
  have b: "seq_hwm (db_seq db) \<le> bigint_max" using ok by (simp add: db_ok_def)
  have drawn: "db_ok (db\<lparr>db_seq := draw n (db_seq db)\<rparr>)" for n
    using ok b by (intro db_ok_seq) (simp_all add: draw_hwm)
  have full: "db_ok (db\<lparr>db_seq := Some bigint_max\<rparr>)"
    using ok b by (intro db_ok_seq) (simp_all add: seq_hwm_def [of "Some _"])
  have added: "db_ok (pg_appended s db cmds)" if "pg_room db (length (command_events cmds))"
    using pg_appended_ok [OF ok evs that] .
  have run: "db_ok (snd (procedure_run s refused db cmds))" for refused
    using ok full added by (simp add: procedure_run_def Let_def split: option.split)
  have lost: "db_ok (rolled_back env db db')" for db' using drawn by (simp add: rolled_back_def)
  have numbered: "db_ok (db\<lparr>db_seq := Some (seq_hwm (db_seq db) + int (length (command_events cmds)))\<rparr>)"
    if "pg_room db (length (command_events cmds))"
    using ok that by (intro db_ok_seq) (simp_all add: seq_hwm_def [of "Some _"] pg_room_def)
  show "db_ok (snd (function_outcome s env db cmds))"
    using ok run lost by (simp add: function_outcome_def Let_def split: net.split bool.split)
  show "db_ok (snd (copy_outcome s env db cmds))"
    using ok drawn full added numbered by (simp add: copy_outcome_def Let_def split: option.split net.split)
qed

text \<open>
  C6: the whole behaviour of \<open>Append\<close> for storable events and conditions whose tags have no
  delimiter, whatever the server, the driver and the network do. Unscoped conditions are
  rejected first, then calls with no events. Up to the threshold the outcome is that of one
  procedure call: a panic when an \<open>After\<close> does not fit a \<open>bigint\<close>, the error of
  refused locks, the first condition that a stored event violates, the end of the sequence, or
  all events at consecutive positions with one notification; and when the round trip is lost,
  the driver's error over the database with or without that effect, an effect rolled back
  leaving only used-up positions. Above it the outcome is that of the COPY transaction: each
  statement's failure in turn, the check's only when there are conditions to check, the table
  that COPY does not find when its name was folded, the same panic, violation and end of the
  sequence, and a commit that may be lost. The database invariant is kept throughout. On a
  server that answers, with room and a name that is not folded, both paths amount to the same
  append.
\<close>

theorem pg_Append_behaviour:
  assumes "db_ok db" and "clean_conditions cmds" and "length cmds < 2 ^ 31"
    and "\<forall>ev \<in> set (command_events cmds). storable_event ev"
  shows "pg_Append s env db cmds =
      (case validate_commands cmds of
         Some e \<Rightarrow> (Err e, db)
       | None \<Rightarrow>
           if command_events cmds = [] then (Err ZeroEvents, db)
           else if int (length (command_events cmds)) \<le> copyThreshold s then function_outcome s env db cmds
           else copy_outcome s env db cmds)
    \<and> db_ok (snd (pg_Append s env db cmds))
    \<and> (after_fits cmds \<and> copy_table s = created_table s \<and> pg_room db (length (command_events cmds)) \<longrightarrow>
        pg_Append s healthy db cmds =
          (case validate_commands cmds of
             Some e \<Rightarrow> (Err e, db)
           | None \<Rightarrow>
               if command_events cmds = [] then (Err ZeroEvents, db)
               else case first_violated 0 (db_log db) cmds of
                      Some (i, c) \<Rightarrow> (Err (violation_error cmds i c), db)
                    | None \<Rightarrow>
                        (Ok (bigint_position (seq_hwm (db_seq db) + int (length (command_events cmds)))),
                         pg_appended s db cmds)))"
proof (intro conjI impI)
  note eq = pg_Append_outcome [OF assms]
  show "pg_Append s env db cmds =
      (case validate_commands cmds of
         Some e \<Rightarrow> (Err e, db)
       | None \<Rightarrow>
           if command_events cmds = [] then (Err ZeroEvents, db)
           else if int (length (command_events cmds)) \<le> copyThreshold s then function_outcome s env db cmds
           else copy_outcome s env db cmds)"
    by (rule eq)
  show "db_ok (snd (pg_Append s env db cmds))"
    unfolding eq using assms(1) outcomes_ok [OF assms(1,4)] by (simp split: option.split)
qed (use assms pg_Append_eq in \<open>simp add: pg_storable_def\<close>)

definition events_store :: PgStore where
  "events_store =
     \<lparr>tableName = ''events'', appendFunctionName = ''events_append'',
      checkFunctionName = ''events_check_conditions'', barrierFunctionName = ''events_barrier_hwm'',
      notifyChannel = ''events'', copyThreshold = defaultCopyThreshold\<rparr>"

definition empty_db :: PgDb where
  "empty_db = \<lparr>db_rows = [], db_seq = None, db_notified = []\<rparr>"

lemma pg_New_events_store: "pg_New \<lparr>TablePrefix = [], CopyThreshold = 0\<rparr> = Inr events_store"
  by (simp add: pg_New_def Let_def events_store_def validIdentifier_def decode_rune_def ident_start_def
      ident_part_def)

lemma empty_db_simps [simp]:
  "db_ok empty_db" "pg_room empty_db 1" "pg_room empty_db (Suc 0)" "pg_room empty_db 2" "db_log empty_db = []"
  "seq_hwm (db_seq empty_db) = 0"
  by (simp_all add: empty_db_def db_ok_def pg_room_def db_log_def seq_hwm_def bigint_max_def)

lemma events_store_names: "copy_table events_store = created_table events_store"
  by (simp add: copy_table_def created_table_def events_store_def sql_name_def quoted_name_def NAMEDATALEN_def
      unquoted_def to_lower_def)

lemma clean_single_tag: "clean_tags \<lparr>tag_values = {|''x''|}\<rparr>"
  by (simp add: clean_tags_def tags_ok_def isValidTagToken_def ContainsFunc_def decode_rune_def
      IsSpace_def tagDelimiter_def)

lemma scoped_command_storable:
  "pg_storable events_store
     [\<lparr>cmdEvents = [event_of ''A'' [''x'']], cmdCondition = Some (condition_of [''A''] [''x''] None)\<rparr>]"
  using clean_single_tag
  by (simp add: pg_storable_def clean_conditions_def after_fits_def events_store_names condition_of_def
      storable_event_def event_of_def raw_or_null_def json_value_null clean_tags_def)

theorem pg_Append_behaviour_witness:
  "let cmds = [\<lparr>cmdEvents = [event_of ''A'' [''x'']], cmdCondition = Some (condition_of [''A''] [''x''] None)\<rparr>];
       lost = healthy\<lparr>env_call := Lost (CtxError Canceled) False, env_drawn := 3\<rparr>
   in pg_Append events_store healthy empty_db cmds = (Ok (bigint_position 1), pg_appended events_store empty_db cmds)
      \<and> pg_Append events_store lost empty_db cmds = (Err (CtxError Canceled), empty_db\<lparr>db_seq := Some 1\<rparr>)"
proof -
  let ?cmds = "[\<lparr>cmdEvents = [event_of ''A'' [''x'']], cmdCondition = Some (condition_of [''A''] [''x''] None)\<rparr>]"
  let ?lost = "healthy\<lparr>env_call := Lost (CtxError Canceled) False, env_drawn := 3\<rparr>"
  have h: "clean_conditions ?cmds" "length ?cmds < 2 ^ 31" "\<forall>ev \<in> set (command_events ?cmds). storable_event ev"
      "after_fits ?cmds"
    using scoped_command_storable by (simp_all add: pg_storable_def)
  have v: "validate_commands ?cmds = None"
    by (simp add: condition_of_def ValidateAppendCondition_def IsAll_def Items_def Tags_Len_def)
  note behaviour = pg_Append_behaviour [OF empty_db_simps(1) h(1-3), where s = events_store]
  have "pg_Append events_store healthy empty_db ?cmds = (Ok (bigint_position 1), pg_appended events_store empty_db ?cmds)"
    using conjunct2 [OF conjunct2 [OF behaviour [of healthy]]] h(4) events_store_names v by simp
  moreover have "function_outcome events_store ?lost empty_db ?cmds
      = (Err (CtxError Canceled), empty_db\<lparr>db_seq := Some 1\<rparr>)"
    using h(4) by (simp add: function_outcome_def procedure_run_def reported_def parseConditionViolation_def
        healthy_def rolled_back_def pg_appended_def seq_hwm_def nextval_def bigint_max_def empty_db_def
        pg_room_def db_log_def Let_def)
  then have "pg_Append events_store ?lost empty_db ?cmds
      = (Err (CtxError Canceled), empty_db\<lparr>db_seq := Some 1\<rparr>)"
    using behaviour [of ?lost] v by (simp add: events_store_def defaultCopyThreshold_def)
  ultimately show ?thesis by (simp add: Let_def)
qed

text \<open>
  Racing appends under one condition, on PostgreSQL: in whatever order the calls are
  serialized, exactly one succeeds, every other one gets the condition error, and the table
  gains the one event.
\<close>

theorem pg_race_one_winner:
  assumes "db_ok db" and "pg_storable s [cmd]" and "pg_room db 1"
    and "cmdCondition cmd = Some c" and "ValidateAppendCondition c = None"
    and "cmdEvents cmd = [ev]" and "query_matches (FailIfEventsMatch c) ev"
    and "\<forall>se \<in> set (db_log db). \<not> condition_violated_by c se"
    and "condAfter c = None \<or> (\<exists>a. \<exists>se \<in> set (db_log db). condAfter c = Some a \<and> a \<le> sePosition se)"
  shows "\<exists>p db'. run_appends (pg_Append s healthy) db (replicate (Suc n) [cmd]) =
           (Ok p # replicate n (Err (violation_error [cmd] 0 c)), db')
         \<and> db_log db' = db_log db @ [\<lparr>seEvent = stored_event ev, sePosition = p\<rparr>]"
proof -
  have "condition_scoped c" using assms(5) by (simp only: ValidateAppendCondition_None_iff)
  from pg.race_one_winner [OF assms(1-4) this assms(6-9)] show ?thesis by blast
qed

theorem pg_race_one_winner_witness:
  "let c = condition_of [''A''] [''x''] None;
       cmd = \<lparr>cmdEvents = [event_of ''A'' [''x'']], cmdCondition = Some c\<rparr>
   in \<exists>p db'. run_appends (pg_Append events_store healthy) empty_db (replicate 20 [cmd])
        = (Ok p # replicate 19 (Err (violation_error [cmd] 0 c)), db')
      \<and> db_log db' = [\<lparr>seEvent = stored_event (event_of ''A'' [''x'']), sePosition = p\<rparr>]"
proof -
  let ?c = "condition_of [''A''] [''x''] None"
  let ?cmd = "\<lparr>cmdEvents = [event_of ''A'' [''x'']], cmdCondition = Some ?c\<rparr>"
  have c: "cmdCondition ?cmd = Some ?c" and e: "cmdEvents ?cmd = [event_of ''A'' [''x'']]" by simp_all
  have v: "ValidateAppendCondition ?c = None"
    by (simp add: condition_of_def ValidateAppendCondition_def IsAll_def Items_def Tags_Len_def)
  have q: "query_matches (FailIfEventsMatch ?c) (event_of ''A'' [''x''])"
    by (simp add: condition_of_def event_of_def query_matches_def item_matches_def)
  have f: "\<forall>se \<in> set (db_log empty_db). \<not> condition_violated_by ?c se" by simp
  have n: "condAfter ?c = None" by (simp add: condition_of_def)
  have twenty: "(20 :: nat) = Suc 19" by simp
  show ?thesis
    using pg_race_one_winner [OF empty_db_simps(1) scoped_command_storable empty_db_simps(2)
        c v e q f disjI1 [OF n], of 19]
    unfolding Let_def twenty empty_db_simps(5) append_Nil .
qed

section \<open>Appends are all or nothing\<close>

text \<open>
  What an append leaves in the database, whatever goes wrong: the rows of all its events and
  one notification, or neither. A rolled-back append may still have used up positions.
\<close>

definition rows_for :: "PgDb \<Rightarrow> Event list \<Rightarrow> row list \<Rightarrow> bool" where
  "rows_for db evs new \<longleftrightarrow>
     map row_type new = map evType evs \<and> map row_payload new = map serializePayload evs
     \<and> map row_pos new = map (\<lambda>i. seq_hwm (db_seq db) + int i) [1..<Suc (length evs)]"

definition all_applied :: "PgStore \<Rightarrow> PgDb \<Rightarrow> AppendCommand list \<Rightarrow> PgDb \<Rightarrow> bool" where
  "all_applied s db cmds db' \<longleftrightarrow>
     (\<exists>new. db_rows db' = db_rows db @ new \<and> rows_for db (command_events cmds) new)
     \<and> (\<exists>m. db_notified db' = db_notified db @ [(notifyChannel s, m)])"

definition none_applied :: "PgDb \<Rightarrow> PgDb \<Rightarrow> bool" where
  "none_applied db db' \<longleftrightarrow> db_rows db' = db_rows db \<and> db_notified db' = db_notified db
     \<and> seq_hwm (db_seq db) \<le> seq_hwm (db_seq db')"

definition reply_lost :: "pg_env \<Rightarrow> bool" where
  "reply_lost env \<longleftrightarrow> (\<exists>e. env_call env = Lost e True \<or> env_commit env = Lost e True)"

lemma insert_rows_Ok:
  "insert_rows vals sq acc = (Ok new, sq') \<Longrightarrow>
     \<exists>ns. new = acc @ ns \<and> map row_type ns = map fst vals \<and> map row_payload ns = map (snd \<circ> snd) vals
       \<and> map row_pos ns = map (\<lambda>i. seq_hwm sq + int i) [1..<Suc (length vals)]"
proof (induction vals sq acc rule: insert_rows.induct)
  case (2 t tags payload rest sq acc)
  then have nv: "nextval sq = Ok (seq_hwm sq + 1)"
    by (auto simp: nextval_def split: if_splits)
  let ?r = "\<lparr>row_pos = seq_hwm sq + 1, row_type = t, row_tags = tags, row_payload = payload\<rparr>"
  obtain ns where ns: "new = (acc @ [?r]) @ ns" "map row_type ns = map fst rest"
      "map row_payload ns = map (snd \<circ> snd) rest"
      "map row_pos ns = map (\<lambda>i. seq_hwm sq + 1 + int i) [1..<Suc (length rest)]"
    using "2.IH" [OF nv] "2.prems" nv by (auto simp: seq_hwm_def [of "Some _"])
  have "map row_pos (?r # ns) = map (\<lambda>i. seq_hwm sq + int i) [1..<Suc (Suc (length rest))]"
    using ns(4) by (simp add: upt_conv_Cons map_Suc_upt [symmetric] comp_def del: upt_Suc)
  with ns show ?case by (intro exI [of _ "?r # ns"]) simp
qed simp

lemma insert_rows_seq_mono: "seq_hwm sq \<le> seq_hwm (snd (insert_rows vals sq acc))"
proof (induction vals sq acc rule: insert_rows.induct)
  case (2 t tags payload rest sq acc)
  show ?case
  proof (cases "nextval sq")
    case (Ok p)
    then have "p = seq_hwm sq + 1" by (auto simp: nextval_def split: if_splits)
    with "2.IH" [OF Ok] Ok show ?thesis by (simp add: seq_hwm_def [of "Some _"])
  qed simp_all
qed simp

lemma none_applied_refl [simp]: "none_applied db db"
  by (simp add: none_applied_def)

lemma none_applied_rolled_back [simp]: "none_applied db (rolled_back env db db')"
  by (simp add: none_applied_def rolled_back_def draw_hwm)

lemma events_append_atomic:
  assumes "serializeEvents cmds = events"
  shows "case events_append s acquire lk ik events arrays db of
      (Ok p, db') \<Rightarrow> all_applied s db cmds db'
    | (Err e, db') \<Rightarrow> none_applied db db' \<or> db' = db
    | (Panic m, db') \<Rightarrow> db' = db"
proof -
  let ?vals = "zip (map evType (command_events cmds)) (zip (map (\<lambda>t. string_to_array t tagDelimiter)
      (map (\<lambda>ev. Join (Values (evTags ev)) [tagDelimiter]) (command_events cmds)))
      (map serializePayload (command_events cmds)))"
  have fst: "map fst ?vals = map evType (command_events cmds)"
    and snd: "map (snd \<circ> snd) ?vals = map serializePayload (command_events cmds)"
    and len: "length ?vals = length (command_events cmds)"
    by (auto simp: zip_map1 zip_map2 zip_same_conv_map comp_def)
  have "rows_for db (command_events cmds) new" if "insert_rows ?vals (db_seq db) [] = (Ok new, sq')" for new sq'
    using insert_rows_Ok [OF that] unfolding fst snd len by (auto simp: rows_for_def)
  then show ?thesis
    using assms insert_rows_seq_mono [of "db_seq db" ?vals "[]"]
    by (auto simp: events_append_def serializeEvents_eq Let_def all_applied_def none_applied_def
        split: option.splits prod.splits outcome.splits if_splits)
qed


lemma int64ToPosition_not_Err: "int64ToPosition n \<noteq> Err e"
  by (auto simp: int64ToPosition_def split: sum.splits)

lemma conditionError_not_Ok: "conditionError cmds idx \<noteq> Ok p"
  by (auto simp: conditionError_def Let_def split: option.splits)

definition atomic_result ::
  "PgStore \<Rightarrow> pg_env \<Rightarrow> PgDb \<Rightarrow> AppendCommand list \<Rightarrow> (error, SequencePosition) outcome \<times> PgDb \<Rightarrow> bool" where
  "atomic_result s env db cmds res \<longleftrightarrow>
     (case res of (r, db') \<Rightarrow>
        (all_applied s db cmds db' \<or> none_applied db db')
        \<and> (case r of
             Ok p \<Rightarrow> all_applied s db cmds db'
           | Err e \<Rightarrow> reply_lost env \<or> none_applied db db'
           | Panic m \<Rightarrow> True))"

lemma atomic_result_unchanged [simp]: "\<nexists>p. r = Ok p \<Longrightarrow> atomic_result s env db cmds (r, db)"
  by (cases r) (auto simp: atomic_result_def)

lemma appendViaFunction_atomic: "atomic_result s env db cmds (appendViaFunction s env db cmds keys)"
proof (cases "serializeConditions cmds")
  case (Ok arrays)
  obtain res db' where run: "events_append s (env_locks env) (leafX keys) (intentS keys)
      (serializeEvents cmds) arrays db = (res, db')" by fastforce
  note atomic = events_append_atomic [OF refl, where cmds = cmds and s = s and acquire = "env_locks env"
      and lk = "leafX keys" and ik = "intentS keys" and arrays = arrays and db = db, unfolded run]
  show ?thesis
  proof (cases "env_call env")
    case Delivered
    then show ?thesis
      using Ok run atomic int64ToPosition_not_Err conditionError_not_Ok
      by (auto simp: appendViaFunction_def atomic_result_def split: outcome.splits option.splits)
  next
    case (Lost e executed)
    then show ?thesis
      using Ok run atomic conditionError_not_Ok
      by (cases executed)
        (auto simp: appendViaFunction_def atomic_result_def reply_lost_def Let_def
          split: outcome.splits option.splits)
  qed
qed (simp_all add: appendViaFunction_def)

lemma copy_insert_seq_mono: "seq_hwm (db_seq db) \<le> seq_hwm (snd (copy_insert s env evs db))"
  by (auto simp: copy_insert_def Let_def insert_rows_seq_mono split: option.splits)

lemma copy_insert_Ok: "copy_insert s env evs db = (Ok new, sq') \<Longrightarrow> rows_for db evs new"
  by (auto simp: copy_insert_def Let_def rows_for_def comp_def split: option.splits if_splits dest!: insert_rows_Ok)

lemma appendViaCopy_atomic: "atomic_result s env db cmds (appendViaCopy s env db cmds keys)"
proof -
  obtain res sq' where ins: "copy_insert s env (command_events cmds) db = (res, sq')" by fastforce
  have mono: "seq_hwm (db_seq db) \<le> seq_hwm sq'"
    using copy_insert_seq_mono [of db s env "command_events cmds"] ins by simp
  have rolled: "none_applied db (db\<lparr>db_seq := sq'\<rparr>)" using mono by (simp add: none_applied_def)
  have applied: "all_applied s db cmds \<lparr>db_rows = db_rows db @ new, db_seq = sq',
      db_notified = db_notified db @ [(notifyChannel s, m)]\<rparr>" if "res = Ok new" for new m
    using copy_insert_Ok ins that by (auto simp: all_applied_def)
  have copied: "atomic_result s env db cmds
      (case env_commit env of
         Lost e executed \<Rightarrow> (Err e, if executed then
           \<lparr>db_rows = db_rows db @ new, db_seq = sq', db_notified = db_notified db @ [(notifyChannel s, m)]\<rparr>
           else db\<lparr>db_seq := sq'\<rparr>)
       | Delivered \<Rightarrow> (int64ToPosition n,
           \<lparr>db_rows = db_rows db @ new, db_seq = sq', db_notified = db_notified db @ [(notifyChannel s, m)]\<rparr>))"
    if "res = Ok new" for new m n
    using applied [OF that] rolled int64ToPosition_not_Err
    by (auto simp: atomic_result_def reply_lost_def split: net.splits outcome.splits)
  show ?thesis
    using copied rolled ins conditionError_not_Ok
    by (auto simp: appendViaCopy_def Let_def split: option.splits outcome.splits)
      (auto simp: atomic_result_def)
qed

lemma pg_Append_atomic_result: "atomic_result s env db cmds (pg_Append s env db cmds)"
  using appendViaFunction_atomic appendViaCopy_atomic
  by (simp add: pg_Append_def Let_def split: option.split)

text \<open>
  C5: appends are atomic whatever fails: locks that are refused, a statement that fails, a
  connection that is lost before or after the server committed. The table gains the rows of
  all the events of the call, at the next consecutive positions and with one notification, or
  nothing. A returned position means all of it; a returned error means nothing of it, unless
  the reply of a committed call was lost.
\<close>

theorem pg_Append_atomic:
  assumes "pg_Append s env db cmds = (r, db')"
  shows "(all_applied s db cmds db' \<or> none_applied db db')
    \<and> (\<forall>p. r = Ok p \<longrightarrow> all_applied s db cmds db')
    \<and> (\<forall>e. r = Err e \<and> \<not> reply_lost env \<longrightarrow> none_applied db db')"
  using pg_Append_atomic_result [of s env db cmds] assms by (auto simp: atomic_result_def split: outcome.splits)

theorem pg_Append_atomic_witness:
  "all_applied events_store empty_db
     [\<lparr>cmdEvents = [event_of ''A'' [''x'']], cmdCondition = Some (condition_of [''A''] [''x''] None)\<rparr>]
     (pg_appended events_store empty_db
       [\<lparr>cmdEvents = [event_of ''A'' [''x'']], cmdCondition = Some (condition_of [''A''] [''x''] None)\<rparr>])"
proof -
  let ?cmds = "[\<lparr>cmdEvents = [event_of ''A'' [''x'']], cmdCondition = Some (condition_of [''A''] [''x''] None)\<rparr>]"
  have "pg_Append events_store healthy empty_db ?cmds = (Ok (bigint_position 1), pg_appended events_store empty_db ?cmds)"
    using pg_Append_eq [OF empty_db_simps(1) scoped_command_storable]
    by (simp add: condition_of_def ValidateAppendCondition_def IsAll_def Items_def Tags_Len_def)
  then show ?thesis using pg_Append_atomic by blast
qed

section \<open>Prefixes with upper-case letters\<close>

lemma copy_misses_table:
  assumes "copy_table s \<noteq> created_table s" and "appendViaCopy s env db cmds keys = (r, db')"
  shows "(\<forall>p. r \<noteq> Ok p) \<and> none_applied db db'"
proof -
  obtain e sq where ins: "copy_insert s env (command_events cmds) db = (Err e, sq)"
    using assms(1) by (cases "env_fails env CopyFrom") (simp_all add: copy_insert_def Let_def)
  then have "none_applied db (db\<lparr>db_seq := sq\<rparr>)"
    using copy_insert_seq_mono [of db s env "command_events cmds"] by (simp add: none_applied_def)
  then show ?thesis
    using assms(2) ins conditionError_not_Ok by (auto simp: appendViaCopy_def Let_def split: option.splits outcome.splits)
qed

text \<open>
  C40: a store whose prefix has an upper-case letter is accepted, but no append of more events
  than the COPY threshold can succeed on it, whatever the server does: COPY quotes the table's
  name, which \<open>CREATE TABLE\<close> folded to lower case, so the append never returns a position
  and never adds a row or a notification. Nor does a subscriber hear of the appends that
  do succeed, since \<open>LISTEN\<close> folds the channel's name and \<open>pg_notify\<close> does not.
\<close>

theorem upper_case_prefix_breaks_copy:
  assumes "pg_New opts = Inr s" and "list_all (\<lambda>c. byte c < 0x80) (TablePrefix opts)"
    and "list_ex upper_case (TablePrefix opts)"
  shows "(copyThreshold s < int (length (command_events cmds)) \<and> pg_Append s env db cmds = (r, db') \<longrightarrow>
           (\<forall>p. r \<noteq> Ok p) \<and> none_applied db db')
    \<and> (pg_Append s env db cmds = (r, db') \<longrightarrow>
        (\<forall>n. n \<in> set (drop (length (db_notified db)) (db_notified db')) \<longrightarrow> fst n \<noteq> listen_channel s))"
proof -
  have names: "copy_table s \<noteq> created_table s" "listen_channel s \<noteq> notifyChannel s"
    using pg_New_names [OF assms(2,1)] assms(3) by simp_all
  have "(\<forall>p. r \<noteq> Ok p) \<and> none_applied db db'"
    if "copyThreshold s < int (length (command_events cmds)) \<and> pg_Append s env db cmds = (r, db')"
    using that copy_misses_table [OF names(1), of env db cmds "append_keys cmds" r db']
      fst_collect_keys [of cmds 0 "{||}" "{||}"]
    by (auto simp: pg_Append_def Let_def split: option.splits if_splits)
  moreover have "\<forall>n. n \<in> set (drop (length (db_notified db)) (db_notified db')) \<longrightarrow> fst n \<noteq> listen_channel s"
    if app: "pg_Append s env db cmds = (r, db')"
  proof -
    have "all_applied s db cmds db' \<or> none_applied db db'"
      using pg_Append_atomic_result [of s env db cmds] app by (simp add: atomic_result_def)
    then show ?thesis using names(2) by (auto simp: all_applied_def none_applied_def)
  qed
  ultimately show ?thesis by blast
qed

theorem upper_case_prefix_breaks_copy_witness:
  "let cmds = [\<lparr>cmdEvents = [event_of ''A'' [''x''], event_of ''B'' [''x'']], cmdCondition = None\<rparr>]
   in \<exists>s. pg_New \<lparr>TablePrefix = ''Orders'', CopyThreshold = 1\<rparr> = Inr s
      \<and> (\<forall>p. fst (pg_Append s healthy empty_db cmds) \<noteq> Ok p)
      \<and> none_applied empty_db (snd (pg_Append s healthy empty_db cmds))"
proof -
  let ?o = "\<lparr>TablePrefix = ''Orders'', CopyThreshold = 1\<rparr>"
  let ?cmds = "[\<lparr>cmdEvents = [event_of ''A'' [''x''], event_of ''B'' [''x'']], cmdCondition = None\<rparr>]"
  have ascii: "list_all (\<lambda>c. byte c < 0x80) (TablePrefix ?o)" and upper: "list_ex upper_case (TablePrefix ?o)"
    by (simp_all add: upper_case_def)
  have "prefix_ok ''Orders''" by (simp add: prefix_ok_def ident_start_def ident_part_def)
  then obtain s where s: "pg_New ?o = Inr s" "copyThreshold s = 1"
    using pg_New_ascii [OF ascii] by (simp add: Let_def)
  obtain r db' where app: "pg_Append s healthy empty_db ?cmds = (r, db')" by fastforce
  have "(\<forall>p. r \<noteq> Ok p) \<and> none_applied empty_db db'"
    using upper_case_prefix_breaks_copy [OF s(1) ascii upper, of ?cmds healthy empty_db r db'] app s(2) by simp
  then show ?thesis using s(1) app unfolding Let_def by (intro exI [of _ s]) simp
qed

end
