(* ===== verification/Pg_Read.thy ===== *)
theory Pg_Read
  imports Read_SQL Pg_Append
begin

text \<open>
  \<open>postgres/cursor.go\<close> and \<open>postgres/read.go\<close>: a read takes the barrier snapshot,
  declares a cursor in a transaction of its own and hands out an iterator that fetches it in
  batches. The connection is part of the iterator's state: the rows its cursor still has, and
  whether it was given back to the pool. Any statement may fail; the errors the driver
  reports are the read's environment. The cursor's rows are those visible when it was declared.
\<close>

section \<open>The cursor iterator\<close>

definition readBatchSize :: nat where
  "readBatchSize = 5000"

record Conn =
  cn_cursor :: "row list"
  cn_in_tx :: bool
  cn_fetched :: nat
  cn_fails :: "nat \<Rightarrow> error option"
  cn_released :: bool

record cursorIterator =
  cur_conn :: Conn
  cur_buffer :: "SequencedEvent list"
  cur_idx :: nat
  cur_exhausted :: bool
  cur_err :: "error option"
  cur_closed :: bool

definition conn_fetch :: "Conn \<Rightarrow> (error, row list) outcome \<times> Conn" where
  "conn_fetch c =
     (case cn_fails c (cn_fetched c) of
        Some e \<Rightarrow> (Err e, c\<lparr>cn_fetched := Suc (cn_fetched c)\<rparr>)
      | None \<Rightarrow>
          (Ok (take readBatchSize (cn_cursor c)),
           c\<lparr>cn_cursor := drop readBatchSize (cn_cursor c), cn_fetched := Suc (cn_fetched c)\<rparr>))"

fun CollectRows :: "row list \<Rightarrow> (error, SequencedEvent list) outcome" where
  "CollectRows [] = Ok []"
| "CollectRows (r # rs) =
     bind_outcome (rowToSequencedEvent r) (\<lambda>se. bind_outcome (CollectRows rs) (\<lambda>ses. Ok (se # ses)))"

definition cursor_Next :: "cursorIterator \<Rightarrow> (error, bool) outcome \<times> cursorIterator" where
  "cursor_Next it =
     (if cur_err it \<noteq> None \<or> cur_closed it then (Ok False, it)
      else if cur_idx it < length (cur_buffer it) then (Ok True, it\<lparr>cur_idx := cur_idx it + 1\<rparr>)
      else if cur_exhausted it then (Ok False, it)
      else
        let (fetched, conn) = conn_fetch (cur_conn it); it = it\<lparr>cur_conn := conn\<rparr>
        in case bind_outcome fetched CollectRows of
             Err e \<Rightarrow> (Ok False, it\<lparr>cur_err := Some e\<rparr>)
           | Panic m \<Rightarrow> (Panic m, it)
           | Ok buffer \<Rightarrow>
               (Ok (length buffer > 0),
                it\<lparr>cur_buffer := buffer, cur_idx := 1,
                   cur_exhausted := (cur_exhausted it \<or> length buffer < readBatchSize)\<rparr>))"

definition cursor_Event :: "cursorIterator \<Rightarrow> (error, SequencedEvent) outcome" where
  "cursor_Event it =
     (if cur_idx it = 0 \<or> cur_idx it > length (cur_buffer it) then Panic ''index out of range''
      else Ok (cur_buffer it ! (cur_idx it - 1)))"

definition cursor_Close :: "cursorIterator \<Rightarrow> cursorIterator" where
  "cursor_Close it =
     (if cur_closed it then it
      else it\<lparr>cur_closed := True,
              cur_conn := (cur_conn it)\<lparr>cn_cursor := [], cn_in_tx := False, cn_released := True\<rparr>\<rparr>)"

definition cursorIterator_methods :: "cursorIterator EventIterator" where
  "cursorIterator_methods =
     \<lparr>it_Next = cursor_Next, it_Event = cursor_Event, it_Err = cur_err, it_Close = cursor_Close\<rparr>"

section \<open>Read\<close>

record read_env =
  re_locks :: "(int64 \<times> bool) list \<Rightarrow> error option"
  re_barrier :: "error option"
  re_acquire :: "error option"
  re_begin :: "error option"
  re_declare :: "error option"
  re_fetch :: "nat \<Rightarrow> error option"

definition healthy_read :: read_env where
  "healthy_read =
     \<lparr>re_locks = (\<lambda>_. None), re_barrier = None, re_acquire = None, re_begin = None, re_declare = None,
      re_fetch = (\<lambda>_. None)\<rparr>"

definition barrierSnapshot :: "read_env \<Rightarrow> PgDb \<Rightarrow> Query \<Rightarrow> (error, int64) outcome" where
  "barrierSnapshot env db query =
     (let keys = computeReaderLockKeys query
      in case re_barrier env of
           Some e \<Rightarrow> Err e
         | None \<Rightarrow>
             bind_outcome (barrier_hwm (re_locks env) (leafS keys) (intentX keys) db)
               (\<lambda>hwm. Ok (word_of_int hwm)))"

text \<open>
  The second result counts the connections taken from the pool and not given back. The cursor
  runs the statement whose text \<open>buildReadSQL\<close> renders: \<open>plan_read\<close> builds its tree
  with the same branches and the same panics, and by the lemma \<open>buildReadSQL_plan\<close> the text
  that is sent is its rendering, with the same parameters.
\<close>

definition pool_acquire :: "nat \<Rightarrow> nat" where
  "pool_acquire conns = Suc conns"

definition pool_release :: "nat \<Rightarrow> nat" where
  "pool_release conns = conns - 1"

lemma pool_simps [simp]: "pool_acquire n = Suc n" "pool_release (Suc n) = n"
  by (simp_all add: pool_acquire_def pool_release_def)

definition open_cursor ::
  "read_env \<Rightarrow> PgDb \<Rightarrow> Query \<Rightarrow> ReadOptions \<Rightarrow> int64 option \<Rightarrow> (error, cursorIterator) outcome \<times> nat" where
  "open_cursor env db query opts upperBound =
     (case re_acquire env of Some e \<Rightarrow> (Err e, 0) | None \<Rightarrow>
     let conns = pool_acquire 0
     in case re_begin env of Some e \<Rightarrow> (Err e, pool_release conns) | None \<Rightarrow>
     (case plan_read query opts upperBound of
        Err e \<Rightarrow> (Err e, conns)
      | Panic m \<Rightarrow> (Panic m, conns)
      | Ok (stmt, args) \<Rightarrow>
     (case re_declare env of Some e \<Rightarrow> (Err e, pool_release conns) | None \<Rightarrow>
     (case exec_declare stmt args (db_rows db) of
        Err e \<Rightarrow> (Err e, pool_release conns)
      | Panic m \<Rightarrow> (Panic m, conns)
      | Ok rows \<Rightarrow>
          (Ok \<lparr>cur_conn =
                 \<lparr>cn_cursor = rows, cn_in_tx = True, cn_fetched = 0, cn_fails = re_fetch env, cn_released = False\<rparr>,
               cur_buffer = [], cur_idx = 0, cur_exhausted = False, cur_err = None, cur_closed = False\<rparr>,
           conns)))))"

lemmas open_cursor_unfold = open_cursor_def [unfolded Let_def pool_simps]

text \<open>
  The barrier and the cursor are separate transactions, so other calls may commit in between:
  the first database is the one the barrier sees, the second the one the cursor sees. A read
  that nobody interferes with sees the same one twice.
\<close>

definition read_between ::
  "read_env \<Rightarrow> PgDb \<Rightarrow> PgDb \<Rightarrow> Query \<Rightarrow> ReadOptions \<Rightarrow> (error, cursorIterator) outcome \<times> nat" where
  "read_between env db1 db2 query opts =
     (if Backwards opts then open_cursor env db2 query opts None
      else case barrierSnapshot env db1 query of
             Err e \<Rightarrow> (Err e, 0)
           | Panic m \<Rightarrow> (Panic m, 0)
           | Ok hwm \<Rightarrow> open_cursor env db2 query opts (Some hwm))"

definition pg_Read ::
  "read_env \<Rightarrow> PgDb \<Rightarrow> Query \<Rightarrow> ReadOptions \<Rightarrow> (error, cursorIterator) outcome \<times> nat" where
  "pg_Read env db query opts = read_between env db db query opts"

section \<open>The iterator delivers the cursor's rows\<close>

text \<open>
  What the fetches of a cursor will deliver, and the error they end with: a failing batch
  delivers nothing, not even the rows of it that decode.
\<close>

function fetch_all :: "(nat \<Rightarrow> error option) \<Rightarrow> nat \<Rightarrow> row list \<Rightarrow> SequencedEvent list \<times> error option" where
  "fetch_all fails n rows =
     (case fails n of
        Some e \<Rightarrow> ([], Some e)
      | None \<Rightarrow>
          (case CollectRows (take readBatchSize rows) of
             Err e \<Rightarrow> ([], Some e)
           | Panic m \<Rightarrow> ([], None)
           | Ok evs \<Rightarrow>
               if length rows < readBatchSize then (evs, None)
               else let (rest, e) = fetch_all fails (Suc n) (drop readBatchSize rows) in (evs @ rest, e)))"
  by pat_completeness auto
termination
  by (relation "measure (\<lambda>(fails, n, rows). length rows)") (auto simp: readBatchSize_def)

declare fetch_all.simps [simp del]

definition row_in_range :: "row \<Rightarrow> bool" where
  "row_in_range r \<longleftrightarrow> 0 \<le> row_pos r \<and> row_pos r < 2 ^ 63"

definition cursor_ok :: "cursorIterator \<Rightarrow> bool" where
  "cursor_ok it \<longleftrightarrow>
     list_all row_in_range (cn_cursor (cur_conn it)) \<and> cn_released (cur_conn it) = cur_closed it"

definition cursor_live :: "cursorIterator \<Rightarrow> bool" where
  "cursor_live it \<longleftrightarrow> cur_err it = None \<and> \<not> cur_closed it"

definition cursor_rest :: "cursorIterator \<Rightarrow> SequencedEvent list \<times> error option" where
  "cursor_rest it =
     (if cur_exhausted it then ([], None)
      else fetch_all (cn_fails (cur_conn it)) (cn_fetched (cur_conn it)) (cn_cursor (cur_conn it)))"

definition cursor_remaining :: "cursorIterator \<Rightarrow> SequencedEvent list" where
  "cursor_remaining it =
     (if cursor_live it then drop (cur_idx it) (cur_buffer it) @ fst (cursor_rest it) else [])"

definition cursor_fate :: "cursorIterator \<Rightarrow> error option" where
  "cursor_fate it = (if cursor_live it then snd (cursor_rest it) else cur_err it)"

lemma CollectRows_no_panic:
  "list_all row_in_range rows \<Longrightarrow> \<not> is_panic (CollectRows rows)"
proof (induction rows)
  case (Cons r rows)
  then have "\<not> is_panic (rowToSequencedEvent r)"
    using int64ToPosition_bigint [of "row_pos r"]
    by (auto simp: rowToSequencedEvent_def row_in_range_def split: option.splits sum.splits)
  with Cons show ?case by (auto simp: bind_outcome_is_panic)
qed simp

lemma CollectRows_length: "CollectRows rows = Ok evs \<Longrightarrow> length evs = length rows"
  by (induction rows arbitrary: evs) (auto simp: bind_outcome_Ok_iff)

text \<open>One fetch: it fails for good, or it refills the buffer with what comes next.\<close>

lemma cursor_Next_fetch:
  assumes "cursor_ok it" and "cursor_live it" and "length (cur_buffer it) \<le> cur_idx it"
    and "\<not> cur_exhausted it"
  obtains (failed) e it' where "cursor_Next it = (Ok False, it')" "cursor_rest it = ([], Some e)"
      "cur_err it' = Some e" "cursor_ok it'"
    | (fetched) evs it' where "cursor_Next it = (Ok (evs \<noteq> []), it')" "cursor_ok it'" "cursor_live it'"
      "cur_buffer it' = evs" "cur_idx it' = 1"
      "cursor_rest it = (evs @ fst (cursor_rest it'), snd (cursor_rest it'))"
      "evs = [] \<longrightarrow> cur_exhausted it'"
proof -
  let ?c = "cur_conn it"
  let ?rows = "cn_cursor ?c" and ?n = "cn_fetched ?c"
  have rows: "list_all row_in_range (take readBatchSize ?rows)" "list_all row_in_range (drop readBatchSize ?rows)"
    using assms(1) by (auto simp: cursor_ok_def list_all_iff dest: in_set_takeD in_set_dropD)
  have pos: "0 < readBatchSize" by (simp add: readBatchSize_def)
  show thesis
  proof (cases "cn_fails ?c ?n")
    case (Some e)
    then show thesis
      using assms by (intro failed [of _ e]) (auto simp: cursor_Next_def conn_fetch_def cursor_rest_def
          cursor_live_def cursor_ok_def fetch_all.simps)
  next
    case None
    show thesis
    proof (cases "CollectRows (take readBatchSize ?rows)")
      case (Ok evs)
      have len: "length evs = min (length ?rows) readBatchSize" using CollectRows_length [OF Ok] by simp
      then have short: "length evs < readBatchSize \<longleftrightarrow> length ?rows < readBatchSize" by linarith
      have empty: "evs = [] \<longrightarrow> length ?rows < readBatchSize" using len pos by (cases evs) auto
      let ?it' = "it\<lparr>cur_conn := ?c\<lparr>cn_cursor := drop readBatchSize ?rows, cn_fetched := Suc ?n\<rparr>,
        cur_buffer := evs, cur_idx := 1, cur_exhausted := length evs < readBatchSize\<rparr>"
      show thesis
        by (rule fetched [of evs ?it'])
          (use assms None Ok rows(2) short empty in \<open>auto simp: cursor_Next_def conn_fetch_def
            cursor_rest_def cursor_live_def cursor_ok_def fetch_all.simps [of _ ?n] Let_def split: prod.split\<close>)
    next
      case (Err e)
      then show thesis
        using assms None rows by (intro failed [of _ e]) (auto simp: cursor_Next_def conn_fetch_def
            cursor_rest_def cursor_live_def cursor_ok_def fetch_all.simps)
    next
      case (Panic m)
      then show thesis using CollectRows_no_panic [OF rows(1)] by simp
    qed
  qed
qed

interpretation cursor: bounded_iterator cursorIterator_methods cursor_ok cursor_remaining cursor_fate
  "\<lambda>it. cn_released (cur_conn it)"
proof unfold_locales
  fix it
  assume ok: "cursor_ok it" and rem: "cursor_remaining it = []"
  show "fst (it_Next cursorIterator_methods it) = Ok False
      \<and> cursor_ok (snd (it_Next cursorIterator_methods it))
      \<and> it_Err cursorIterator_methods (snd (it_Next cursorIterator_methods it)) = cursor_fate it"
  proof (cases "cursor_live it \<and> \<not> cur_exhausted it")
    case True
    then have full: "length (cur_buffer it) \<le> cur_idx it" and none: "fst (cursor_rest it) = []"
      using rem by (auto simp: cursor_remaining_def)
    show ?thesis
      by (rule cursor_Next_fetch [OF ok _ full])
        (use True none ok in \<open>auto simp: cursorIterator_methods_def cursor_fate_def cursor_rest_def cursor_live_def\<close>)
  next
    case False
    then show ?thesis
      using ok rem by (auto simp: cursorIterator_methods_def cursor_Next_def cursor_fate_def cursor_rest_def
          cursor_remaining_def cursor_live_def split: if_splits)
  qed
next
  fix it ev evs
  assume ok: "cursor_ok it" and rem: "cursor_remaining it = ev # evs"
  then have live: "cursor_live it" by (auto simp: cursor_remaining_def split: if_splits)
  show "fst (it_Next cursorIterator_methods it) = Ok True
      \<and> cursor_ok (snd (it_Next cursorIterator_methods it))
      \<and> it_Event cursorIterator_methods (snd (it_Next cursorIterator_methods it)) = Ok ev
      \<and> cursor_remaining (snd (it_Next cursorIterator_methods it)) = evs
      \<and> cursor_fate (snd (it_Next cursorIterator_methods it)) = cursor_fate it"
  proof (cases "cur_idx it < length (cur_buffer it)")
    case True
    then have "cur_buffer it ! cur_idx it = ev" "drop (Suc (cur_idx it)) (cur_buffer it) @ fst (cursor_rest it) = evs"
      using rem live by (simp_all add: cursor_remaining_def Cons_nth_drop_Suc [symmetric])
    then show ?thesis
      using True live ok by (auto simp: cursorIterator_methods_def cursor_Next_def cursor_Event_def cursor_fate_def
          cursor_rest_def cursor_live_def cursor_ok_def cursor_remaining_def)
  next
    case False
    then have full: "length (cur_buffer it) \<le> cur_idx it" and rest: "fst (cursor_rest it) = ev # evs"
      using rem live by (auto simp: cursor_remaining_def)
    then have ex: "\<not> cur_exhausted it" by (auto simp: cursor_rest_def)
    show ?thesis
      using ok live full ex
    proof (cases rule: cursor_Next_fetch)
      case (failed e it')
      then show ?thesis using rest by simp
    next
      case (fetched evs1 it')
      then have "evs1 \<noteq> []" using rest by (auto simp: cursor_rest_def)
      then show ?thesis
        using fetched rest live
        by (cases evs1) (auto simp: cursorIterator_methods_def cursor_Event_def cursor_remaining_def cursor_fate_def)
    qed
  qed
next
  fix it
  assume "cursor_ok it"
  then show "cn_released (cur_conn (it_Close cursorIterator_methods it))"
    by (simp add: cursorIterator_methods_def cursor_Close_def cursor_ok_def)
qed

section \<open>What a read returns\<close>

definition row_event :: "row \<Rightarrow> SequencedEvent" where
  "row_event r = hd (decoded r)"

lemma row_ok_event:
  assumes "row_ok hwm r" and "hwm \<le> bigint_max"
  shows "rowToSequencedEvent r = Ok (row_event r)" and "decoded r = [row_event r]"
    and "sePosition (row_event r) = bigint_position (row_pos r)" and "row_of_event r (seEvent (row_event r))"
    and "row_in_range r"
proof -
  obtain ev where ev: "storable_event ev" "r = copy_row (row_pos r) ev"
      "decoded r = [\<lparr>seEvent = stored_event ev, sePosition = bigint_position (row_pos r)\<rparr>]"
    by (rule decoded_row_ok [OF assms])
  then show "decoded r = [row_event r]" "sePosition (row_event r) = bigint_position (row_pos r)"
    by (simp_all add: row_event_def)
  then show "rowToSequencedEvent r = Ok (row_event r)"
    by (simp add: decoded_def split: outcome.splits)
  have "row_type r = evType ev" "row_tags r = Values (evTags ev)" by (subst ev(2), simp add: copy_row_def)+
  then show "row_of_event r (seEvent (row_event r))"
    using ev(3) by (simp add: row_event_def row_of_event_def stored_event_def)
  show "row_in_range r" using row_ok_pos63 [OF assms] by (simp add: row_in_range_def)
qed

lemma db_log_events:
  assumes "db_ok db"
  shows "db_log db = map row_event (db_rows db)"
proof -
  have "concat (map decoded rows) = map row_event rows"
    if "\<forall>r \<in> set rows. row_ok (seq_hwm (db_seq db)) r" for rows
    using that assms row_ok_event(2) by (induction rows) (auto simp: db_ok_def)
  then show ?thesis using assms by (simp add: db_log_def db_ok_def)
qed

lemma CollectRows_ok:
  "\<forall>r \<in> set rows. rowToSequencedEvent r = Ok (row_event r) \<Longrightarrow> CollectRows rows = Ok (map row_event rows)"
  by (induction rows) auto

lemma fetch_all_ok:
  "\<forall>r \<in> set rows. rowToSequencedEvent r = Ok (row_event r) \<Longrightarrow>
     fetch_all (\<lambda>_. None) n rows = (map row_event rows, None)"
proof (induction "\<lambda>_ :: nat. None :: error option" n rows rule: fetch_all.induct)
  case (1 n rows)
  have "CollectRows (take readBatchSize rows) = Ok (map row_event (take readBatchSize rows))"
    using "1.prems" by (intro CollectRows_ok) (auto dest: in_set_takeD)
  moreover have "map row_event (take readBatchSize rows) @ map row_event (drop readBatchSize rows) = map row_event rows"
    by (simp flip: map_append)
  moreover have "\<forall>r \<in> set (drop readBatchSize rows). rowToSequencedEvent r = Ok (row_event r)"
    using "1.prems" by (auto dest: in_set_dropD)
  ultimately show ?case
    using "1.hyps" by (subst fetch_all.simps) auto
qed

lemma sort_key_ascending: "sorted_wrt (<) (map row_pos rows) \<Longrightarrow> sort_key row_pos rows = rows"
  by (intro sort_key_id_if_sorted) (simp add: strict_sorted_iff)

lemma sort_key_descending:
  assumes "sorted_wrt (<) (map row_pos rows)"
  shows "sort_key (\<lambda>r. - row_pos r) rows = rev rows"
proof -
  have asc: "sorted_wrt (\<lambda>x y. row_pos x < row_pos y) rows" using assms by (simp add: sorted_wrt_map)
  have "sorted (map (\<lambda>r. - row_pos r) (rev rows))"
    using asc by (simp add: sorted_wrt_map sorted_wrt_rev rev_map [symmetric] sorted_wrt_mono_rel [rotated])
  moreover have "inj_on row_pos (set rows)"
    using assms by (simp add: strict_sorted_iff distinct_map)
  then have "inj_on (\<lambda>r. - row_pos r) (set rows)" by (simp add: inj_on_def)
  ultimately show ?thesis by (intro sort_key_inj_key_eq) simp_all
qed

lemma ascending_view:
  assumes "sorted_wrt (<) (map row_pos rows)"
  shows "limited (Limit opts) (sort_key (\<lambda>r. if Backwards opts then - row_pos r else row_pos r) rows)
    = read_view opts rows"
  using sort_key_ascending [OF assms] sort_key_descending [OF assms] by (simp add: read_view_def)

definition after_in_range :: "ReadOptions \<Rightarrow> bool" where
  "after_in_range opts \<longleftrightarrow> (\<forall>a. readAfter opts = Some a \<longrightarrow> pos_value a < 2 ^ 63)"

lemma row_selected_iff:
  assumes "row_ok hwm r" and "hwm \<le> bigint_max" and "constructed q"
    and "u = None \<or> u = Some (word_of_int hwm)"
  shows "pos_selects opts u r \<and> query_selects q r \<longleftrightarrow>
    in_read_range opts (sePosition (row_event r)) \<and> query_overlaps q (seEvent (row_event r))"
proof -
  have range: "0 \<le> row_pos r" "row_pos r < 2 ^ 63" using row_ok_pos63 [OF assms(1,2)] by auto
  have "uint (word_of_int (row_pos r) :: int64) = row_pos r"
    using range by (simp add: uint_word_of_int)
  moreover have "row_pos r \<le> hwm" "0 < row_pos r" using assms(1) by (simp_all add: row_ok_def)
  moreover have "sint (word_of_int hwm :: int64) = hwm" if "0 \<le> hwm"
    using assms(2) that by (intro sint_word_of_int64) (simp_all add: bigint_max_def)
  ultimately have "pos_selects opts u r \<longleftrightarrow> in_read_range opts (bigint_position (row_pos r))"
    using assms(4)
    by (auto simp: pos_selects_def in_read_range_def bigint_position_def less_SequencePosition_def
        word_less_def split: option.splits)
  then show ?thesis
    using query_selects_overlaps [OF assms(3) row_ok_event(4) [OF assms(1,2)]] row_ok_event(3) [OF assms(1,2)]
    by simp
qed

lemma pg_Read_iterator:
  assumes "db_ok db" and "constructed q" and "after_in_range opts"
  shows "\<exists>it. pg_Read healthy_read db q opts = (Ok it, 1) \<and> cursor_ok it
    \<and> cursor_remaining it = read_view opts
        (filter (\<lambda>se. in_read_range opts (sePosition se) \<and> query_overlaps q (seEvent se)) (db_log db))
    \<and> cursor_fate it = None"
proof -
  let ?hwm = "seq_hwm (db_seq db)"
  let ?u = "if Backwards opts then None else Some (word_of_int ?hwm :: int64)"
  let ?sel = "filter (\<lambda>r. pos_selects opts ?u r \<and> query_selects q r) (db_rows db)"
  have max: "?hwm \<le> bigint_max" and rows: "\<forall>r \<in> set (db_rows db). row_ok ?hwm r"
    and asc: "sorted_wrt (<) (map row_pos (db_rows db))"
    using assms(1) by (simp_all add: db_ok_def)
  obtain st args where st: "plan_read q opts ?u = Ok (st, args)" "stmt_params_ok args st"
      "\<forall>r. list_all (eval_filter args r) (st_filters st) \<longleftrightarrow> pos_selects opts ?u r \<and> query_selects q r"
      "st_descending st = Backwards opts"
      "st_limit st = None \<and> Limit opts \<le> 0
        \<or> (\<exists>n. st_limit st = Some n \<and> arg_at args n = Some (ArgInt (Limit opts)) \<and> Limit opts > 0)"
    by (rule plan_read_sem [OF assms(3) [unfolded after_in_range_def]])
  have "exec_declare st args (db_rows db) = Ok (limited (Limit opts)
      (sort_key (\<lambda>r. if Backwards opts then - row_pos r else row_pos r) ?sel))"
    using st by (auto simp: exec_declare_def limited_def Let_def)
  also have "limited (Limit opts) (sort_key (\<lambda>r. if Backwards opts then - row_pos r else row_pos r) ?sel)
      = read_view opts ?sel"
    using asc by (intro ascending_view) (simp add: sorted_wrt_map sorted_wrt_filter)
  finally have exec: "exec_declare st args (db_rows db) = Ok (read_view opts ?sel)" .
  let ?it = "\<lparr>cur_conn = \<lparr>cn_cursor = read_view opts ?sel, cn_in_tx = True, cn_fetched = 0,
      cn_fails = (\<lambda>_. None), cn_released = False\<rparr>,
      cur_buffer = [], cur_idx = 0, cur_exhausted = False, cur_err = None, cur_closed = False\<rparr>"
  have "pg_Read healthy_read db q opts = (Ok ?it, 1)"
    using st(1) exec by (simp add: pg_Read_def read_between_def open_cursor_unfold healthy_read_def barrierSnapshot_def barrier_hwm_def Let_def split: if_splits)
  moreover have sub: "\<forall>r \<in> set (read_view opts ?sel). row_ok ?hwm r"
    using rows set_read_view [of opts ?sel] by auto
  then have "cursor_ok ?it"
    using row_ok_event(5) [OF _ max] by (simp add: cursor_ok_def list_all_iff)
  moreover have "fetch_all (\<lambda>_. None) 0 (read_view opts ?sel) = (map row_event (read_view opts ?sel), None)"
    using sub row_ok_event(1) [OF _ max] by (intro fetch_all_ok) blast
  moreover have "map row_event ?sel =
      filter (\<lambda>se. in_read_range opts (sePosition se) \<and> query_overlaps q (seEvent se)) (db_log db)"
    unfolding db_log_events [OF assms(1)] filter_map comp_def
    using row_selected_iff [OF bspec [OF rows] max assms(2)]
    by (intro arg_cong [where f = "map row_event"] filter_cong refl) simp
  ultimately show ?thesis
    by (intro exI [of _ ?it]) (simp add: cursor_remaining_def cursor_fate_def cursor_live_def cursor_rest_def
        map_read_view)
qed

section \<open>Properties of the PostgreSQL read\<close>

text \<open>
  C19: a read of a query built by the package's constructors, drained by \<open>Collect\<close>, returns
  without an error exactly the stored events beyond (or, backwards, below) the given position
  whose type an item lists and whose tags overlap the item's, in ascending (or descending)
  order, cut to the limit; and gives its connection back. However many batches that takes.
\<close>

theorem pg_Read_correct:
  assumes "db_ok db" and "constructed q" and "after_in_range opts"
  shows "\<exists>it it'. pg_Read healthy_read db q opts = (Ok it, 1)
    \<and> Collect_it cursorIterator_methods it =
        Some (Ok (read_view opts (filter (\<lambda>se. in_read_range opts (sePosition se) \<and> query_overlaps q (seEvent se))
          (db_log db)), None), it')
    \<and> cn_released (cur_conn it')"
proof -
  obtain it where it: "pg_Read healthy_read db q opts = (Ok it, 1)" "cursor_ok it"
      "cursor_remaining it = read_view opts
        (filter (\<lambda>se. in_read_range opts (sePosition se) \<and> query_overlaps q (seEvent se)) (db_log db))"
      "cursor_fate it = None"
    using pg_Read_iterator [OF assms] by blast
  then show ?thesis using cursor.Collect_it_remaining [OF it(2)] by fastforce
qed

lemma constructed_QueryAll: "constructed QueryAll"
  by (simp add: constructed_def)

theorem pg_Read_correct_witness:
  "\<exists>it it'. pg_Read healthy_read empty_db QueryAll \<lparr>Backwards = False, readAfter = None, Limit = 0\<rparr> = (Ok it, 1)
     \<and> Collect_it cursorIterator_methods it = Some (Ok ([], None), it') \<and> cn_released (cur_conn it')"
proof -
  have a: "after_in_range \<lparr>Backwards = False, readAfter = None, Limit = 0\<rparr>" by (simp add: after_in_range_def)
  show ?thesis
    using pg_Read_correct [OF empty_db_simps(1) constructed_QueryAll a]
    by (simp add: read_view_def limited_def)
qed

lemma open_cursor_no_leak:
  assumes "fst (open_cursor env db q opts u) = Err e"
  shows "snd (open_cursor env db q opts u) = 0"
proof -
  have "plan_read q opts u \<noteq> Err e'" for e'
    by (auto simp: plan_read_def positionToInt64_eq Let_def case_prod_unfold split: option.splits if_splits)
  then show ?thesis using assms by (auto simp: open_cursor_unfold split: outcome.splits option.splits)
qed

lemma open_cursor_no_panic:
  assumes "after_in_range opts"
  shows "\<not> is_panic (fst (open_cursor env db q opts u))"
proof -
  obtain st args where "plan_read q opts u = Ok (st, args)"
    by (rule plan_read_sem [OF assms [unfolded after_in_range_def], of q u])
  then show ?thesis
    by (simp add: open_cursor_unfold exec_declare_def Let_def split: option.split)
qed

text \<open>
  C30: a failing read never leaks its connection: whatever statement fails, an error means that
  every connection taken was given back. Only a panic leaks one: a position at or above
  \<open>2 ^ 63\<close> panics between taking the connection and declaring the cursor.
\<close>

theorem pg_Read_no_leak:
  "(\<forall>e. fst (pg_Read env db q opts) = Err e \<longrightarrow> snd (pg_Read env db q opts) = 0)
   \<and> (after_in_range opts \<longrightarrow> \<not> is_panic (fst (pg_Read env db q opts)))
   \<and> (\<not> after_in_range opts \<longrightarrow>
        is_panic (fst (pg_Read healthy_read db q opts)) \<and> snd (pg_Read healthy_read db q opts) = 1)"
proof (intro conjI impI allI)
  have barrier: "\<not> is_panic (barrierSnapshot env db q)"
    by (simp add: barrierSnapshot_def barrier_hwm_def Let_def split: option.split)
  show "snd (pg_Read env db q opts) = 0" if "fst (pg_Read env db q opts) = Err e" for e
    using that by (auto simp: pg_Read_def read_between_def open_cursor_no_leak split: outcome.splits if_splits)
  show "\<not> is_panic (fst (pg_Read env db q opts))" if "after_in_range opts"
    using that barrier by (auto simp: pg_Read_def read_between_def open_cursor_no_panic split: outcome.splits)
  show "is_panic (fst (pg_Read healthy_read db q opts))" and "snd (pg_Read healthy_read db q opts) = 1"
    if "\<not> after_in_range opts"
    using that by (auto simp: after_in_range_def pg_Read_def read_between_def open_cursor_unfold healthy_read_def barrierSnapshot_def
        barrier_hwm_def plan_read_def positionToInt64_eq Let_def split: if_splits)
qed

theorem pg_Read_no_leak_witness:
  "is_panic (fst (pg_Read healthy_read empty_db QueryAll
     \<lparr>Backwards = False, readAfter = Some (SequencePosition (2 ^ 63)), Limit = 0\<rparr>))"
proof -
  have "\<not> after_in_range \<lparr>Backwards = False, readAfter = Some (SequencePosition (2 ^ 63)), Limit = 0\<rparr>"
    by (simp add: after_in_range_def)
  then show ?thesis using pg_Read_no_leak by blast
qed

end
