(* ===== verification/Stores_Agree.thy ===== *)
theory Stores_Agree
  imports Memory_Subscribe Pg_Read
begin

text \<open>
  The two implementations of \<open>eventstore.Store\<close> side by side: a simulation between the
  in-memory store and the PostgreSQL store. Related states hold the same events at the same
  positions, up to the normal form of stored payloads; appends give equal results and related
  states, and reads return the same events.
\<close>

definition as_stored :: "SequencedEvent \<Rightarrow> SequencedEvent" where
  "as_stored se = se\<lparr>seEvent := stored_event (seEvent se)\<rparr>"

definition stores_related :: "Mem \<Rightarrow> PgDb \<Rightarrow> bool" where
  "stores_related m db \<longleftrightarrow>
     mem_ok m \<and> db_ok db
     \<and> seq_hwm (db_seq db) = uint (pos_value (lastPosition (store_events (mem_store m))))
     \<and> db_log db = map as_stored (store_events (mem_store m))"

lemma stored_event_matches [simp]:
  "query_matches q (stored_event ev) \<longleftrightarrow> query_matches q ev"
  "query_overlaps q (stored_event ev) \<longleftrightarrow> query_overlaps q ev"
  by (simp_all add: query_matches_def item_matches_def query_overlaps_def item_overlaps_def stored_event_def)

lemma as_stored_simps [simp]:
  "sePosition (as_stored se) = sePosition se" "seEvent (as_stored se) = stored_event (seEvent se)"
  by (simp_all add: as_stored_def)

lemma first_violated_as_stored: "first_violated i (map as_stored lg) cmds = first_violated i lg cmds"
  by (induction cmds arbitrary: i) (auto simp: condition_violated_by_def split: option.splits)

lemma uint_add_of_nat:
  fixes c :: uint64
  assumes "uint c + int n \<le> bigint_max"
  shows "uint (c + of_nat n) = uint c + int n"
proof -
  have int_c: "int (unat w) = uint w" for w :: uint64 by simp
  have "unat c + n < 18446744073709551616"
    using assms int_c [of c] unfolding bigint_max_def by linarith
  then have "unat (c + of_nat n) = unat c + n" by (simp add: unat_word_ariths unat_of_nat)
  then show ?thesis using int_c [of c] int_c [of "c + of_nat n"] by linarith
qed

lemma numbered_decoded:
  assumes "\<forall>ev \<in> set evs. storable_event ev" and "uint counter = p" and "p + int (length evs) \<le> bigint_max"
  shows "concat (map decoded (numbered_rows p evs)) = map as_stored (numbered counter evs)"
  using assms
proof (induction evs arbitrary: p counter)
  case (Cons ev evs)
  have p: "0 \<le> p" using Cons.prems(2) by auto
  have nxt: "uint (counter + 1) = p + 1"
    using uint_add_of_nat [of counter 1] Cons.prems by simp
  have "decoded (copy_row (p + 1) ev) = [\<lparr>seEvent = stored_event ev, sePosition = bigint_position (p + 1)\<rparr>]"
    using Cons.prems(1,3) p copy_row_decodes [of ev "p + 1"] by (simp add: decoded_def bigint_max_def)
  moreover have "bigint_position (p + 1) = SequencePosition (counter + 1)"
    unfolding bigint_position_def nxt [symmetric] by simp
  ultimately show ?case
    using Cons.IH [OF _ nxt] Cons.prems by (simp add: as_stored_def)
qed simp

text \<open>One append on related stores.\<close>

lemma append_agrees:
  assumes "stores_related m db" and "pg_storable s cmds" and "command_events cmds \<noteq> []"
    and "pg_room db (length (command_events cmds))"
  shows "fst (pg_Append s healthy db cmds) = fst (mem_Append None m cmds)
    \<and> stores_related (snd (mem_Append None m cmds)) (snd (pg_Append s healthy db cmds))"
proof -
  let ?evs = "command_events cmds" and ?last = "lastPosition (store_events (mem_store m))"
  let ?p = "seq_hwm (db_seq db)"
  have ok: "mem_ok m" "db_ok db" and p: "uint (pos_value ?last) = ?p"
    and log: "db_log db = map as_stored (store_events (mem_store m))"
    using assms(1) by (simp_all add: stores_related_def)
  have evs: "\<forall>ev \<in> set ?evs. storable_event ev" using assms(2) by (simp add: pg_storable_def)
  note room = assms(4) [unfolded pg_room_def]
  have last': "lastPosition (store_events (mem_store (appended m cmds)))
      = SequencePosition (pos_value ?last + of_nat (length ?evs))"
    using assms(3) by (simp add: appended_def lastPosition_last last_numbered)
  have sum: "uint (pos_value ?last + of_nat (length ?evs)) = ?p + int (length ?evs)"
    using uint_add_of_nat [of "pos_value ?last" "length ?evs"] p room by simp
  then have pos: "bigint_position (?p + int (length ?evs)) = SequencePosition (pos_value ?last + of_nat (length ?evs))"
    unfolding bigint_position_def sum [symmetric] by simp
  have "mem_room m (length ?evs)"
  proof -
    have "int (unat (pos_value ?last)) = ?p" using p by simp
    then have "unat (pos_value ?last) + length ?evs < 18446744073709551616"
      using room unfolding bigint_max_def by linarith
    then show ?thesis by (simp add: mem_room_def)
  qed
  then have "stores_related (appended m cmds) (pg_appended s db cmds)"
    using appended_ok [OF ok(1)] pg_appended_ok [OF ok(2) evs assms(4)] last' sum log
      numbered_decoded [OF evs p room]
    by (simp add: stores_related_def db_log_appended) (simp add: pg_appended_def appended_def Let_def seq_hwm_def)
  then show ?thesis
    using assms(1,3) ok pg_Append_eq [OF ok(2) assms(2)] assms(4) last' pos
    by (simp add: mem_Append_eq mem_ok_def log first_violated_as_stored split: option.splits)
qed

text \<open>
  C4: the stores are interchangeable for appends that carry events. From related states, any
  sequence of calls, each with storable commands and at least one event, gives the same list of
  results on both stores, errors and positions included, and leaves related states, while the
  sequence has room. A call without events need not agree: \<open>empty_append_differs\<close> below.
\<close>

theorem stores_append_agree:
  assumes "stores_related m db"
    and "\<forall>cmds \<in> set calls. pg_storable s cmds \<and> command_events cmds \<noteq> []"
    and "pg_room db (length (concat (map command_events calls)))"
  shows "fst (run_appends (pg_Append s healthy) db calls) = fst (run_appends (mem_Append None) m calls)
    \<and> stores_related (snd (run_appends (mem_Append None) m calls)) (snd (run_appends (pg_Append s healthy) db calls))"
  using assms
proof (induction calls arbitrary: m db)
  case (Cons cmds calls)
  let ?rest = "length (concat (map command_events calls))"
  have room: "pg_room db (length (command_events cmds) + ?rest)" using Cons.prems(3) by simp
  then have room1: "pg_room db (length (command_events cmds))" by (rule pg.room_mono)
  have one: "fst (pg_Append s healthy db cmds) = fst (mem_Append None m cmds)"
      "stores_related (snd (mem_Append None m cmds)) (snd (pg_Append s healthy db cmds))"
    using append_agrees [OF Cons.prems(1) _ _ room1] Cons.prems(2) by simp_all
  have "pg_room (snd (pg_Append s healthy db cmds)) ?rest"
    using room Cons.prems(1,2) pg_Append_eq [of db s cmds] room1
    by (auto simp: stores_related_def pg_room_def pg_appended_def Let_def seq_hwm_def split: option.splits)
  then show ?case
    using Cons.IH [OF one(2)] Cons.prems(2) one(1) by (simp add: Let_def case_prod_unfold)
qed simp

lemma empty_related: "stores_related (mem_New [] no_chans) empty_db"
  using mem_New_empty_ok
  by (simp add: stores_related_def mem_New_def make_chan_def SequencePositionInitial_def)

theorem stores_append_agree_witness:
  "let cmds = [\<lparr>cmdEvents = [event_of ''A'' [''x'']], cmdCondition = Some (condition_of [''A''] [''x''] None)\<rparr>]
   in fst (run_appends (pg_Append events_store healthy) empty_db [cmds, cmds])
      = fst (run_appends (mem_Append None) (mem_New [] no_chans) [cmds, cmds])"
proof -
  let ?cmds = "[\<lparr>cmdEvents = [event_of ''A'' [''x'']], cmdCondition = Some (condition_of [''A''] [''x''] None)\<rparr>]"
  have s: "\<forall>cmds \<in> set [?cmds, ?cmds]. pg_storable events_store cmds \<and> command_events cmds \<noteq> []"
    using scoped_command_storable by simp
  have r: "pg_room empty_db (length (concat (map command_events [?cmds, ?cmds])))"
    by (simp add: pg_room_def empty_db_def seq_hwm_def bigint_max_def)
  show ?thesis using stores_append_agree [OF empty_related s r] by simp
qed

text \<open>
  C21: reads agree too, when no item of the query has more than one tag: draining the read of
  either store gives the same events in the same order, payloads in stored form.
\<close>

theorem stores_read_agree:
  assumes "stores_related m db" and "constructed q" and "after_in_range opts"
    and "\<forall>item \<in> set (Items q). Tags_Len (itemTags item) \<le> 1"
  shows "\<exists>evs it it' jt jt'.
      mem_Read None m q opts = Ok it \<and> Collect_it sliceIterator_methods it = Some (Ok (evs, None), it')
    \<and> pg_Read healthy_read db q opts = (Ok jt, 1)
    \<and> Collect_it cursorIterator_methods jt = Some (Ok (map as_stored evs, None), jt')"
proof -
  note iff = one_tag_query [OF assms(4)]
  have log: "db_log db = map as_stored (store_events (mem_store m))" and "db_ok db"
    using assms(1) by (simp_all add: stores_related_def)
  let ?evs = "matchingEvents (store_events (mem_store m)) q opts"
  have eq: "read_view opts (filter (\<lambda>se. in_read_range opts (sePosition se) \<and> query_overlaps q (seEvent se)) (db_log db))
      = map as_stored ?evs"
    unfolding log matchingEvents_eq read_view_def [symmetric] map_read_view filter_map comp_def
    by (simp add: iff)
  obtain jt where jt: "pg_Read healthy_read db q opts = (Ok jt, 1)" "cursor_ok jt"
      "cursor_remaining jt = map as_stored ?evs" "cursor_fate jt = None"
    using pg_Read_iterator [OF \<open>db_ok db\<close> assms(2,3)] eq by auto
  let ?it = "\<lparr>slice_events = ?evs, slice_idx = 0\<rparr>"
  have "mem_Read None m q opts = Ok ?it" by (simp add: mem_Read_def)
  moreover obtain it' where "Collect_it sliceIterator_methods ?it = Some (Ok (?evs, None), it')"
    using slice.Collect_it_remaining [of ?it] by auto
  moreover obtain jt' where "Collect_it cursorIterator_methods jt = Some (Ok (map as_stored ?evs, None), jt')"
    using cursor.Collect_it_remaining [OF jt(2)] jt(3,4) by auto
  ultimately show ?thesis using jt(1) by blast
qed

theorem stores_read_agree_witness:
  "\<exists>evs it it' jt jt'.
      mem_Read None (mem_New [] no_chans) QueryAll \<lparr>Backwards = True, readAfter = None, Limit = 3\<rparr> = Ok it
    \<and> Collect_it sliceIterator_methods it = Some (Ok (evs, None), it')
    \<and> pg_Read healthy_read empty_db QueryAll \<lparr>Backwards = True, readAfter = None, Limit = 3\<rparr> = (Ok jt, 1)
    \<and> Collect_it cursorIterator_methods jt = Some (Ok (map as_stored evs, None), jt')"
proof -
  have a: "after_in_range \<lparr>Backwards = True, readAfter = None, Limit = 3\<rparr>" by (simp add: after_in_range_def)
  have t: "\<forall>item \<in> set (Items QueryAll). Tags_Len (itemTags item) \<le> 1" by (simp add: Items_def QueryAll_def)
  show ?thesis by (rule stores_read_agree [OF empty_related constructed_QueryAll a t])
qed

text \<open>
  The restriction to appends with events is needed. For a violated condition that carries no
  events the in-memory store reports the violation, and the PostgreSQL store that there is
  nothing to append.
\<close>

theorem empty_append_differs:
  assumes "ValidateAppendCondition c = None"
    and "anyMatchAfter (store_events (mem_store m)) (FailIfEventsMatch c) (condAfter c)"
  shows "fst (mem_Append None m [\<lparr>cmdEvents = [], cmdCondition = Some c\<rparr>])
      = Err (ConditionViolated \<lparr>errCondition = c, errCommandIndex = None\<rparr>)
    \<and> fst (pg_Append s env db [\<lparr>cmdEvents = [], cmdCondition = Some c\<rparr>]) = Err ZeroEvents"
  using assms by (simp add: mem_Append_def pg_Append_def Let_def)

end
