(* ===== verification/Conformance.thy ===== *)
theory Conformance
  imports Store_Contract "HOL-Library.Monad_Syntax" "HOL-Library.Multiset"
begin

text \<open>
  The conformance suite \<open>eventstore/eventstoretest\<close>: its helpers and the test cases for
  appends, reads and concurrency. A store under test is a record of the methods of
  \<open>eventstore.Store\<close> over its state; a test case is a function on a fresh store that says
  whether the case passes. A case is a computation in \<open>option\<close>: a failed \<open>require\<close> or
  \<open>assert\<close>, an unexpected error and a panic all give \<open>None\<close> (that \<open>assert\<close> lets
  the rest of the case run does not change its verdict). The context of the tests is live.

  The goroutines of a concurrency case each make one append; appends are atomic, so a run is
  the order in which they take effect, which is an argument of the case.
\<close>

section \<open>The interface under test\<close>

text \<open>
  What a pass of the loop inside \<open>Next\<close> of a subscription can do: return true with an event,
  go on, block until something happens, or return false.
\<close>

datatype sub_pass = Yield SequencedEvent | Continue | Blocked | Finished

record ('st, 'it, 'sub) store_api =
  api_Append :: "'st \<Rightarrow> AppendCommand list \<Rightarrow> (error, SequencePosition) outcome \<times> 'st"
  api_Read :: "'st \<Rightarrow> Query \<Rightarrow> ReadOptions \<Rightarrow> (error, 'it) outcome"
  api_iterator :: "'it EventIterator"
  api_Subscribe :: "'st \<Rightarrow> Query \<Rightarrow> SubscribeOptions \<Rightarrow> (error, 'sub) outcome"
  api_pass :: "bool \<Rightarrow> 'st \<Rightarrow> 'sub \<Rightarrow> sub_pass \<times> 'sub"
  api_Err :: "'sub \<Rightarrow> error option"
  api_Close :: "'sub \<Rightarrow> 'sub"

section \<open>Test cases as computations\<close>

definition require :: "bool \<Rightarrow> unit option" where
  "require b = (if b then Some () else None)"

definition passes :: "'a option \<Rightarrow> bool" where
  "passes t \<longleftrightarrow> t \<noteq> None"

fun no_error :: "(error, 'a) outcome \<times> 'st \<Rightarrow> ('a \<times> 'st) option" where
  "no_error (Ok x, s) = Some (x, s)"
| "no_error (Err e, s) = None"
| "no_error (Panic m, s) = None"

fun right_of :: "'e + 'a \<Rightarrow> 'a option" where
  "right_of (Inr x) = Some x"
| "right_of (Inl e) = None"

fun condition_error :: "(error, 'a) outcome \<Rightarrow> AppendConditionError option" where
  "condition_error (Err (ConditionViolated c)) = Some c"
| "condition_error r = None"

definition plain_command :: "Event list \<Rightarrow> AppendCommand" where
  "plain_command evs = \<lparr>cmdEvents = evs, cmdCondition = None\<rparr>"

definition read_all :: ReadOptions where
  "read_all = \<lparr>Backwards = False, readAfter = None, Limit = 0\<rparr>"

lemma require_bind [simp]:
  "Option.bind (require b) f = (if b then f () else None)"
  by (simp add: require_def)

lemma passes_simps [simp]:
  "passes None = False" "passes (Some x) = True" "passes (require b) = b"
  "passes (if b then t else None) \<longleftrightarrow> b \<and> passes t"
  by (simp_all add: passes_def require_def)

section \<open>Helpers\<close>

definition mustEvent :: "string \<Rightarrow> string list \<Rightarrow> Event option" where
  "mustEvent eventType tags = do {
     tagSet \<leftarrow> right_of (TagsFrom tags);
     Some \<lparr>evType = eventType, evTags = tagSet, evData = None, evMetadata = None\<rparr> }"

definition mustQuery :: "string list \<Rightarrow> string list \<Rightarrow> Query option" where
  "mustQuery types tags = do {
     tagSet \<leftarrow> right_of (TagsFrom tags);
     query \<leftarrow> right_of (QueryFromItems [\<lparr>itemTypes = types, itemTags = tagSet\<rparr>]);
     Some query }"

definition scopedCondition ::
  "string list \<Rightarrow> string list \<Rightarrow> SequencePosition option \<Rightarrow> AppendCondition option" where
  "scopedCondition types tags after = do {
     query \<leftarrow> mustQuery types tags;
     Some \<lparr>FailIfEventsMatch = query, condAfter = after\<rparr> }"

definition mustAppendEvent ::
  "('st, 'it, 'sub) store_api \<Rightarrow> 'st \<Rightarrow> string \<Rightarrow> string list \<Rightarrow> (SequencePosition \<times> 'st) option" where
  "mustAppendEvent api store eventType tags = do {
     ev \<leftarrow> mustEvent eventType tags;
     (pos, store) \<leftarrow> no_error (api_Append api store [plain_command [ev]]);
     Some (pos, store) }"

text \<open>\<open>eventstore.Collect\<close> followed by \<open>require.NoError\<close>, and a read drained by it.\<close>

definition collect_all :: "'it EventIterator \<Rightarrow> 'it \<Rightarrow> SequencedEvent list option" where
  "collect_all I it =
     (case Collect_it I it of Some (Ok (events, None), _) \<Rightarrow> Some events | _ \<Rightarrow> None)"

definition mustRead ::
  "('st, 'it, 'sub) store_api \<Rightarrow> 'st \<Rightarrow> Query \<Rightarrow> ReadOptions \<Rightarrow> SequencedEvent list option" where
  "mustRead api store query opts = do {
     (it, _) \<leftarrow> no_error (api_Read api store query opts, ());
     collect_all (api_iterator api) it }"

definition comparePosition :: "SequencedEvent \<Rightarrow> SequencedEvent \<Rightarrow> int" where
  "comparePosition a b = CompareSequencePosition (sePosition a) (sePosition b)"

definition positionsOf :: "SequencedEvent list \<Rightarrow> SequencePosition list" where
  "positionsOf events = map sePosition events"

text \<open>\<open>slices.IsSortedFunc\<close>: no element compares below its predecessor.\<close>

fun IsSortedFunc :: "('a \<Rightarrow> 'a \<Rightarrow> int) \<Rightarrow> 'a list \<Rightarrow> bool" where
  "IsSortedFunc cmp (x # y # ys) = (if cmp y x < 0 then False else IsSortedFunc cmp (y # ys))"
| "IsSortedFunc cmp xs = True"

fun seed_loop ::
  "('st, 'it, 'sub) store_api \<Rightarrow> (string \<times> string) list \<Rightarrow> 'st \<Rightarrow> SequencePosition list \<Rightarrow>
     (SequencePosition list \<times> 'st) option" where
  "seed_loop api [] store positions = Some (positions, store)"
| "seed_loop api ((eventType, tag) # evs) store positions = do {
     (pos, store) \<leftarrow> mustAppendEvent api store eventType [tag];
     seed_loop api evs store (positions @ [pos]) }"

definition seedABB :: "('st, 'it, 'sub) store_api \<Rightarrow> 'st \<Rightarrow> (SequencePosition list \<times> 'st) option" where
  "seedABB api store =
     seed_loop api [(''A'', ''tag-1''), (''B'', ''tag-2''), (''B'', ''tag-3'')] store []"

section \<open>Append\<close>

definition append_after_initial_case :: "('st, 'it, 'sub) store_api \<Rightarrow> 'st \<Rightarrow> bool" where
  "append_after_initial_case api store = passes (do {
     a \<leftarrow> mustEvent ''A'' [];
     (pos, store) \<leftarrow> no_error (api_Append api store [plain_command [a]]);
     require (IsAfter pos SequencePositionInitial) })"

definition append_increasing_case :: "('st, 'it, 'sub) store_api \<Rightarrow> 'st \<Rightarrow> bool" where
  "append_increasing_case api store = passes (do {
     a \<leftarrow> mustEvent ''A'' [];
     (pos1, store) \<leftarrow> no_error (api_Append api store [plain_command [a]]);
     b \<leftarrow> mustEvent ''B'' [];
     (pos2, store) \<leftarrow> no_error (api_Append api store [plain_command [b]]);
     require (IsAfter pos2 pos1) })"

definition append_last_position_case :: "('st, 'it, 'sub) store_api \<Rightarrow> 'st \<Rightarrow> bool" where
  "append_last_position_case api store = passes (do {
     a \<leftarrow> mustEvent ''A'' []; b \<leftarrow> mustEvent ''B'' []; c \<leftarrow> mustEvent ''C'' [];
     (pos, store) \<leftarrow> no_error (api_Append api store [plain_command [a, b, c]]);
     events \<leftarrow> mustRead api store QueryAll read_all;
     require (length events = 3);
     require (pos = sePosition (events ! 2)) })"

fun rejected_plainly :: "(error, 'a) outcome \<times> 'st \<Rightarrow> bool" where
  "rejected_plainly (Err e, s) = (\<not> is_condition_error e)"
| "rejected_plainly (r, s) = False"

definition append_rejects_case :: "('st, 'it, 'sub) store_api \<Rightarrow> 'st \<Rightarrow> bool" where
  "append_rejects_case api store = passes (do {
     a \<leftarrow> mustEvent ''A'' [];
     let tests =
       [[], [plain_command []],
        [\<lparr>cmdEvents = [a], cmdCondition = Some \<lparr>FailIfEventsMatch = QueryAll, condAfter = None\<rparr>\<rparr>]];
     require (list_all (\<lambda>commands. rejected_plainly (api_Append api store commands)) tests) })"

definition append_unmatched_case :: "('st, 'it, 'sub) store_api \<Rightarrow> 'st \<Rightarrow> bool" where
  "append_unmatched_case api store = passes (do {
     a \<leftarrow> mustEvent ''A'' [''tag-1''];
     condition \<leftarrow> scopedCondition [''A''] [''tag-1''] None;
     no_error (api_Append api store [\<lparr>cmdEvents = [a], cmdCondition = Some condition\<rparr>]) })"

definition append_violated_case :: "('st, 'it, 'sub) store_api \<Rightarrow> 'st \<Rightarrow> bool" where
  "append_violated_case api store = passes (do {
     a \<leftarrow> mustEvent ''A'' [''tag-1''];
     (_, store) \<leftarrow> no_error (api_Append api store [plain_command [a]]);
     condition \<leftarrow> scopedCondition [''A''] [''tag-1''] None;
     conditionErr \<leftarrow> condition_error (fst (api_Append api store
       [\<lparr>cmdEvents = [a], cmdCondition = Some condition\<rparr>]));
     require (errCommandIndex conditionErr = None);
     require (condition = errCondition conditionErr) })"

definition append_after_case :: "('st, 'it, 'sub) store_api \<Rightarrow> 'st \<Rightarrow> bool" where
  "append_after_case api store = passes (do {
     a \<leftarrow> mustEvent ''A'' [''tag-1''];
     (posA, store) \<leftarrow> no_error (api_Append api store [plain_command [a]]);
     b \<leftarrow> mustEvent ''B'' [''tag-1''];
     condition \<leftarrow> scopedCondition [''A''] [''tag-1''] (Some posA);
     no_error (api_Append api store [\<lparr>cmdEvents = [b], cmdCondition = Some condition\<rparr>]) })"

definition append_atomic_case :: "('st, 'it, 'sub) store_api \<Rightarrow> 'st \<Rightarrow> bool" where
  "append_atomic_case api store = passes (do {
     a \<leftarrow> mustEvent ''A'' [''tag-1''];
     (_, store) \<leftarrow> no_error (api_Append api store [plain_command [a]]);
     condition \<leftarrow> scopedCondition [''A''] [''tag-1''] None;
     b \<leftarrow> mustEvent ''B'' []; c \<leftarrow> mustEvent ''C'' [];
     let (result, store) = api_Append api store
       [plain_command [b], \<lparr>cmdEvents = [c], cmdCondition = Some condition\<rparr>];
     conditionErr \<leftarrow> condition_error result;
     require (errCommandIndex conditionErr = Some 1);
     require (condition = errCondition conditionErr);
     events \<leftarrow> mustRead api store QueryAll read_all;
     require (length events = 1) })"

definition testAppend :: "('st, 'it, 'sub) store_api \<Rightarrow> 'st \<Rightarrow> bool" where
  "testAppend api newStore \<longleftrightarrow>
     append_after_initial_case api newStore \<and> append_increasing_case api newStore
     \<and> append_last_position_case api newStore \<and> append_rejects_case api newStore
     \<and> append_unmatched_case api newStore \<and> append_violated_case api newStore
     \<and> append_after_case api newStore \<and> append_atomic_case api newStore"

section \<open>Read\<close>

definition largeN :: nat where
  "largeN = 100000"

definition numbered_event :: "nat \<Rightarrow> Event" where
  "numbered_event i = \<lparr>evType = ''A'', evTags = EmptyTags, evData = Some (format_nat i), evMetadata = None\<rparr>"

definition read_large_case :: "('st, 'it, 'sub) store_api \<Rightarrow> 'st \<Rightarrow> bool" where
  "read_large_case api store = passes (do {
     let events = map numbered_event [0..<largeN];
     (_, store) \<leftarrow> no_error (api_Append api store [plain_command events]);
     got \<leftarrow> mustRead api store QueryAll read_all;
     require (length got = largeN);
     require (list_all (\<lambda>(i, ev). evData (seEvent ev) = Some (format_nat i)) (zip [0..<largeN] got)) })"

definition read_empty_case :: "('st, 'it, 'sub) store_api \<Rightarrow> 'st \<Rightarrow> bool" where
  "read_empty_case api store =
     list_all (\<lambda>backwards. passes (do {
         events \<leftarrow> mustRead api store QueryAll (read_all\<lparr>Backwards := backwards\<rparr>);
         require (events = []) }))
       [False, True]"

definition read_snapshot_case :: "('st, 'it, 'sub) store_api \<Rightarrow> 'st \<Rightarrow> bool" where
  "read_snapshot_case api store = passes (do {
     (_, store) \<leftarrow> mustAppendEvent api store ''A'' [];
     (it, _) \<leftarrow> no_error (api_Read api store QueryAll read_all, ());
     (_, store) \<leftarrow> mustAppendEvent api store ''B'' [];
     events \<leftarrow> collect_all (api_iterator api) it;
     require (length events = 1);
     require (evType (seEvent (events ! 0)) = ''A'') })"

definition read_ascending_case :: "('st, 'it, 'sub) store_api \<Rightarrow> 'st \<Rightarrow> bool" where
  "read_ascending_case api store = passes (do {
     (positions, store) \<leftarrow> seedABB api store;
     events \<leftarrow> mustRead api store QueryAll read_all;
     require (length events = 3);
     require (IsSortedFunc comparePosition events) })"

definition read_backwards_case :: "('st, 'it, 'sub) store_api \<Rightarrow> 'st \<Rightarrow> bool" where
  "read_backwards_case api store = passes (do {
     (positions, store) \<leftarrow> seedABB api store;
     events \<leftarrow> mustRead api store QueryAll (read_all\<lparr>Backwards := True\<rparr>);
     require (length events = 3);
     require (IsSortedFunc (\<lambda>a b. comparePosition b a) events) })"

definition read_after_case :: "('st, 'it, 'sub) store_api \<Rightarrow> 'st \<Rightarrow> bool" where
  "read_after_case api store = passes (do {
     (positions, store) \<leftarrow> seedABB api store;
     events \<leftarrow> mustRead api store QueryAll (read_all\<lparr>readAfter := Some (positions ! 1)\<rparr>);
     require (length events = 1);
     require (positions ! 2 = sePosition (events ! 0)) })"

definition read_after_backwards_case :: "('st, 'it, 'sub) store_api \<Rightarrow> 'st \<Rightarrow> bool" where
  "read_after_backwards_case api store = passes (do {
     (positions, store) \<leftarrow> seedABB api store;
     events \<leftarrow> mustRead api store QueryAll (read_all\<lparr>readAfter := Some (positions ! 1), Backwards := True\<rparr>);
     require (length events = 1);
     require (positions ! 0 = sePosition (events ! 0)) })"

definition read_after_first_backwards_case :: "('st, 'it, 'sub) store_api \<Rightarrow> 'st \<Rightarrow> bool" where
  "read_after_first_backwards_case api store = passes (do {
     (positions, store) \<leftarrow> seedABB api store;
     events \<leftarrow> mustRead api store QueryAll (read_all\<lparr>readAfter := Some (positions ! 0), Backwards := True\<rparr>);
     require (events = []) })"

definition read_type_case :: "('st, 'it, 'sub) store_api \<Rightarrow> 'st \<Rightarrow> bool" where
  "read_type_case api store = passes (do {
     (positions, store) \<leftarrow> seedABB api store;
     query \<leftarrow> right_of (QueryFromItems [\<lparr>itemTypes = [''B''], itemTags = EmptyTags\<rparr>]);
     events \<leftarrow> mustRead api store query read_all;
     require (length events = 2);
     require (drop 1 positions = positionsOf events) })"

definition read_or_case :: "('st, 'it, 'sub) store_api \<Rightarrow> 'st \<Rightarrow> bool" where
  "read_or_case api store = passes (do {
     (positions, store) \<leftarrow> seedABB api store;
     query \<leftarrow> right_of (QueryFromItems
       [\<lparr>itemTypes = [''B''], itemTags = EmptyTags\<rparr>, \<lparr>itemTypes = [''A''], itemTags = EmptyTags\<rparr>]);
     events \<leftarrow> mustRead api store query read_all;
     require (positions = positionsOf events) })"

definition read_tag_case :: "('st, 'it, 'sub) store_api \<Rightarrow> 'st \<Rightarrow> bool" where
  "read_tag_case api store = passes (do {
     (positions, store) \<leftarrow> seedABB api store;
     query \<leftarrow> mustQuery [''A'', ''B''] [''tag-2''];
     events \<leftarrow> mustRead api store query read_all;
     require (length events = 1);
     require (positions ! 1 = sePosition (events ! 0)) })"

definition read_other_tag_case :: "('st, 'it, 'sub) store_api \<Rightarrow> 'st \<Rightarrow> bool" where
  "read_other_tag_case api store = passes (do {
     (positions, store) \<leftarrow> seedABB api store;
     query \<leftarrow> mustQuery [''A'', ''B''] [''unmatched''];
     events \<leftarrow> mustRead api store query read_all;
     require (events = []) })"

definition read_superset_case :: "('st, 'it, 'sub) store_api \<Rightarrow> 'st \<Rightarrow> bool" where
  "read_superset_case api store = passes (do {
     (pos, store) \<leftarrow> mustAppendEvent api store ''A'' [''tag-1'', ''tag-2''];
     query \<leftarrow> mustQuery [''A''] [''tag-1''];
     events \<leftarrow> mustRead api store query read_all;
     require (length events = 1);
     require (pos = sePosition (events ! 0)) })"

definition read_and_case :: "('st, 'it, 'sub) store_api \<Rightarrow> 'st \<Rightarrow> bool" where
  "read_and_case api store = passes (do {
     (_, store) \<leftarrow> mustAppendEvent api store ''A'' [''tag-2''];
     (_, store) \<leftarrow> mustAppendEvent api store ''B'' [''tag-1''];
     query \<leftarrow> mustQuery [''A''] [''tag-1''];
     events \<leftarrow> mustRead api store query read_all;
     require (events = []) })"

definition read_limit_case :: "('st, 'it, 'sub) store_api \<Rightarrow> 'st \<Rightarrow> bool" where
  "read_limit_case api store = passes (do {
     (positions, store) \<leftarrow> seedABB api store;
     events \<leftarrow> mustRead api store QueryAll (read_all\<lparr>Limit := 1\<rparr>);
     require (length events = 1);
     require (positions ! 0 = sePosition (events ! 0)) })"

definition read_limit_backwards_case :: "('st, 'it, 'sub) store_api \<Rightarrow> 'st \<Rightarrow> bool" where
  "read_limit_backwards_case api store = passes (do {
     (positions, store) \<leftarrow> seedABB api store;
     events \<leftarrow> mustRead api store QueryAll (read_all\<lparr>Limit := 1, Backwards := True\<rparr>);
     require (length events = 1);
     require (positions ! 2 = sePosition (events ! 0)) })"

definition read_after_limit_case :: "('st, 'it, 'sub) store_api \<Rightarrow> 'st \<Rightarrow> bool" where
  "read_after_limit_case api store = passes (do {
     (positions, store) \<leftarrow> seedABB api store;
     events \<leftarrow> mustRead api store QueryAll (read_all\<lparr>readAfter := Some (positions ! 0), Limit := 1\<rparr>);
     require (length events = 1);
     require (positions ! 1 = sePosition (events ! 0)) })"

definition read_after_type_limit_case :: "('st, 'it, 'sub) store_api \<Rightarrow> 'st \<Rightarrow> bool" where
  "read_after_type_limit_case api store = passes (do {
     (positions, store) \<leftarrow> seedABB api store;
     query \<leftarrow> right_of (QueryFromItems [\<lparr>itemTypes = [''B''], itemTags = EmptyTags\<rparr>]);
     events \<leftarrow> mustRead api store query (read_all\<lparr>readAfter := Some (positions ! 0), Limit := 1\<rparr>);
     require (length events = 1);
     require (positions ! 1 = sePosition (events ! 0)) })"

definition testRead :: "('st, 'it, 'sub) store_api \<Rightarrow> 'st \<Rightarrow> bool" where
  "testRead api newStore \<longleftrightarrow>
     read_large_case api newStore \<and> read_empty_case api newStore \<and> read_snapshot_case api newStore
     \<and> read_ascending_case api newStore \<and> read_backwards_case api newStore
     \<and> read_after_case api newStore \<and> read_after_backwards_case api newStore
     \<and> read_after_first_backwards_case api newStore \<and> read_type_case api newStore
     \<and> read_or_case api newStore \<and> read_tag_case api newStore \<and> read_other_tag_case api newStore
     \<and> read_superset_case api newStore \<and> read_and_case api newStore \<and> read_limit_case api newStore
     \<and> read_limit_backwards_case api newStore \<and> read_after_limit_case api newStore
     \<and> read_after_type_limit_case api newStore"

section \<open>Concurrency\<close>

text \<open>
  \<open>concurrently\<close>: the goroutines in the order in which their calls take effect; each one
  writes its result at its own index.
\<close>

fun concurrently :: "nat list \<Rightarrow> ('st \<Rightarrow> nat \<Rightarrow> 'r \<times> 'st) \<Rightarrow> 'st \<Rightarrow> 'r list \<Rightarrow> 'r list \<times> 'st" where
  "concurrently [] fn store results = (results, store)"
| "concurrently (i # order) fn store results =
     (let (r, store') = fn store i in concurrently order fn store' (results[i := r]))"

definition allDistinct :: "SequencePosition list \<Rightarrow> bool" where
  "allDistinct positions \<longleftrightarrow>
     card (set (map SequencePosition_String positions)) = length positions"

definition racers :: nat where
  "racers = 20"

text \<open>The zero values of the two result slices: a nil error and the initial position.\<close>

definition no_results :: "(error, SequencePosition) outcome list" where
  "no_results = replicate racers (Ok SequencePositionInitial)"

fun succeeded :: "('e, 'a) outcome \<Rightarrow> bool" where
  "succeeded (Ok x) = True"
| "succeeded r = False"

fun result_position :: "('e, SequencePosition) outcome \<Rightarrow> SequencePosition" where
  "result_position (Ok p) = p"
| "result_position r = SequencePositionInitial"

definition racing_case :: "nat list \<Rightarrow> ('st, 'it, 'sub) store_api \<Rightarrow> 'st \<Rightarrow> bool" where
  "racing_case order api store = passes (do {
     event \<leftarrow> mustEvent ''A'' [''race''];
     condition \<leftarrow> scopedCondition [''A''] [''race''] None;
     let (errs, store) = concurrently order
       (\<lambda>store i. api_Append api store [\<lparr>cmdEvents = [event], cmdCondition = Some condition\<rparr>])
       store no_results;
     require (list_all (\<lambda>r. succeeded r \<or> condition_error r \<noteq> None) errs);
     require (length (filter succeeded errs) = 1);
     require (length (filter (\<lambda>r. \<not> succeeded r) errs) = racers - 1);
     events \<leftarrow> mustRead api store QueryAll read_all;
     require (length events = 1) })"

definition scope_tag :: "nat \<Rightarrow> string" where
  "scope_tag i = ''tag-'' @ format_nat i"

definition disjoint_case :: "nat list \<Rightarrow> ('st, 'it, 'sub) store_api \<Rightarrow> 'st \<Rightarrow> bool" where
  "disjoint_case order api store = passes (do {
     events \<leftarrow> those (map (\<lambda>i. mustEvent ''A'' [scope_tag i]) [0..<racers]);
     conditions \<leftarrow> those (map (\<lambda>i. scopedCondition [''A''] [scope_tag i] None) [0..<racers]);
     let (results, store) = concurrently order
       (\<lambda>store i. api_Append api store [\<lparr>cmdEvents = [events ! i], cmdCondition = Some (conditions ! i)\<rparr>])
       store no_results;
     require (list_all succeeded results);
     require (allDistinct (map result_position results));
     readEvents \<leftarrow> mustRead api store QueryAll read_all;
     require (length readEvents = racers) })"

definition unconditional_case :: "nat list \<Rightarrow> ('st, 'it, 'sub) store_api \<Rightarrow> 'st \<Rightarrow> bool" where
  "unconditional_case order api store = passes (do {
     events \<leftarrow> those (map (\<lambda>i. mustEvent ''E'' []) [0..<racers]);
     let (results, store) = concurrently order
       (\<lambda>store i. api_Append api store [plain_command [events ! i]]) store no_results;
     require (list_all succeeded results);
     require (allDistinct (map result_position results));
     readEvents \<leftarrow> mustRead api store QueryAll read_all;
     require (length readEvents = racers);
     require (mset (map result_position results) = mset (positionsOf readEvents)) })"

definition testConcurrency :: "nat list \<Rightarrow> ('st, 'it, 'sub) store_api \<Rightarrow> 'st \<Rightarrow> bool" where
  "testConcurrency order api newStore \<longleftrightarrow>
     racing_case order api newStore \<and> disjoint_case order api newStore \<and> unconditional_case order api newStore"

end
