(* ===== verification/Conformance_Contract.thy ===== *)
theory Conformance_Contract
  imports Conformance
begin

text \<open>
  The conformance suite against the contract: every store that satisfies the append and read
  contracts, and stores the suite's own events, passes the append, read and concurrency cases.
  The locale \<open>suite_store\<close> is that contract for the record of methods the suite is run
  on; the case proofs are carried by three facts, what one more event does to the log, what the
  log is after seeding, and what a read of the log returns.
\<close>

section \<open>The data the suite uses\<close>

definition plain_tag :: "string \<Rightarrow> bool" where
  "plain_tag v \<longleftrightarrow> v \<noteq> [] \<and> list_all (\<lambda>c. 33 \<le> byte c \<and> byte c < 127) v"

definition plain_tags :: "Tags \<Rightarrow> bool" where
  "plain_tags t \<longleftrightarrow> (\<forall>v \<in> fset (tag_values t). plain_tag v)"

definition suite_event :: "Event \<Rightarrow> bool" where
  "suite_event ev \<longleftrightarrow>
     plain_tags (evTags ev) \<and> evMetadata ev = None
     \<and> (evData ev = None \<or> (\<exists>i. evData ev = Some (format_nat i)))"

definition suite_condition :: "SequencedEvent list \<Rightarrow> AppendCondition \<Rightarrow> bool" where
  "suite_condition lg c \<longleftrightarrow>
     (\<forall>item \<in> set (query_items (FailIfEventsMatch c)). plain_tags (itemTags item))
     \<and> (\<forall>p. condAfter c = Some p \<longrightarrow> p \<in> sePosition ` set lg)"

definition suite_commands :: "SequencedEvent list \<Rightarrow> AppendCommand list \<Rightarrow> bool" where
  "suite_commands lg cmds \<longleftrightarrow>
     length cmds \<le> 2
     \<and> (\<forall>cmd \<in> set cmds. (\<forall>ev \<in> set (cmdEvents cmd). suite_event ev)
          \<and> (\<forall>c. cmdCondition cmd = Some c \<longrightarrow> suite_condition lg c))"

lemma plain_tag_valid: "plain_tag v \<Longrightarrow> isValidTagToken v"
proof -
  assume p: "plain_tag v"
  then have "runes v = map byte v"
    by (intro runes_ascii) (auto simp: plain_tag_def list_all_iff)
  with p show ?thesis
    by (auto simp: plain_tag_def isValidTagToken_def ContainsFunc_def list_ex_iff list_all_iff IsSpace_def)
qed

lemma suite_tags [simp]:
  "plain_tag ''tag-1''" "plain_tag ''tag-2''" "plain_tag ''tag-3''" "plain_tag ''unmatched''" "plain_tag ''race''"
  by (simp_all add: plain_tag_def)

lemma plain_tag_scope_tag [simp]: "plain_tag (scope_tag i)"
proof -
  have "list_all (\<lambda>c. 33 \<le> byte c \<and> byte c < 127) s" if "all_digits s" for s
    using that by (auto simp: all_digits_def list_all_iff digit_val_def Let_def split: if_splits)
  from this [of "format_nat i"] show ?thesis
    by (simp add: plain_tag_def scope_tag_def)
qed

lemma mustEvent_eq: "list_all plain_tag tags \<Longrightarrow> mustEvent t tags = Some (event_of t tags)"
  using TagsFrom_Inr_iff [of tags "\<lparr>tag_values = fset_of_list tags\<rparr>"]
  by (simp add: mustEvent_def event_of_def list_all_iff plain_tag_valid)

lemma scopedCondition_eq:
  "list_all plain_tag tags \<Longrightarrow> types \<noteq> [] \<Longrightarrow>
     scopedCondition types tags after = Some (condition_of types tags after)"
  using TagsFrom_Inr_iff [of tags "\<lparr>tag_values = fset_of_list tags\<rparr>"]
  by (simp add: scopedCondition_def mustQuery_def condition_of_def list_all_iff plain_tag_valid QueryFromItems_def)

definition item_query :: "string list \<Rightarrow> string list \<Rightarrow> Query" where
  "item_query types tags =
     \<lparr>query_items = [\<lparr>itemTypes = types, itemTags = \<lparr>tag_values = fset_of_list tags\<rparr>\<rparr>], query_all = False\<rparr>"

lemma mustQuery_eq:
  "list_all plain_tag tags \<Longrightarrow> types \<noteq> [] \<Longrightarrow> mustQuery types tags = Some (item_query types tags)"
  using TagsFrom_Inr_iff [of tags "\<lparr>tag_values = fset_of_list tags\<rparr>"]
  by (simp add: mustQuery_def item_query_def list_all_iff plain_tag_valid QueryFromItems_def)

lemma constructed_item_query [simp]: "types \<noteq> [] \<Longrightarrow> constructed (item_query types tags)"
  unfolding constructed_def item_query_def
  by (rule disjI2, rule exI [of _ "[\<lparr>itemTypes = types, itemTags = \<lparr>tag_values = fset_of_list tags\<rparr>\<rparr>]"])
    (simp add: QueryFromItems_def)

lemma single_tags_simps [simp]:
  "single_tags QueryAll"
  "single_tags (item_query types [])" "single_tags (item_query types [tag])"
  by (simp_all add: single_tags_def Items_def QueryAll_def item_query_def Tags_Len_def fcard.rep_eq)

lemma event_of_suite [simp]: "list_all plain_tag tags \<Longrightarrow> suite_event (event_of t tags)"
  by (simp add: suite_event_def event_of_def plain_tags_def list_all_iff fset_of_list.rep_eq)

lemma condition_of_suite [simp]:
  "list_all plain_tag tags \<Longrightarrow> suite_condition lg (condition_of types tags None)"
  by (simp add: suite_condition_def condition_of_def plain_tags_def list_all_iff fset_of_list.rep_eq)

lemma condAfter_condition_of [simp]: "condAfter (condition_of types tags after) = after"
  by (simp add: condition_of_def)

lemma condition_of_scoped [simp]:
  "types \<noteq> [] \<Longrightarrow> condition_scoped (condition_of types (tag # tags) after)"
  by (simp add: condition_scoped_def condition_of_def item_scoped_def)

section \<open>A store the suite is run on\<close>

definition at :: "Event \<Rightarrow> SequencePosition \<Rightarrow> SequencedEvent" where
  "at ev p = \<lparr>seEvent = ev, sePosition = p\<rparr>"

lemma at_simps [simp]: "seEvent (at ev p) = ev" "sePosition (at ev p) = p"
  by (simp_all add: at_def)

locale suite_store = event_store append lg invar room storable stored read methods
  for append :: "'st \<Rightarrow> AppendCommand list \<Rightarrow> (error, SequencePosition) outcome \<times> 'st"
    and lg :: "'st \<Rightarrow> SequencedEvent list"
    and invar :: "'st \<Rightarrow> bool"
    and room :: "'st \<Rightarrow> nat \<Rightarrow> bool"
    and storable :: "AppendCommand list \<Rightarrow> bool"
    and stored :: "Event \<Rightarrow> Event"
    and read :: "'st \<Rightarrow> Query \<Rightarrow> ReadOptions \<Rightarrow> (error, 'it) outcome"
    and methods :: "'it EventIterator" +
  fixes api :: "('st, 'it, 'sub) store_api"
  assumes api_operations: "api_Append api = append" "api_Read api = read" "api_iterator api = methods"
    and suite_storable: "invar s \<Longrightarrow> suite_commands (lg s) cmds \<Longrightarrow> storable cmds"
    and stored_data: "evData ev = Some d \<Longrightarrow> evData (stored ev) = Some d"
begin

definition fresh :: "'st \<Rightarrow> bool" where
  "fresh s \<longleftrightarrow> invar s \<and> lg s = [] \<and> room s largeN"

lemma fresh_room: "fresh s \<Longrightarrow> n \<le> largeN \<Longrightarrow> room s n"
  using room_mono [of s n "largeN - n"] by (simp add: fresh_def)

lemma append_commands:
  assumes "invar s" and "suite_commands (lg s) cmds" and "room s (length (command_events cmds) + n)"
    and "conditions_scoped cmds" and "command_events cmds \<noteq> []"
    and "\<forall>cmd \<in> set cmds. \<not> command_violated (lg s) cmd"
  obtains s' new where "append s cmds = (Ok (sePosition (last new)), s')" "lg s' = lg s @ new"
    "map seEvent new = map stored (command_events cmds)" "invar s'" "room s' n"
    "SequencePositionInitial < sePosition (last new)" "positions_ascend (lg s @ new)"
proof -
  note st = suite_storable [OF assms(1,2)]
  note rm = room_mono [OF assms(3)]
  obtain s' new where *: "append s cmds = (Ok (sePosition (last new)), s')" "lg s' = lg s @ new"
      "map seEvent new = map stored (command_events cmds)" "invar s'"
      "\<forall>n. room s (length (command_events cmds) + n) \<longrightarrow> room s' n"
    using append_succeeds [OF assms(1) st rm assms(4-6)] by blast
  show thesis
    using that [OF *(1-4) _ append_after_initial [OF assms(1) st rm *(1)]] *(2,4,5) assms(3) log_ascends [of s']
    by simp
qed

lemma append_commands_ok:
  assumes "invar s" and "suite_commands (lg s) cmds" and "room s (length (command_events cmds) + n)"
    and "conditions_scoped cmds" and "command_events cmds \<noteq> []"
    and "\<forall>cmd \<in> set cmds. \<not> command_violated (lg s) cmd"
  shows "\<exists>p s'. append s cmds = (Ok p, s')"
  by (rule append_commands [OF assms]) blast

lemma append_event:
  assumes "invar s" and "room s (Suc n)" and "list_all plain_tag tags"
  obtains p s' where "append s [plain_command [event_of t tags]] = (Ok p, s')"
    "lg s' = lg s @ [at (stored (event_of t tags)) p]" "invar s'" "room s' n"
    "SequencePositionInitial < p" "positions_ascend (lg s @ [at (stored (event_of t tags)) p])"
proof -
  let ?cmds = "[plain_command [event_of t tags]]"
  have suite: "suite_commands (lg s) ?cmds"
    using assms(3) by (simp add: suite_commands_def plain_command_def)
  have rm: "room s (length (command_events ?cmds) + n)"
    using assms(2) by (simp add: plain_command_def)
  obtain s' new where *: "append s ?cmds = (Ok (sePosition (last new)), s')" "lg s' = lg s @ new"
      "map seEvent new = map stored (command_events ?cmds)" "invar s'" "room s' n"
      "SequencePositionInitial < sePosition (last new)" "positions_ascend (lg s @ new)"
    by (rule append_commands [OF assms(1) suite rm])
      (simp_all add: plain_command_def command_violated_def)
  then obtain se where "new = [se]" "seEvent se = stored (event_of t tags)"
    by (cases new) (auto simp: plain_command_def)
  then have "new = [at (stored (event_of t tags)) (sePosition se)]" by (simp add: at_def)
  with * show thesis by (intro that) auto
qed

lemma mustAppendEvent_step:
  assumes "invar s" and "room s (Suc n)" and "list_all plain_tag tags"
  obtains p s' where "mustAppendEvent api s t tags = Some (p, s')"
    "lg s' = lg s @ [at (stored (event_of t tags)) p]" "invar s'" "room s' n"
    "SequencePositionInitial < p" "positions_ascend (lg s')"
proof -
  obtain p s' where "append s [plain_command [event_of t tags]] = (Ok p, s')"
      "lg s' = lg s @ [at (stored (event_of t tags)) p]" "invar s'" "room s' n" "SequencePositionInitial < p"
    by (rule append_event [OF assms])
  then show thesis
    using log_ascends [of s'] assms(3) by (intro that [of p s']) (simp_all add: mustAppendEvent_def mustEvent_eq api_operations)
qed

lemma read_drains:
  assumes "invar s" and "constructed q" and "single_tags q" and "known_after (lg s) opts"
  obtains it where "read s q opts = Ok it"
    "collect_all methods it = Some (read_view opts (filter (\<lambda>se. in_read_range opts (sePosition se)
                                         \<and> query_matches q (seEvent se)) (lg s)))"
  using read_selects [OF assms] by (auto simp: collect_all_def)

lemma mustRead_eq:
  assumes "invar s" and "constructed q" and "single_tags q" and "known_after (lg s) opts"
  shows "mustRead api s q opts = Some (read_view opts (filter (\<lambda>se. in_read_range opts (sePosition se)
                                         \<and> query_matches q (seEvent se)) (lg s)))"
  by (rule read_drains [OF assms]) (simp add: mustRead_def api_operations)

lemma mustRead_all [simp]:
  "invar s \<Longrightarrow> mustRead api s QueryAll read_all = Some (lg s)"
  by (simp add: mustRead_eq constructed_def known_after_def read_all_def read_view_def limited_def in_read_range_def)

lemma seeded:
  assumes "fresh s"
  obtains p1 p2 p3 s' where "seedABB api s = Some ([p1, p2, p3], s')" "invar s'"
    "lg s' = [at (stored (event_of ''A'' [''tag-1''])) p1, at (stored (event_of ''B'' [''tag-2''])) p2,
              at (stored (event_of ''B'' [''tag-3''])) p3]"
    "p1 < p2" "p2 < p3" "p1 < p3"
proof -
  have i0: "invar s" and l0: "lg s = []"
    using assms by (simp_all add: fresh_def)
  have r0: "room s (Suc (Suc (Suc 0)))"
    using fresh_room [OF assms, of 3] by (simp add: largeN_def numeral_3_eq_3)
  have tags: "list_all plain_tag [''tag-1'']" "list_all plain_tag [''tag-2'']" "list_all plain_tag [''tag-3'']"
    by simp_all
  obtain p1 s1 where s1: "mustAppendEvent api s ''A'' [''tag-1''] = Some (p1, s1)"
      "lg s1 = lg s @ [at (stored (event_of ''A'' [''tag-1''])) p1]" "invar s1" "room s1 (Suc (Suc 0))"
    by (rule mustAppendEvent_step [OF i0 r0 tags(1), of "''A''"])
  obtain p2 s2 where s2: "mustAppendEvent api s1 ''B'' [''tag-2''] = Some (p2, s2)"
      "lg s2 = lg s1 @ [at (stored (event_of ''B'' [''tag-2''])) p2]" "invar s2" "room s2 (Suc 0)"
    by (rule mustAppendEvent_step [OF s1(3,4) tags(2), of "''B''"])
  obtain p3 s3 where s3: "mustAppendEvent api s2 ''B'' [''tag-3''] = Some (p3, s3)"
      "lg s3 = lg s2 @ [at (stored (event_of ''B'' [''tag-3''])) p3]" "invar s3" "positions_ascend (lg s3)"
    by (rule mustAppendEvent_step [OF s2(3,4) tags(3), of "''B''"])
  show thesis
    using s1 s2 s3 l0 by (intro that [of p1 p2 p3 s3]) (simp_all add: seedABB_def positions_ascend_def)
qed

end

section \<open>The read cases\<close>

context suite_store
begin

lemma stored_event_of [simp]:
  "evType (stored (event_of t tags)) = t" "evTags (stored (event_of t tags)) = \<lparr>tag_values = fset_of_list tags\<rparr>"
  by (simp_all add: stored_type stored_tags event_of_def)

lemmas view_simps = read_view_def limited_def in_read_range_def known_after_def read_all_def
  query_matches_def item_matches_def item_query_def

lemma known_after_simps [simp]:
  "readAfter opts = None \<Longrightarrow> known_after l opts" "known_after l read_all"
  by (simp_all add: known_after_def read_all_def)

lemma constructed_types:
  "QueryFromItems [\<lparr>itemTypes = [t], itemTags = EmptyTags\<rparr>] = Inr (item_query [t] [])"
  by (simp add: QueryFromItems_def item_query_def EmptyTags_def)

lemma seeded_reads:
  assumes "fresh s"
  shows "read_ascending_case api s" "read_backwards_case api s" "read_after_case api s"
    "read_after_backwards_case api s" "read_after_first_backwards_case api s"
    "read_limit_case api s" "read_limit_backwards_case api s" "read_after_limit_case api s"
proof -
  obtain p1 p2 p3 s' where s': "seedABB api s = Some ([p1, p2, p3], s')" "invar s'"
    "lg s' = [at (stored (event_of ''A'' [''tag-1''])) p1, at (stored (event_of ''B'' [''tag-2''])) p2,
              at (stored (event_of ''B'' [''tag-3''])) p3]"
    "p1 < p2" "p2 < p3" "p1 < p3"
    by (rule seeded [OF assms])
  have read: "mustRead api s' QueryAll opts =
      Some (read_view opts (filter (\<lambda>se. in_read_range opts (sePosition se)) (lg s')))"
    if "known_after (lg s') opts" for opts
    using mustRead_eq [OF s'(2) _ _ that, of QueryAll] by (simp add: constructed_def)
  note simps = s' read view_simps comparePosition_def CompareSequencePosition_def order_less_imp_not_less
    less_SequencePosition_def [symmetric]
  show "read_ascending_case api s"
    using s'(4,5) by (simp add: read_ascending_case_def simps)
  show "read_backwards_case api s"
    using s'(4,5) by (simp add: read_backwards_case_def simps)
  show "read_after_case api s" using s'(4-6) by (simp add: read_after_case_def simps)
  show "read_after_backwards_case api s" using s'(4-6) by (simp add: read_after_backwards_case_def simps)
  show "read_after_first_backwards_case api s" using s'(4-6) by (simp add: read_after_first_backwards_case_def simps)
  show "read_limit_case api s" by (simp add: read_limit_case_def simps)
  show "read_limit_backwards_case api s" by (simp add: read_limit_backwards_case_def simps)
  show "read_after_limit_case api s" using s'(4-6) by (simp add: read_after_limit_case_def simps)
qed

lemma filtered_reads:
  assumes "fresh s"
  shows "read_type_case api s" "read_or_case api s" "read_tag_case api s" "read_other_tag_case api s"
    "read_after_type_limit_case api s"
proof -
  obtain p1 p2 p3 s' where s': "seedABB api s = Some ([p1, p2, p3], s')" "invar s'"
    "lg s' = [at (stored (event_of ''A'' [''tag-1''])) p1, at (stored (event_of ''B'' [''tag-2''])) p2,
              at (stored (event_of ''B'' [''tag-3''])) p3]"
    "p1 < p2" "p2 < p3" "p1 < p3"
    by (rule seeded [OF assms])
  let ?ba = "\<lparr>query_items = [\<lparr>itemTypes = [''B''], itemTags = EmptyTags\<rparr>, \<lparr>itemTypes = [''A''], itemTags = EmptyTags\<rparr>],
      query_all = False\<rparr>"
  have ba: "QueryFromItems (query_items ?ba) = Inr ?ba" by (simp add: QueryFromItems_def)
  then have ba': "constructed ?ba" unfolding constructed_def by blast
  have ba'': "single_tags ?ba" by (simp add: single_tags_def Items_def Tags_Len_def EmptyTags_def fcard.rep_eq)
  note simps = s' mustRead_eq mustQuery_eq constructed_types positionsOf_def
  show "read_type_case api s" by (simp add: read_type_case_def simps) (simp add: s' view_simps)
  show "read_or_case api s"
    using ba by (simp add: read_or_case_def simps ba' ba'') (simp add: s' view_simps EmptyTags_def)
  show "read_tag_case api s" by (simp add: read_tag_case_def simps) (simp add: s' view_simps)
  show "read_other_tag_case api s" by (simp add: read_other_tag_case_def simps) (simp add: s' view_simps)
  show "read_after_type_limit_case api s"
    using s'(4-6) by (simp add: read_after_type_limit_case_def simps known_after_def read_all_def) (simp add: s' view_simps)
qed

lemma numbered_event_suite [simp]: "suite_event (numbered_event i)"
  by (auto simp: numbered_event_def suite_event_def plain_tags_def EmptyTags_def)

lemma read_large:
  assumes "fresh s"
  shows "read_large_case api s"
proof -
  let ?cmds = "[plain_command (map numbered_event [0..<largeN])]"
  have pos: "0 < largeN" by (simp add: largeN_def)
  have suite: "suite_commands (lg s) ?cmds" by (simp add: suite_commands_def plain_command_def)
  have rm: "room s (length (command_events ?cmds) + 0)"
    using assms by (simp add: plain_command_def fresh_def)
  have i0: "invar s" using assms by (simp add: fresh_def)
  obtain s' new where *: "append s ?cmds = (Ok (sePosition (last new)), s')" "lg s' = lg s @ new"
      "map seEvent new = map stored (command_events ?cmds)" "invar s'"
    by (rule append_commands [OF i0 suite rm]) (use pos in \<open>simp_all add: plain_command_def command_violated_def\<close>)
  have events: "map seEvent (lg s') = map (\<lambda>i. stored (numbered_event i)) [0..<largeN]"
    using *(2,3) assms by (simp add: fresh_def plain_command_def comp_def)
  have len: "length (lg s') = largeN" using arg_cong [OF events, of length] by simp
  have "evData (seEvent (lg s' ! i)) = Some (format_nat i)" if "i < largeN" for i
    using arg_cong [OF events, of "\<lambda>xs. xs ! i"] that len stored_data [of "numbered_event i"]
    by (simp add: numbered_event_def)
  then have "list_all (\<lambda>(i, ev). evData (seEvent ev) = Some (format_nat i)) (zip [0..<largeN] (lg s'))"
    using len by (auto simp: list_all_iff set_zip)
  then show ?thesis
    using *(1,4) len by (simp add: read_large_case_def api_operations)
qed

lemma plain_reads:
  assumes "fresh s"
  shows "read_empty_case api s" "read_snapshot_case api s" "read_superset_case api s" "read_and_case api s"
proof -
  have i0: "invar s" and l0: "lg s = []" using assms by (simp_all add: fresh_def)
  have r0: "room s (Suc (Suc 0))" using fresh_room [OF assms, of 2] by (simp add: largeN_def numeral_2_eq_2)
  have tags: "list_all plain_tag []" "list_all plain_tag [''tag-1'']" "list_all plain_tag [''tag-2'']"
      "list_all plain_tag [''tag-1'', ''tag-2'']"
    by simp_all
  have all: "constructed QueryAll" by (simp add: constructed_def)
  show "read_empty_case api s"
    using mustRead_eq [OF i0 all, of "read_all\<lparr>Backwards := b\<rparr>" for b] l0
    by (simp add: read_empty_case_def read_all_def read_view_def limited_def)
  obtain p1 s1 where s1: "mustAppendEvent api s ''A'' [] = Some (p1, s1)"
      "lg s1 = lg s @ [at (stored (event_of ''A'' [])) p1]" "invar s1" "room s1 (Suc 0)"
    by (rule mustAppendEvent_step [OF i0 r0 tags(1), of "''A''"])
  obtain p2 s2 where s2: "mustAppendEvent api s1 ''B'' [] = Some (p2, s2)"
    by (rule mustAppendEvent_step [OF s1(3,4) tags(1), of "''B''"])
  obtain it where it: "read s1 QueryAll read_all = Ok it"
      "collect_all methods it = Some (read_view read_all (filter (\<lambda>se. in_read_range read_all (sePosition se)
        \<and> query_matches QueryAll (seEvent se)) (lg s1)))"
    by (rule read_drains [OF s1(3) all, of read_all]) simp_all
  show "read_snapshot_case api s"
    using it l0 s1(1,2) s2 by (simp add: read_snapshot_case_def api_operations read_view_def limited_def
        read_all_def in_read_range_def)
  obtain p s' where "mustAppendEvent api s ''A'' [''tag-1'', ''tag-2''] = Some (p, s')"
      "lg s' = lg s @ [at (stored (event_of ''A'' [''tag-1'', ''tag-2''])) p]" "invar s'"
    by (rule mustAppendEvent_step [OF i0 r0 tags(4), of "''A''"])
  then show "read_superset_case api s"
    by (simp add: read_superset_case_def mustQuery_eq mustRead_eq) (simp add: l0 view_simps)
  obtain q1 t1 where t1: "mustAppendEvent api s ''A'' [''tag-2''] = Some (q1, t1)"
      "lg t1 = lg s @ [at (stored (event_of ''A'' [''tag-2''])) q1]" "invar t1" "room t1 (Suc 0)"
    by (rule mustAppendEvent_step [OF i0 r0 tags(3), of "''A''"])
  obtain q2 t2 where "mustAppendEvent api t1 ''B'' [''tag-1''] = Some (q2, t2)"
      "lg t2 = lg t1 @ [at (stored (event_of ''B'' [''tag-1''])) q2]" "invar t2"
    by (rule mustAppendEvent_step [OF t1(3,4) tags(2), of "''B''"])
  then show "read_and_case api s"
    using t1(1,2) by (simp add: read_and_case_def mustQuery_eq mustRead_eq) (simp add: l0 view_simps)
qed

lemma testRead_passes: "fresh s \<Longrightarrow> testRead api s"
  by (simp add: testRead_def read_large plain_reads seeded_reads filtered_reads)

end

section \<open>The append cases\<close>

context suite_store
begin

lemma violated_append:
  assumes "invar s" and "suite_commands (lg s) cmds" and "conditions_scoped cmds" and "command_events cmds \<noteq> []"
    and "first_violated 0 (lg s) cmds = Some (i, c)"
  shows "append s cmds = (Err (violation_error cmds i c), s)"
  by (rule append_violated [OF assms(1) suite_storable [OF assms(1,2)] assms(3-5)])

lemma unconditional_appends:
  assumes "fresh s"
  shows "append_after_initial_case api s" "append_increasing_case api s" "append_last_position_case api s"
    "append_rejects_case api s"
proof -
  have i0: "invar s" and l0: "lg s = []" using assms by (simp_all add: fresh_def)
  have r0: "room s (Suc (Suc 0))" using fresh_room [OF assms, of 2] by (simp add: largeN_def numeral_2_eq_2)
  have tags: "list_all plain_tag []" by simp
  obtain p1 s1 where s1: "append s [plain_command [event_of ''A'' []]] = (Ok p1, s1)"
      "lg s1 = lg s @ [at (stored (event_of ''A'' [])) p1]" "invar s1" "room s1 (Suc 0)" "SequencePositionInitial < p1"
    by (rule append_event [OF i0 r0 tags, of "''A''"])
  obtain p2 s2 where s2: "append s1 [plain_command [event_of ''B'' []]] = (Ok p2, s2)"
      "positions_ascend (lg s1 @ [at (stored (event_of ''B'' [])) p2])"
    by (rule append_event [OF s1(3,4) tags, of "''B''"])
  show "append_after_initial_case api s"
    using s1(1,5) by (simp add: append_after_initial_case_def mustEvent_eq api_operations)
  show "append_increasing_case api s"
    using s1(1,2) s2 l0
    by (simp add: append_increasing_case_def mustEvent_eq api_operations positions_ascend_def)
  let ?abc = "[event_of ''A'' [], event_of ''B'' [], event_of ''C'' []]"
  have suite: "suite_commands (lg s) [plain_command ?abc]" by (simp add: suite_commands_def plain_command_def)
  have rm: "room s (length (command_events [plain_command ?abc]) + 0)"
    using fresh_room [OF assms, of 3] by (simp add: plain_command_def largeN_def numeral_3_eq_3)
  obtain s' new where *: "append s [plain_command ?abc] = (Ok (sePosition (last new)), s')" "lg s' = lg s @ new"
      "map seEvent new = map stored (command_events [plain_command ?abc])" "invar s'"
    by (rule append_commands [OF i0 suite rm]) (simp_all add: plain_command_def command_violated_def)
  have "length new = 3" using arg_cong [OF *(3), of length] by (simp add: plain_command_def)
  moreover from this have "last new = new ! 2" by (cases "new = []") (simp_all add: last_conv_nth numeral_2_eq_2 numeral_3_eq_3)
  ultimately show "append_last_position_case api s"
    using *(1,2,4) l0 by (simp add: append_last_position_case_def mustEvent_eq api_operations)
  have "rejected_plainly (append s cmds)"
    if "suite_commands (lg s) cmds" "\<not> conditions_scoped cmds \<or> command_events cmds = []" for cmds
    using append_rejected_plainly [OF i0 suite_storable [OF i0 that(1)] l0 that(2)] by auto
  then show "append_rejects_case api s"
    by (simp add: append_rejects_case_def mustEvent_eq api_operations suite_commands_def plain_command_def
        suite_condition_def condition_scoped_def QueryAll_def)
qed

lemma conditional_appends:
  assumes "fresh s"
  shows "append_unmatched_case api s" "append_violated_case api s" "append_after_case api s" "append_atomic_case api s"
proof -
  let ?c = "\<lambda>after. condition_of [''A''] [''tag-1''] after" and ?a = "event_of ''A'' [''tag-1'']"
  have i0: "invar s" and l0: "lg s = []" using assms by (simp_all add: fresh_def)
  have r0: "room s (Suc (Suc 0))" using fresh_room [OF assms, of 2] by (simp add: largeN_def numeral_2_eq_2)
  have tags: "list_all plain_tag [''tag-1'']" by simp
  let ?first = "[\<lparr>cmdEvents = [?a], cmdCondition = Some (?c None)\<rparr>]"
  have suite: "suite_commands (lg s) ?first" by (simp add: suite_commands_def)
  have rm: "room s (length (command_events ?first) + Suc 0)" using r0 by simp
  have "\<exists>p s'. append s ?first = (Ok p, s')"
    by (rule append_commands_ok [OF i0 suite rm]) (simp_all add: command_violated_def l0)
  then show "append_unmatched_case api s"
    by (auto simp add: append_unmatched_case_def mustEvent_eq scopedCondition_eq api_operations)
  obtain p1 s1 where s1: "append s [plain_command [?a]] = (Ok p1, s1)"
      "lg s1 = lg s @ [at (stored ?a) p1]" "invar s1" "room s1 (Suc 0)"
    by (rule append_event [OF i0 r0 tags, of "''A''"])
  have hit: "condition_violated_by (?c None) (at (stored ?a) p1)"
    by (simp add: condition_violated_by_def condition_of_def query_matches_def item_matches_def)
  have "append s1 ?first = (Err (violation_error ?first 0 (?c None)), s1)"
    by (rule violated_append [OF s1(3)]) (use hit s1(2) in \<open>simp_all add: suite_commands_def\<close>)
  then show "append_violated_case api s"
    using s1(1) by (simp add: append_violated_case_def mustEvent_eq scopedCondition_eq api_operations violation_error_def)
  let ?then = "[\<lparr>cmdEvents = [event_of ''B'' [''tag-1'']], cmdCondition = Some (?c (Some p1))\<rparr>]"
  have suite: "suite_commands (lg s1) ?then"
    by (simp add: suite_commands_def suite_condition_def condition_of_def plain_tags_def s1(2))
  have rm: "room s1 (length (command_events ?then) + 0)" using s1(4) by simp
  have "\<exists>p s'. append s1 ?then = (Ok p, s')"
    by (rule append_commands_ok [OF s1(3) suite rm])
      (simp_all add: command_violated_def l0 s1(2) condition_violated_by_def)
  then show "append_after_case api s"
    using s1(1) by (auto simp add: append_after_case_def mustEvent_eq scopedCondition_eq api_operations)
  let ?two = "[plain_command [event_of ''B'' []], \<lparr>cmdEvents = [event_of ''C'' []], cmdCondition = Some (?c None)\<rparr>]"
  have "append s1 ?two = (Err (violation_error ?two 1 (?c None)), s1)"
    by (rule violated_append [OF s1(3)])
      (use hit s1(2) in \<open>simp_all add: suite_commands_def plain_command_def\<close>)
  then show "append_atomic_case api s"
    using s1(1-3) l0
    by (simp add: append_atomic_case_def mustEvent_eq scopedCondition_eq api_operations violation_error_def)
qed

lemma testAppend_passes: "fresh s \<Longrightarrow> testAppend api s"
  by (simp add: testAppend_def unconditional_appends conditional_appends)

end

section \<open>The concurrency cases\<close>

text \<open>
  Goroutines whose calls take effect in the order \<open>order\<close> do what \<open>run_appends\<close>
  does with their calls in that order, and the result slice is a permutation of its results.
\<close>

lemma concurrently_results:
  assumes "distinct order" and "set order \<subseteq> {..<length results}"
    and "run_appends f s (map calls order) = (rs, s')"
  shows "\<exists>final. concurrently order (\<lambda>st i. f st (calls i)) s results = (final, s') \<and> length final = length results
     \<and> map (\<lambda>i. final ! i) order = rs \<and> (\<forall>i. i \<notin> set order \<longrightarrow> final ! i = results ! i)"
  using assms
proof (induction order arbitrary: s results rs)
  case (Cons i order)
  obtain r s1 where f: "f s (calls i) = (r, s1)" by fastforce
  obtain rs1 where rs1: "run_appends f s1 (map calls order) = (rs1, s')" "rs = r # rs1"
    using Cons.prems(3) f by (auto split: prod.splits)
  have "distinct order" "set order \<subseteq> {..<length (results[i := r])}" using Cons.prems(1,2) by auto
  from Cons.IH [OF this rs1(1)] obtain final where
    final: "concurrently order (\<lambda>st i. f st (calls i)) s1 (results[i := r]) = (final, s')"
      "length final = length results" "map (\<lambda>i. final ! i) order = rs1"
      "\<forall>k. k \<notin> set order \<longrightarrow> final ! k = results[i := r] ! k"
    by auto
  have "final ! i = r" using final(4) Cons.prems(1,2) by simp
  then show ?case using final f rs1(2) by auto
qed simp

lemma concurrently_permutes:
  assumes "mset order = mset [0..<n]" and "length results = n"
    and "run_appends f s (map calls order) = (rs, s')"
  obtains final where "concurrently order (\<lambda>st i. f st (calls i)) s results = (final, s')" "mset final = mset rs"
proof -
  have set: "distinct order" "set order = {..<n}"
    using assms(1) by (metis distinct_upt mset_eq_imp_distinct_iff, metis atLeast0LessThan atLeast_upt mset_eq_setD)
  then obtain final where final: "concurrently order (\<lambda>st i. f st (calls i)) s results = (final, s')"
      "length final = n" "map (\<lambda>i. final ! i) order = rs"
    using concurrently_results [OF set(1) _ assms(3), of results] assms(2) by auto
  have "mset rs = image_mset (\<lambda>i. final ! i) (mset [0..<n])"
    using final(3) assms(1) by (metis mset_map)
  also have "\<dots> = mset (map (\<lambda>i. final ! i) [0..<length final])" using final(2) by simp
  finally show thesis using that final(1) by (simp add: map_nth)
qed

lemma allDistinct_iff: "allDistinct ps \<longleftrightarrow> distinct ps"
proof -
  have "inj SequencePosition_String"
    by (rule injI) (metis Parse_SequencePosition_String sum.inject(2))
  then have "card (set (map SequencePosition_String ps)) = card (set ps)"
    by (simp add: card_image inj_on_subset)
  then show ?thesis by (metis allDistinct_def card_distinct distinct_card)
qed

lemma sorted_sublist_eq:
  fixes ps qs :: "'a :: linorder list"
  assumes "sorted_wrt (<) ps" and "sorted_wrt (<) qs" and "set ps \<subseteq> set qs" and "length ps = length qs"
  shows "ps = qs"
proof -
  have d: "distinct ps" "distinct qs" "sorted ps" "sorted qs" using assms(1,2) by (auto simp: strict_sorted_iff)
  then have "set ps = set qs"
    using assms(3,4) by (intro card_subset_eq) (auto simp: distinct_card)
  then show ?thesis by (rule sorted_distinct_set_unique [OF d(3,1,4,2)])
qed

lemma those_map_Some: "(\<And>x. x \<in> set xs \<Longrightarrow> f x = Some (g x)) \<Longrightarrow> those (map f xs) = Some (map g xs)"
  by (induction xs) auto

lemma sorted_wrt_distinct:
  assumes "distinct xs" and "\<And>x y. x \<noteq> y \<Longrightarrow> P x y"
  shows "sorted_wrt P xs"
  using assms(1)
proof (induction xs)
  case (Cons x xs)
  then show ?case using assms(2) [of x] by (metis distinct.simps(2) sorted_wrt.simps(2))
qed simp

lemma permutation_facts:
  assumes "mset order = mset [0..<n]"
  shows "length order = n" "distinct order" "set order = {0..<n}"
  using assms
  by (metis diff_zero length_upt mset_eq_length, metis distinct_upt mset_eq_imp_distinct_iff, metis atLeast_upt mset_eq_setD set_upt)

lemma length_no_results [simp]: "length no_results = racers"
  by (simp add: no_results_def)

lemma result_position_Ok [simp]: "map result_position (map Ok ps) = ps"
  by (simp add: comp_def)

context suite_store
begin

text \<open>One event per goroutine, its condition (if any) matched by no other goroutine's event.\<close>

lemma independent_goroutines:
  assumes "fresh s" and "mset order = mset [0..<racers]"
    and "\<And>i. i < racers \<Longrightarrow> calls i = [cmd i]" and "\<And>i. cmdEvents (cmd i) = [ev i]"
    and "\<And>i. suite_commands [] [cmd i]" and "\<And>i. conditions_scoped [cmd i]"
    and "\<And>i j. i \<noteq> j \<Longrightarrow> leaves_unviolated [cmd i] [cmd j]"
  obtains final s' where "concurrently order (\<lambda>st i. append st (calls i)) s no_results = (final, s')"
    "invar s'" "length (lg s') = racers" "list_all succeeded final" "distinct (map result_position final)"
    "mset (map result_position final) = mset (map sePosition (lg s'))"
proof -
  note order = permutation_facts [OF assms(2)]
  let ?batches = "map (\<lambda>i. [cmd i]) order"
  have i0: "invar s" and l0: "lg s = []" using assms(1) by (simp_all add: fresh_def)
  have calls: "map calls order = ?batches" using order(3) assms(3) by simp
  have one: "length (command_events [cmd i]) = 1" for i using assms(4) by simp
  have "length (concat (map (\<lambda>i. [ev i]) xs)) = length xs" for xs by (induction xs) simp_all
  then have len: "length (concat (map command_events ?batches)) = racers"
    using order(1) by (simp add: assms(4) comp_def)
  have rm: "room s (length (concat (map command_events ?batches)))"
    using fresh_room [OF assms(1), of racers] len by (simp add: racers_def largeN_def)
  have st: "\<forall>cmds \<in> set ?batches. storable cmds \<and> conditions_scoped cmds \<and> command_events cmds \<noteq> []"
    using suite_storable [OF i0] l0 assms(4,5,6) by auto
  have nv: "\<forall>cmds \<in> set ?batches. \<forall>cmd \<in> set cmds. \<not> command_violated (lg s) cmd"
    by (simp add: l0 command_violated_def split: option.splits)
  have ap: "sorted_wrt leaves_unviolated ?batches"
    unfolding sorted_wrt_map by (rule sorted_wrt_distinct [OF order(2) assms(7)])
  obtain ps s' new where run: "run_appends append s ?batches = (map Ok ps, s')" "lg s' = lg s @ new"
      "map seEvent new = map stored (concat (map command_events ?batches))"
      "set ps \<subseteq> sePosition ` set new" "sorted_wrt (<) ps" "length ps = length ?batches" "invar s'"
    using independent_appends_succeed [OF i0 rm st nv ap] by blast
  have new: "length new = racers" using arg_cong [OF run(3), of length] len by simp
  have asc: "sorted_wrt (<) (map sePosition new)"
    using log_ascends [OF run(7)] run(2) l0 by (simp add: positions_ascend_def)
  have ps: "ps = map sePosition new"
    by (rule sorted_sublist_eq [OF run(5) asc]) (use run(4,6) new order(1) in simp_all)
  obtain final where final: "concurrently order (\<lambda>st i. append st (calls i)) s no_results = (final, s')"
      "mset final = mset (map Ok ps)"
    by (rule concurrently_permutes [OF assms(2) length_no_results run(1) [folded calls]])
  have m: "mset (map result_position final) = mset ps"
    using arg_cong [OF final(2), of "image_mset result_position"]
    by (simp only: mset_map [symmetric] result_position_Ok)
  have "distinct ps" using run(5) by (simp add: strict_sorted_iff)
  then have d: "distinct (map result_position final)" using m by (metis mset_eq_imp_distinct_iff)
  have "set final = set (map Ok ps)" using final(2) by (rule mset_eq_setD)
  then have "list_all succeeded final" by (auto simp: list_all_iff)
  then show thesis
    using that [OF final(1) run(7)] d m ps new run(2) l0 by simp
qed

lemma racing:
  assumes "fresh s" and "mset order = mset [0..<racers]"
  shows "racing_case order api s"
proof -
  let ?ev = "event_of ''A'' [''race'']" and ?c = "condition_of [''A''] [''race''] None"
  let ?cmd = "\<lparr>cmdEvents = [?ev], cmdCondition = Some ?c\<rparr>"
  have i0: "invar s" and l0: "lg s = []" using assms(1) by (simp_all add: fresh_def)
  have rm: "room s 1" using fresh_room [OF assms(1)] by (simp add: largeN_def)
  have st: "storable [?cmd]" by (rule suite_storable [OF i0]) (simp add: suite_commands_def)
  have q: "query_matches (FailIfEventsMatch ?c) ?ev"
    by (simp add: condition_of_def event_of_def query_matches_def item_matches_def)
  have calls: "map (\<lambda>_. [?cmd]) order = replicate (Suc 19) [?cmd]"
    using permutation_facts(1) [OF assms(2)] by (simp only: map_replicate_const racers_def) simp
  obtain p s' where run: "run_appends append s (map (\<lambda>_. [?cmd]) order) =
        (Ok p # replicate 19 (Err (violation_error [?cmd] 0 ?c)), s')"
      and log: "lg s' = [at (stored ?ev) p]" "invar s'"
    using race_one_winner [OF i0 st rm, of ?c ?ev 19] q l0 unfolding calls at_def by auto
  obtain final where final: "concurrently order (\<lambda>st i. append st [?cmd]) s no_results = (final, s')"
      "mset final = mset (Ok p # replicate 19 (Err (violation_error [?cmd] 0 ?c)))"
    by (rule concurrently_permutes [OF assms(2) length_no_results run])
  have count: "length (filter P final) = length (filter P (Ok p # replicate 19 (Err (violation_error [?cmd] 0 ?c))))" for P
    using arg_cong [OF final(2), of "\<lambda>M. size (filter_mset P M)"] by (simp only: mset_filter [symmetric] size_mset)
  have "set final = set (Ok p # replicate 19 (Err (violation_error [?cmd] 0 ?c)))"
    using final(2) by (rule mset_eq_setD)
  then have "list_all (\<lambda>r. succeeded r \<or> condition_error r \<noteq> None) final"
    by (auto simp: list_all_iff violation_error_def)
  then show ?thesis
    using final(1) log
    by (simp add: racing_case_def mustEvent_eq scopedCondition_eq api_operations count racers_def)
qed

lemma disjoint:
  assumes "fresh s" and "mset order = mset [0..<racers]"
  shows "disjoint_case order api s"
proof -
  let ?ev = "\<lambda>i. event_of ''A'' [scope_tag i]" and ?c = "\<lambda>i. condition_of [''A''] [scope_tag i] None"
  let ?cmd = "\<lambda>i. \<lparr>cmdEvents = [?ev i], cmdCondition = Some (?c i)\<rparr>"
  let ?evs = "map ?ev [0..<racers]" and ?cs = "map ?c [0..<racers]"
  have apart: "leaves_unviolated [?cmd i] [?cmd j]" if "i \<noteq> j" for i j
    using that by (simp add: leaves_unviolated_def condition_of_def event_of_def query_matches_def item_matches_def
        scope_tag_def format_nat_inj)
  obtain final s' where *: "concurrently order
        (\<lambda>st i. append st [\<lparr>cmdEvents = [?evs ! i], cmdCondition = Some (?cs ! i)\<rparr>]) s no_results = (final, s')"
      "invar s'" "length (lg s') = racers" "list_all succeeded final" "distinct (map result_position final)"
    by (rule independent_goroutines [OF assms,
          of "\<lambda>i. [\<lparr>cmdEvents = [?evs ! i], cmdCondition = Some (?cs ! i)\<rparr>]" ?cmd ?ev])
      (simp_all add: suite_commands_def apart)
  have "those (map (\<lambda>i. mustEvent ''A'' [scope_tag i]) [0..<racers]) = Some ?evs"
    by (rule those_map_Some) (simp add: mustEvent_eq)
  moreover have "those (map (\<lambda>i. scopedCondition [''A''] [scope_tag i] None) [0..<racers]) = Some ?cs"
    by (rule those_map_Some) (simp add: scopedCondition_eq)
  ultimately show ?thesis
    using * by (simp add: disjoint_case_def api_operations allDistinct_iff)
qed

lemma unconditional:
  assumes "fresh s" and "mset order = mset [0..<racers]"
  shows "unconditional_case order api s"
proof -
  let ?evs = "map (\<lambda>i :: nat. event_of ''E'' []) [0..<racers]"
  obtain final s' where *: "concurrently order (\<lambda>st i. append st [plain_command [?evs ! i]]) s no_results = (final, s')"
      "invar s'" "length (lg s') = racers" "list_all succeeded final" "distinct (map result_position final)"
      "mset (map result_position final) = mset (map sePosition (lg s'))"
    by (rule independent_goroutines [OF assms, of "\<lambda>i. [plain_command [?evs ! i]]"
          "\<lambda>i. plain_command [event_of ''E'' []]" "\<lambda>i. event_of ''E'' []"])
      (simp_all add: suite_commands_def plain_command_def leaves_unviolated_def)
  have "those (map (\<lambda>i. mustEvent ''E'' []) [0..<racers]) = Some ?evs"
    by (rule those_map_Some) (simp add: mustEvent_eq)
  then show ?thesis
    using * by (simp add: unconditional_case_def api_operations allDistinct_iff positionsOf_def)
qed

lemma testConcurrency_passes:
  "fresh s \<Longrightarrow> mset order = mset [0..<racers] \<Longrightarrow> testConcurrency order api s"
  by (simp add: testConcurrency_def racing disjoint unconditional)

end

end
