(* ===== verification/Conformance_Subscribe.thy ===== *)
theory Conformance_Subscribe
  imports Conformance_Contract
begin

text \<open>
  The subscription cases of the conformance suite (\<open>eventstoretest/subscribe.go\<close>) and the
  whole suite. A subscription of the tests is an iterator that a goroutine drains into a
  buffered channel. The goroutine's progress is counted in passes of the loop inside
  \<open>Next\<close>; how many it makes between two actions of the test is the schedule, an argument
  of every case. A wait that is bounded by \<open>subscribeTimeout\<close> gives it at least
  \<open>timeout\<close> passes. The contract of a store whose subscriptions pass is a second
  locale, over what one pass may do.
\<close>

section \<open>Subscriptions of the tests\<close>

record 'sub subscription =
  sb_it :: 'sub
  sb_events :: "SequencedEvent list"
  sb_sending :: "SequencedEvent option"
  sb_closed :: bool
  sb_cancelled :: bool

definition channelCapacity :: nat where
  "channelCapacity = 32"

definition mustSubscribe ::
  "('st, 'it, 'sub) store_api \<Rightarrow> 'st \<Rightarrow> Query \<Rightarrow> SubscribeOptions \<Rightarrow> 'sub subscription option" where
  "mustSubscribe api store query opts = do {
     (it, _) \<leftarrow> no_error (api_Subscribe api store query opts, ());
     Some \<lparr>sb_it = it, sb_events = [], sb_sending = None, sb_closed = False, sb_cancelled = False\<rparr> }"

text \<open>
  The goroutine: a pass of \<open>Next\<close>, the send of the event it returned (which waits while the
  channel is full), and the closing of the channel when \<open>Next\<close> returns false.
\<close>

definition goroutine_pass ::
  "('st, 'it, 'sub) store_api \<Rightarrow> 'st \<Rightarrow> 'sub subscription \<Rightarrow> 'sub subscription" where
  "goroutine_pass api store sub =
     (if sb_closed sub then sub
      else case sb_sending sub of
             Some ev \<Rightarrow>
               (if length (sb_events sub) < channelCapacity
                then sub\<lparr>sb_events := sb_events sub @ [ev], sb_sending := None\<rparr> else sub)
           | None \<Rightarrow>
               (case api_pass api (sb_cancelled sub) store (sb_it sub) of
                  (Yield ev, it) \<Rightarrow> sub\<lparr>sb_it := it, sb_sending := Some ev\<rparr>
                | (Finished, it) \<Rightarrow> sub\<lparr>sb_it := it, sb_closed := True\<rparr>
                | (_, it) \<Rightarrow> sub\<lparr>sb_it := it\<rparr>))"

fun background ::
  "nat \<Rightarrow> ('st, 'it, 'sub) store_api \<Rightarrow> 'st \<Rightarrow> 'sub subscription \<Rightarrow> 'sub subscription" where
  "background 0 api store sub = sub"
| "background (Suc n) api store sub = background n api store (goroutine_pass api store sub)"

fun receive_loop ::
  "nat \<Rightarrow> ('st, 'it, 'sub) store_api \<Rightarrow> 'st \<Rightarrow> 'sub subscription \<Rightarrow>
     (SequencedEvent \<times> 'sub subscription) option" where
  "receive_loop timeout api store sub =
     (case sb_events sub of
        ev # rest \<Rightarrow> Some (ev, sub\<lparr>sb_events := rest\<rparr>)
      | [] \<Rightarrow>
          if sb_closed sub then None
          else case timeout of
                 0 \<Rightarrow> None
               | Suc n \<Rightarrow> receive_loop n api store (goroutine_pass api store sub))"

fun closed_loop ::
  "nat \<Rightarrow> ('st, 'it, 'sub) store_api \<Rightarrow> 'st \<Rightarrow> 'sub subscription \<Rightarrow> 'sub subscription option" where
  "closed_loop timeout api store sub =
     (case sb_events sub of
        ev # rest \<Rightarrow>
          (case timeout of
             0 \<Rightarrow> None
           | Suc n \<Rightarrow> closed_loop n api store (sub\<lparr>sb_events := rest\<rparr>))
      | [] \<Rightarrow>
          if sb_closed sub then Some sub
          else case timeout of
                 0 \<Rightarrow> None
               | Suc n \<Rightarrow> closed_loop n api store (goroutine_pass api store sub))"

declare receive_loop.simps [simp del] closed_loop.simps [simp del]

text \<open>
  \<open>mustReceive\<close> and \<open>assertClosed\<close>: the goroutine may be ahead by any number of passes
  when the test comes to wait.
\<close>

definition mustReceive ::
  "nat \<Rightarrow> nat \<Rightarrow> ('st, 'it, 'sub) store_api \<Rightarrow> 'st \<Rightarrow> 'sub subscription \<Rightarrow>
     (SequencedEvent \<times> 'sub subscription) option" where
  "mustReceive ahead timeout api store sub = receive_loop timeout api store (background ahead api store sub)"

definition assertClosed ::
  "nat \<Rightarrow> nat \<Rightarrow> ('st, 'it, 'sub) store_api \<Rightarrow> 'st \<Rightarrow> 'sub subscription \<Rightarrow> 'sub subscription option" where
  "assertClosed ahead timeout api store sub = closed_loop timeout api store (background ahead api store sub)"


definition cancel :: "'sub subscription \<Rightarrow> 'sub subscription" where
  "cancel sub = sub\<lparr>sb_cancelled := True\<rparr>"

text \<open>\<open>stop\<close>: cancel, receive until the channel is closed, close the iterator.\<close>

definition stop ::
  "nat \<Rightarrow> nat \<Rightarrow> ('st, 'it, 'sub) store_api \<Rightarrow> 'st \<Rightarrow> 'sub subscription \<Rightarrow> 'sub subscription option" where
  "stop ahead timeout api store sub = do {
     sub \<leftarrow> assertClosed ahead timeout api store (cancel sub);
     Some (sub\<lparr>sb_it := api_Close api (sb_it sub)\<rparr>) }"

section \<open>The cases\<close>

definition subscribe_all :: SubscribeOptions where
  "subscribe_all = \<lparr>subAfter = None, PollInterval = 0\<rparr>"

definition historical_case :: "(nat \<Rightarrow> nat) \<Rightarrow> nat \<Rightarrow> ('st, 'it, 'sub) store_api \<Rightarrow> 'st \<Rightarrow> bool" where
  "historical_case sched timeout api store = passes (do {
     (posA, store) \<leftarrow> mustAppendEvent api store ''A'' [];
     (posB, store) \<leftarrow> mustAppendEvent api store ''B'' [];
     sub \<leftarrow> mustSubscribe api store QueryAll subscribe_all;
     let sub = background (sched 0) api store sub;
     (ev, sub) \<leftarrow> mustReceive (sched 10) timeout api store sub;
     require (posA = sePosition ev);
     (ev, sub) \<leftarrow> mustReceive (sched 11) timeout api store sub;
     require (posB = sePosition ev);
     stop (sched 20) timeout api store sub })"

definition live_case :: "(nat \<Rightarrow> nat) \<Rightarrow> nat \<Rightarrow> ('st, 'it, 'sub) store_api \<Rightarrow> 'st \<Rightarrow> bool" where
  "live_case sched timeout api store = passes (do {
     sub \<leftarrow> mustSubscribe api store QueryAll subscribe_all;
     let sub = background (sched 0) api store sub;
     (pos, store) \<leftarrow> mustAppendEvent api store ''Live'' [];
     let sub = background (sched 1) api store sub;
     (ev, sub) \<leftarrow> mustReceive (sched 10) timeout api store sub;
     require (pos = sePosition ev);
     stop (sched 20) timeout api store sub })"

definition seamless_case :: "(nat \<Rightarrow> nat) \<Rightarrow> nat \<Rightarrow> ('st, 'it, 'sub) store_api \<Rightarrow> 'st \<Rightarrow> bool" where
  "seamless_case sched timeout api store = passes (do {
     (posA, store) \<leftarrow> mustAppendEvent api store ''Historical'' [];
     sub \<leftarrow> mustSubscribe api store QueryAll subscribe_all;
     let sub = background (sched 0) api store sub;
     (posB, store) \<leftarrow> mustAppendEvent api store ''Live'' [];
     let sub = background (sched 1) api store sub;
     (ev, sub) \<leftarrow> mustReceive (sched 10) timeout api store sub;
     require (posA = sePosition ev);
     (ev, sub) \<leftarrow> mustReceive (sched 11) timeout api store sub;
     require (posB = sePosition ev);
     stop (sched 20) timeout api store sub })"

definition subscribe_after_case :: "(nat \<Rightarrow> nat) \<Rightarrow> nat \<Rightarrow> ('st, 'it, 'sub) store_api \<Rightarrow> 'st \<Rightarrow> bool" where
  "subscribe_after_case sched timeout api store = passes (do {
     (posA, store) \<leftarrow> mustAppendEvent api store ''A'' [];
     sub \<leftarrow> mustSubscribe api store QueryAll (subscribe_all\<lparr>subAfter := Some posA\<rparr>);
     let sub = background (sched 0) api store sub;
     (posB, store) \<leftarrow> mustAppendEvent api store ''B'' [];
     let sub = background (sched 1) api store sub;
     (ev, sub) \<leftarrow> mustReceive (sched 10) timeout api store sub;
     require (posB = sePosition ev);
     stop (sched 20) timeout api store sub })"

definition subscribe_query_case :: "(nat \<Rightarrow> nat) \<Rightarrow> nat \<Rightarrow> ('st, 'it, 'sub) store_api \<Rightarrow> 'st \<Rightarrow> bool" where
  "subscribe_query_case sched timeout api store = passes (do {
     query \<leftarrow> mustQuery [''Target''] [];
     sub \<leftarrow> mustSubscribe api store query subscribe_all;
     let sub = background (sched 0) api store sub;
     (_, store) \<leftarrow> mustAppendEvent api store ''Noise'' [];
     let sub = background (sched 1) api store sub;
     (pos, store) \<leftarrow> mustAppendEvent api store ''Target'' [];
     let sub = background (sched 2) api store sub;
     (received, sub) \<leftarrow> mustReceive (sched 10) timeout api store sub;
     require (evType (seEvent received) = ''Target'');
     require (pos = sePosition received);
     stop (sched 20) timeout api store sub })"

definition two_subscriptions_case :: "(nat \<Rightarrow> nat) \<Rightarrow> nat \<Rightarrow> ('st, 'it, 'sub) store_api \<Rightarrow> 'st \<Rightarrow> bool" where
  "two_subscriptions_case sched timeout api store = passes (do {
     sub1 \<leftarrow> mustSubscribe api store QueryAll subscribe_all;
     sub2 \<leftarrow> mustSubscribe api store QueryAll subscribe_all;
     let sub1 = background (sched 0) api store sub1;
     let sub2 = background (sched 1) api store sub2;
     (pos, store) \<leftarrow> mustAppendEvent api store ''Shared'' [];
     let sub1 = background (sched 2) api store sub1;
     let sub2 = background (sched 3) api store sub2;
     (ev, sub1) \<leftarrow> mustReceive (sched 10) timeout api store sub1;
     require (pos = sePosition ev);
     (ev, sub2) \<leftarrow> mustReceive (sched 11) timeout api store sub2;
     require (pos = sePosition ev);
     _ \<leftarrow> stop (sched 21) timeout api store sub2;
     stop (sched 20) timeout api store sub1 })"

fun live_appends ::
  "(nat \<Rightarrow> nat) \<Rightarrow> nat \<Rightarrow> ('st, 'it, 'sub) store_api \<Rightarrow> 'st \<Rightarrow> 'sub subscription \<Rightarrow>
     (SequencePosition list \<times> 'st \<times> 'sub subscription) option" where
  "live_appends sched 0 api store sub = Some ([], store, sub)"
| "live_appends sched (Suc n) api store sub = do {
     (pos, store) \<leftarrow> mustAppendEvent api store ''E'' [];
     let sub = background (sched n) api store sub;
     (appended, store, sub) \<leftarrow> live_appends sched n api store sub;
     Some (pos # appended, store, sub) }"

fun receive_positions ::
  "(nat \<Rightarrow> nat) \<Rightarrow> nat \<Rightarrow> ('st, 'it, 'sub) store_api \<Rightarrow> 'st \<Rightarrow> SequencePosition list \<Rightarrow> 'sub subscription \<Rightarrow>
     'sub subscription option" where
  "receive_positions sched timeout api store [] sub = Some sub"
| "receive_positions sched timeout api store (want # wants) sub = do {
     (ev, sub) \<leftarrow> mustReceive (sched (10 + length wants)) timeout api store sub;
     require (want = sePosition ev);
     receive_positions sched timeout api store wants sub }"

definition ordering_case :: "(nat \<Rightarrow> nat) \<Rightarrow> nat \<Rightarrow> ('st, 'it, 'sub) store_api \<Rightarrow> 'st \<Rightarrow> bool" where
  "ordering_case sched timeout api store = passes (do {
     sub \<leftarrow> mustSubscribe api store QueryAll subscribe_all;
     let sub = background (sched 5) api store sub;
     (appended, store, sub) \<leftarrow> live_appends sched 5 api store sub;
     sub \<leftarrow> receive_positions sched timeout api store appended sub;
     stop (sched 20) timeout api store sub })"

definition cancellation_case :: "(nat \<Rightarrow> nat) \<Rightarrow> nat \<Rightarrow> ('st, 'it, 'sub) store_api \<Rightarrow> 'st \<Rightarrow> bool" where
  "cancellation_case sched timeout api store = passes (do {
     sub \<leftarrow> mustSubscribe api store QueryAll subscribe_all;
     let sub = cancel (background (sched 0) api store sub);
     sub \<leftarrow> assertClosed (sched 1) timeout api store sub;
     require (api_Err api (sb_it sub) = None);
     stop (sched 20) timeout api store sub })"

definition testSubscribe :: "(nat \<Rightarrow> nat) \<Rightarrow> nat \<Rightarrow> ('st, 'it, 'sub) store_api \<Rightarrow> 'st \<Rightarrow> bool" where
  "testSubscribe sched timeout api newStore \<longleftrightarrow>
     historical_case sched timeout api newStore \<and> live_case sched timeout api newStore
     \<and> seamless_case sched timeout api newStore \<and> subscribe_after_case sched timeout api newStore
     \<and> subscribe_query_case sched timeout api newStore \<and> two_subscriptions_case sched timeout api newStore
     \<and> ordering_case sched timeout api newStore \<and> cancellation_case sched timeout api newStore"

text \<open>The whole suite, for every order of the goroutines' calls, schedule and pace.\<close>

definition Run :: "nat list \<Rightarrow> (nat \<Rightarrow> nat) \<Rightarrow> nat \<Rightarrow> ('st, 'it, 'sub) store_api \<Rightarrow> 'st \<Rightarrow> bool" where
  "Run order sched timeout api newStore \<longleftrightarrow>
     testAppend api newStore \<and> testRead api newStore \<and> testSubscribe sched timeout api newStore
     \<and> testConcurrency order api newStore"

section \<open>The subscription contract\<close>

definition due_events :: "Query \<Rightarrow> SequencePosition \<Rightarrow> SequencedEvent list \<Rightarrow> SequencedEvent list" where
  "due_events q start lg = filter (\<lambda>se. start < sePosition se \<and> query_matches q (seEvent se)) lg"

definition start_of :: "SubscribeOptions \<Rightarrow> SequencePosition" where
  "start_of opts = (case subAfter opts of None \<Rightarrow> SequencePositionInitial | Some p \<Rightarrow> p)"

text \<open>
  The laws of a pass: an event it yields is the next one due; it yields within a few passes
  while something is due; with a cancelled context it ends within a few passes of the last
  event, and only then; and no error is recorded. \<open>work\<close> and \<open>rank\<close> count those passes.
\<close>

locale live_store = suite_store append lg invar room storable stored read methods api
  for append :: "'st \<Rightarrow> AppendCommand list \<Rightarrow> (error, SequencePosition) outcome \<times> 'st"
    and lg :: "'st \<Rightarrow> SequencedEvent list"
    and invar :: "'st \<Rightarrow> bool"
    and room :: "'st \<Rightarrow> nat \<Rightarrow> bool"
    and storable :: "AppendCommand list \<Rightarrow> bool"
    and stored :: "Event \<Rightarrow> Event"
    and read :: "'st \<Rightarrow> Query \<Rightarrow> ReadOptions \<Rightarrow> (error, 'it) outcome"
    and methods :: "'it EventIterator"
    and api :: "('st, 'it, 'sub) store_api" +
  fixes sub_inv :: "Query \<Rightarrow> SequencePosition \<Rightarrow> SequencedEvent list \<Rightarrow> 'st \<Rightarrow> 'sub \<Rightarrow> bool"
    and work :: "'st \<Rightarrow> 'sub \<Rightarrow> nat"
    and rank :: "'st \<Rightarrow> 'sub \<Rightarrow> nat"
  assumes subscribe_starts:
      "invar s \<Longrightarrow> constructed q \<Longrightarrow> single_tags q \<Longrightarrow>
       start_of opts = SequencePositionInitial \<or> start_of opts \<in> sePosition ` set (lg s) \<Longrightarrow>
       \<exists>it. api_Subscribe api s q opts = Ok it \<and> sub_inv q (start_of opts) [] s it"
    and append_keeps:
      "sub_inv q start del s it \<Longrightarrow> invar s \<Longrightarrow> storable cmds \<Longrightarrow> room s (length (command_events cmds)) \<Longrightarrow>
       append s cmds = (Ok p, s') \<Longrightarrow> sub_inv q start del s' it"
    and pass_yields:
      "invar s \<Longrightarrow> sub_inv q start del s it \<Longrightarrow> api_pass api d s it = (Yield ev, it') \<Longrightarrow>
       (\<exists>rest. due_events q start (lg s) = del @ ev # rest) \<and> sub_inv q start (del @ [ev]) s it'
       \<and> rank s it' \<le> rank s it + 2"
    and pass_keeps:
      "invar s \<Longrightarrow> sub_inv q start del s it \<Longrightarrow> api_pass api d s it = (out, it') \<Longrightarrow>
       \<nexists>ev. out = Yield ev \<Longrightarrow> sub_inv q start del s it' \<and> (out = Finished \<longrightarrow> d)"
    and pass_progress:
      "invar s \<Longrightarrow> sub_inv q start del s it \<Longrightarrow> due_events q start (lg s) = del @ ev # rest \<Longrightarrow>
       api_pass api False s it = (out, it') \<Longrightarrow> \<nexists>ev. out = Yield ev \<Longrightarrow> work s it' < work s it"
    and pass_ends:
      "invar s \<Longrightarrow> sub_inv q start del s it \<Longrightarrow> api_pass api True s it = (out, it') \<Longrightarrow>
       \<nexists>ev. out = Yield ev \<Longrightarrow> out = Finished \<or> rank s it' < rank s it"
    and no_sub_error: "invar s \<Longrightarrow> sub_inv q start del s it \<Longrightarrow> api_Err api it = None"
    and work_bound: "work s it \<le> 6"
    and rank_bound: "rank s it \<le> 4"
begin

definition handed :: "SequencedEvent list \<Rightarrow> 'sub subscription \<Rightarrow> SequencedEvent list" where
  "handed received sub = received @ sb_events sub @ (case sb_sending sub of None \<Rightarrow> [] | Some ev \<Rightarrow> [ev])"

definition tracks :: "Query \<Rightarrow> SequencePosition \<Rightarrow> SequencedEvent list \<Rightarrow> 'st \<Rightarrow> 'sub subscription \<Rightarrow> bool" where
  "tracks q start received s sub \<longleftrightarrow>
     invar s \<and> sub_inv q start (handed received sub) s (sb_it sub)
     \<and> (\<exists>rest. due_events q start (lg s) = handed received sub @ rest)
     \<and> (sb_closed sub \<longrightarrow> sb_cancelled sub)"

lemma tracks_subscribe:
  assumes "invar s" and "constructed q" and "single_tags q"
    and "start_of opts = SequencePositionInitial \<or> start_of opts \<in> sePosition ` set (lg s)"
  obtains sub where "mustSubscribe api s q opts = Some sub" "tracks q (start_of opts) [] s sub" "\<not> sb_cancelled sub"
proof -
  obtain it where "api_Subscribe api s q opts = Ok it" "sub_inv q (start_of opts) [] s it"
    using subscribe_starts [OF assms] by blast
  then show thesis
    using assms(1)
    by (intro that [of "\<lparr>sb_it = it, sb_events = [], sb_sending = None, sb_closed = False, sb_cancelled = False\<rparr>"])
      (simp_all add: mustSubscribe_def tracks_def handed_def)
qed

lemma tracks_pass:
  assumes "tracks q start received s sub"
  shows "tracks q start received s (goroutine_pass api s sub)"
    and "sb_cancelled (goroutine_pass api s sub) = sb_cancelled sub"
proof -
  have inv: "invar s" "sub_inv q start (handed received sub) s (sb_it sub)"
    using assms by (simp_all add: tracks_def)
  obtain out it' where pass: "api_pass api (sb_cancelled sub) s (sb_it sub) = (out, it')" by fastforce
  have yields: "(\<exists>rest. due_events q start (lg s) = handed received sub @ ev # rest)
      \<and> sub_inv q start (handed received sub @ [ev]) s it'" if "out = Yield ev" for ev
    using pass_yields [OF inv] pass that by blast
  have keeps: "sub_inv q start (handed received sub) s it' \<and> (out = Finished \<longrightarrow> sb_cancelled sub)"
    if "\<nexists>ev. out = Yield ev"
    using pass_keeps [OF inv pass that] .
  show "tracks q start received s (goroutine_pass api s sub)"
    using assms pass yields keeps
    by (cases out) (auto simp: tracks_def goroutine_pass_def handed_def split: option.splits)
  show "sb_cancelled (goroutine_pass api s sub) = sb_cancelled sub"
    using pass by (cases out) (auto simp: goroutine_pass_def split: option.splits)
qed

lemma tracks_background:
  "tracks q start received s sub \<Longrightarrow>
     tracks q start received s (background n api s sub) \<and> sb_cancelled (background n api s sub) = sb_cancelled sub"
  by (induction n arbitrary: sub) (simp_all add: tracks_pass)

lemma tracks_append:
  assumes "invar s" and "room s (Suc n)" and "list_all plain_tag tags"
  obtains p s' where "mustAppendEvent api s t tags = Some (p, s')"
    "lg s' = lg s @ [at (stored (event_of t tags)) p]" "room s' n" "invar s'"
    "SequencePositionInitial < p" "positions_ascend (lg s')"
    "\<forall>q start received sub. tracks q start received s sub \<longrightarrow> tracks q start received s' sub"
proof -
  note i0 = assms(1)
  obtain p s' where s': "mustAppendEvent api s t tags = Some (p, s')"
      "lg s' = lg s @ [at (stored (event_of t tags)) p]" "invar s'" "room s' n" "SequencePositionInitial < p"
      "positions_ascend (lg s')"
    by (rule mustAppendEvent_step [OF i0 assms(2,3), of t])
  let ?cmds = "[plain_command [event_of t tags]]"
  have run: "append s ?cmds = (Ok p, s')"
    using s'(1) assms(3) by (cases "append s ?cmds" rule: prod.exhaust; cases "fst (append s ?cmds)")
      (auto simp: mustAppendEvent_def mustEvent_eq api_operations)
  have st: "storable ?cmds"
    by (rule suite_storable [OF i0]) (use assms(3) in \<open>simp add: suite_commands_def plain_command_def\<close>)
  have rm: "room s (length (command_events ?cmds))"
    using room_mono [of s 1 n] assms(2) by (simp add: plain_command_def)
  have "tracks q start received s' sub" if "tracks q start received s sub" for q start received sub
    using that append_keeps [OF _ i0 st rm run] s'(2,3) by (auto simp: tracks_def due_events_def)
  then show thesis using that s' by blast
qed

text \<open>A bounded wait receives the next event that is due.\<close>

lemma live_pass:
  assumes "tracks q start received s sub" and "\<not> sb_cancelled sub" and "sb_events sub = []"
    and "due_events q start (lg s) = received @ ev # rest"
  shows "sb_events (goroutine_pass api s sub) = [ev]
    \<or> sb_events (goroutine_pass api s sub) = []
      \<and> (sb_sending (goroutine_pass api s sub) \<noteq> None
         \<or> work s (sb_it (goroutine_pass api s sub)) < work s (sb_it sub))"
proof -
  have inv: "invar s" "sub_inv q start (handed received sub) s (sb_it sub)" and opened: "\<not> sb_closed sub"
    using assms(1,2) by (simp_all add: tracks_def)
  obtain out it' where pass: "api_pass api False s (sb_it sub) = (out, it')" by fastforce
  show ?thesis
  proof (cases "sb_sending sub")
    case (Some e)
    then have "e = ev" using assms(1,3,4) by (auto simp: tracks_def handed_def)
    then show ?thesis using Some opened assms(3) by (simp add: goroutine_pass_def channelCapacity_def)
  next
    case None
    then have due: "due_events q start (lg s) = handed received sub @ ev # rest"
      using assms(3,4) by (simp add: handed_def)
    show ?thesis
      using None opened assms(2,3) pass pass_progress [OF inv due pass]
      by (cases out) (simp_all add: goroutine_pass_def)
  qed
qed

lemma tracks_receive:
  assumes "tracks q start received s sub" and "\<not> sb_cancelled sub"
    and "due_events q start (lg s) = received @ ev # rest" and "8 \<le> timeout"
  obtains sub' where "receive_loop timeout api s sub = Some (ev, sub')" "tracks q start (received @ [ev]) s sub'"
    "\<not> sb_cancelled sub'"
proof -
  have "\<exists>sub'. receive_loop n api s sub = Some (ev, sub') \<and> tracks q start (received @ [ev]) s sub' \<and> \<not> sb_cancelled sub'"
    if "(if sb_events sub \<noteq> [] then 0 else if sb_sending sub \<noteq> None then 1 else work s (sb_it sub) + 2) \<le> n" for n
    using that assms(1,2)
  proof (induction n arbitrary: sub)
    case (Suc n)
    show ?case
    proof (cases "sb_events sub")
      case Nil
      let ?sub = "goroutine_pass api s sub"
      have t: "tracks q start received s ?sub" "\<not> sb_cancelled ?sub"
        using tracks_pass [OF Suc.prems(2)] Suc.prems(3) by simp_all
      have "(if sb_events ?sub \<noteq> [] then 0 else if sb_sending ?sub \<noteq> None then 1 else work s (sb_it ?sub) + 2) \<le> n"
        using live_pass [OF Suc.prems(2,3) Nil assms(3)] Suc.prems(1,3) Suc.prems(2) [unfolded tracks_def] Nil
        by (cases "sb_sending sub") (auto split: if_splits simp: goroutine_pass_def channelCapacity_def)
      from Suc.IH [OF this t] show ?thesis
        using Nil Suc.prems(2,3) by (subst receive_loop.simps) (simp add: tracks_def)
    next
      case (Cons e es)
      then have "e = ev" using Suc.prems(2) assms(3) by (auto simp: tracks_def handed_def)
      then show ?thesis
        using Cons Suc.prems(2,3) by (subst receive_loop.simps) (auto simp: tracks_def handed_def)
    qed
  next
    case 0
    then obtain e es where e: "sb_events sub = e # es" by (cases "sb_events sub") (auto split: if_splits)
    then have "e = ev" using 0 assms(3) by (auto simp: tracks_def handed_def)
    then show ?case
      using e 0 by (subst receive_loop.simps) (auto simp: tracks_def handed_def)
  qed
  moreover have "(if sb_events sub \<noteq> [] then 0 else if sb_sending sub \<noteq> None then 1 else work s (sb_it sub) + 2) \<le> timeout"
    using work_bound [of s "sb_it sub"] assms(4) by auto
  ultimately show thesis using that by blast
qed

text \<open>With a cancelled context the goroutine ends and the channel is closed.\<close>

definition to_close :: "Query \<Rightarrow> SequencePosition \<Rightarrow> SequencedEvent list \<Rightarrow> 'st \<Rightarrow> 'sub subscription \<Rightarrow> nat" where
  "to_close q start received s sub =
     length (sb_events sub) + (if sb_sending sub = None then 0 else 2)
     + (if sb_closed sub then 0
        else 5 * (length (due_events q start (lg s)) - length (handed received sub)) + rank s (sb_it sub) + 1)"

lemma cancelled_pass:
  assumes "tracks q start received s sub" and "sb_cancelled sub" and "\<not> sb_closed sub" and "sb_events sub = []"
  shows "to_close q start received s (goroutine_pass api s sub) < to_close q start received s sub"
proof -
  have inv: "invar s" "sub_inv q start (handed received sub) s (sb_it sub)"
    using assms(1) by (simp_all add: tracks_def)
  obtain out it' where pass: "api_pass api True s (sb_it sub) = (out, it')" by fastforce
  show ?thesis
  proof (cases "sb_sending sub")
    case (Some e)
    then show ?thesis
      using assms(3,4) by (simp add: goroutine_pass_def to_close_def handed_def channelCapacity_def)
  next
    case None
    show ?thesis
    proof (cases "\<exists>ev. out = Yield ev")
      case True
      then obtain ev where ev: "out = Yield ev" by blast
      obtain rest where rest: "due_events q start (lg s) = handed received sub @ ev # rest" and "rank s it' \<le> rank s (sb_it sub) + 2"
        using pass_yields [OF inv pass [unfolded ev]] by blast
      then show ?thesis
        using None assms(2-4) pass ev by (simp add: goroutine_pass_def to_close_def handed_def)
    next
      case False
      then show ?thesis
        using None assms(2-4) pass pass_ends [OF inv pass False]
        by (cases out) (auto simp: goroutine_pass_def to_close_def handed_def)
    qed
  qed
qed

lemma tracks_closes:
  assumes "tracks q start received s sub" and "sb_cancelled sub" and "to_close q start received s sub \<le> n"
  shows "\<exists>sub' received'. closed_loop n api s sub = Some sub' \<and> tracks q start received' s sub'
    \<and> sb_cancelled sub' \<and> sb_closed sub' \<and> sb_events sub' = []"
  using assms
proof (induction n arbitrary: sub received)
  case 0
  then have "sb_events sub = [] \<and> sb_closed sub" by (auto simp: to_close_def split: if_splits)
  with 0 show ?case by (subst closed_loop.simps) auto
next
  case (Suc n)
  show ?case
  proof (cases "sb_events sub")
    case Nil
    show ?thesis
    proof (cases "sb_closed sub")
      case True
      with Nil Suc.prems show ?thesis by (subst closed_loop.simps) auto
    next
      case False
      let ?sub = "goroutine_pass api s sub"
      have "to_close q start received s ?sub \<le> n"
        using cancelled_pass [OF Suc.prems(1,2) False Nil] Suc.prems(3) by linarith
      from Suc.IH [OF tracks_pass(1) [OF Suc.prems(1)] _ this] show ?thesis
        using tracks_pass(2) [OF Suc.prems(1)] Suc.prems(2) Nil False by (subst closed_loop.simps) simp
    qed
  next
    case (Cons e es)
    let ?sub = "sub\<lparr>sb_events := es\<rparr>"
    have h: "handed (received @ [e]) ?sub = handed received sub" using Cons by (simp add: handed_def)
    then have "tracks q start (received @ [e]) s ?sub" using Suc.prems(1) by (simp add: tracks_def)
    moreover have "to_close q start (received @ [e]) s ?sub \<le> n"
      using Suc.prems(3) Cons h by (auto simp: to_close_def split: if_splits)
    ultimately show ?thesis
      using Suc.IH [of "received @ [e]" ?sub] Suc.prems(2) Cons by (subst closed_loop.simps) simp
  qed
qed

lemma to_close_bound:
  assumes "tracks q start received s sub"
  shows "to_close q start received s sub \<le> 6 * length (lg s) + 8"
proof -
  obtain rest where "due_events q start (lg s) = handed received sub @ rest" using assms by (auto simp: tracks_def)
  from arg_cong [OF this, of length]
  have "length (sb_events sub) \<le> length (due_events q start (lg s))" by (simp add: handed_def)
  moreover have "length (due_events q start (lg s)) \<le> length (lg s)" by (simp add: due_events_def)
  moreover have "5 * (length (due_events q start (lg s)) - length (handed received sub)) \<le> 5 * length (due_events q start (lg s))"
    by simp
  ultimately show ?thesis
    using rank_bound [of s "sb_it sub"] unfolding to_close_def by (auto simp del: mult_le_mono)
qed

lemma tracks_cancel [simp]: "tracks q start received s sub \<Longrightarrow> tracks q start received s (cancel sub)"
  by (simp add: tracks_def cancel_def handed_def)

lemma tracks_assertClosed:
  assumes "tracks q start received s sub" and "sb_cancelled sub" and "6 * length (lg s) + 8 \<le> timeout"
  shows "\<exists>sub' received'. assertClosed n timeout api s sub = Some sub' \<and> tracks q start received' s sub'"
proof -
  have t: "tracks q start received s (background n api s sub)" and c: "sb_cancelled (background n api s sub)"
    using tracks_background [OF assms(1)] assms(2) by simp_all
  have "to_close q start received s (background n api s sub) \<le> timeout"
    using to_close_bound [OF t] assms(3) by linarith
  with tracks_closes [OF t c this] show ?thesis by (auto simp: assertClosed_def)
qed

lemma tracks_stop:
  assumes "tracks q start received s sub" and "6 * length (lg s) + 8 \<le> timeout"
  shows "\<exists>sub'. stop n timeout api s sub = Some sub'"
  using tracks_assertClosed [OF tracks_cancel [OF assms(1)] _ assms(2), of n]
  by (auto simp: stop_def) (auto simp: cancel_def)

end

section \<open>The subscription cases pass\<close>

context live_store
begin

lemma initial_due:
  "\<forall>se \<in> set l. SequencePositionInitial < sePosition se \<Longrightarrow> due_events QueryAll SequencePositionInitial l = l"
  by (simp add: due_events_def)

lemma start_of_all [simp]: "start_of subscribe_all = SequencePositionInitial"
  by (simp add: start_of_def subscribe_all_def)

lemma constructed_all [simp]: "constructed QueryAll"
  by (simp add: constructed_def)

lemma fresh_Suc:
  assumes "fresh s"
  shows "invar s" "lg s = []" "room s (Suc (Suc 0))"
  using assms fresh_room [OF assms, of 2] by (simp_all add: fresh_def largeN_def numeral_2_eq_2)

text \<open>A subscription whose context is live, and the steps of a test with it.\<close>

definition live :: "Query \<Rightarrow> SequencePosition \<Rightarrow> SequencedEvent list \<Rightarrow> 'st \<Rightarrow> 'sub subscription \<Rightarrow> bool" where
  "live q start received s sub \<longleftrightarrow> tracks q start received s sub \<and> \<not> sb_cancelled sub"

lemma live_subscribe:
  assumes "invar s" and "constructed q" and "single_tags q"
    and "start_of opts = SequencePositionInitial \<or> start_of opts \<in> sePosition ` set (lg s)"
  obtains sub where "mustSubscribe api s q opts = Some sub"
    "\<And>n. live q (start_of opts) [] s (background n api s sub)"
  using tracks_subscribe [OF assms] tracks_background by (metis live_def)

definition carries :: "'st \<Rightarrow> 'st \<Rightarrow> bool" where
  "carries s s' \<longleftrightarrow>
     (\<forall>q start received sub k. live q start received s sub \<longrightarrow>
        live q start received s' (background k api s' sub))"

lemma carriesD:
  "carries s s' \<Longrightarrow> live q start received s sub \<Longrightarrow> live q start received s' (background k api s' sub)"
  by (simp add: carries_def)

lemma live_append:
  assumes "invar s" and "room s (Suc n)"
  obtains p s' where "mustAppendEvent api s t [] = Some (p, s')"
    "lg s' = lg s @ [at (stored (event_of t [])) p]" "room s' n" "invar s'"
    "SequencePositionInitial < p" "positions_ascend (lg s')"
    "carries s s'"
proof -
  have tags: "list_all plain_tag []" by simp
  obtain p s' where s': "mustAppendEvent api s t [] = Some (p, s')"
      "lg s' = lg s @ [at (stored (event_of t [])) p]" "room s' n" "invar s'"
      "SequencePositionInitial < p" "positions_ascend (lg s')"
      "\<forall>q start received sub. tracks q start received s sub \<longrightarrow> tracks q start received s' sub"
    by (rule tracks_append [OF assms tags, of t])
  have "carries s s'"
    using s'(7) tracks_background unfolding live_def carries_def by blast
  then show thesis using that [OF s'(1-6)] by blast
qed

lemma live_receive:
  assumes "live q start received s sub" and "due_events q start (lg s) = received @ ev # rest" and "8 \<le> timeout"
  obtains sub' where "mustReceive n timeout api s sub = Some (ev, sub')" "live q start (received @ [ev]) s sub'"
  using tracks_receive [OF _ _ assms(2,3)] tracks_background assms(1) unfolding live_def mustReceive_def by metis

lemma live_stop:
  assumes "live q start received s sub" and "6 * length (lg s) + 8 \<le> timeout"
  shows "passes (stop n timeout api s sub)"
  using tracks_stop [OF _ assms(2), of q start received sub n] assms(1) by (auto simp: live_def)

lemma historical:
  assumes "fresh s" and "20 \<le> timeout"
  shows "historical_case sched timeout api s"
proof -
  note s = fresh_Suc [OF assms(1)]
  have t8: "8 \<le> timeout" using assms(2) by simp
  let ?a = "at (stored (event_of ''A'' []))" and ?b = "at (stored (event_of ''B'' []))"
  obtain pA s1 where s1: "mustAppendEvent api s ''A'' [] = Some (pA, s1)" "lg s1 = lg s @ [?a pA]"
      "room s1 (Suc 0)" "invar s1" "SequencePositionInitial < pA"
    by (rule live_append [OF s(1,3), of "''A''"])
  obtain pB s2 where s2: "mustAppendEvent api s1 ''B'' [] = Some (pB, s2)" "lg s2 = lg s1 @ [?b pB]"
      "invar s2" "SequencePositionInitial < pB"
    by (rule live_append [OF s1(4,3), of "''B''"])
  have due: "due_events QueryAll SequencePositionInitial (lg s2) = [] @ ?a pA # [?b pB]"
    using s1(2,5) s2(2,4) s(2) by (simp add: due_events_def)
  obtain sub where sub: "mustSubscribe api s2 QueryAll subscribe_all = Some sub"
      "\<And>n. live QueryAll SequencePositionInitial [] s2 (background n api s2 sub)"
    using live_subscribe [OF s2(3) constructed_all, of subscribe_all] by auto
  obtain sub1 where r1: "mustReceive (sched 10) timeout api s2 (background (sched 0) api s2 sub) = Some (?a pA, sub1)"
      "live QueryAll SequencePositionInitial ([] @ [?a pA]) s2 sub1"
    by (rule live_receive [OF sub(2) due t8])
  obtain sub2 where r2: "mustReceive (sched 11) timeout api s2 sub1 = Some (?b pB, sub2)"
      "live QueryAll SequencePositionInitial (([] @ [?a pA]) @ [?b pB]) s2 sub2"
    by (rule live_receive [OF r1(2) _ t8, of "?b pB" "[]"]) (simp_all add: due)
  show ?thesis
    using live_stop [OF r2(2)] assms(2) s1(1,2) s2(1,2) sub(1) r1(1) r2(1) s(2) by (simp add: historical_case_def)
qed

lemma live_only:
  assumes "fresh s" and "20 \<le> timeout"
  shows "live_case sched timeout api s"
proof -
  note s = fresh_Suc [OF assms(1)]
  have t8: "8 \<le> timeout" using assms(2) by simp
  let ?a = "at (stored (event_of ''Live'' []))"
  obtain sub where sub: "mustSubscribe api s QueryAll subscribe_all = Some sub"
      "\<And>n. live QueryAll SequencePositionInitial [] s (background n api s sub)"
    using live_subscribe [OF s(1) constructed_all, of subscribe_all] by auto
  obtain p s1 where s1: "mustAppendEvent api s ''Live'' [] = Some (p, s1)" "lg s1 = lg s @ [?a p]"
      "SequencePositionInitial < p"
      "carries s s1"
    by (rule live_append [OF s(1,3), of "''Live''"])
  have due: "due_events QueryAll SequencePositionInitial (lg s1) = [] @ ?a p # []"
    using s1(2,3) s(2) by (simp add: due_events_def)
  obtain sub1 where r1: "mustReceive (sched 10) timeout api s1 (background (sched 1) api s1 (background (sched 0) api s sub))
        = Some (?a p, sub1)" "live QueryAll SequencePositionInitial ([] @ [?a p]) s1 sub1"
    by (rule live_receive [OF carriesD [OF s1(4) sub(2)] due t8])
  show ?thesis
    using live_stop [OF r1(2)] assms(2) s1(1,2) sub(1) r1(1) s(2) by (simp add: live_case_def)
qed

lemma seamless:
  assumes "fresh s" and "20 \<le> timeout"
  shows "seamless_case sched timeout api s"
proof -
  note s = fresh_Suc [OF assms(1)]
  have t8: "8 \<le> timeout" using assms(2) by simp
  let ?a = "at (stored (event_of ''Historical'' []))" and ?b = "at (stored (event_of ''Live'' []))"
  obtain pA s1 where s1: "mustAppendEvent api s ''Historical'' [] = Some (pA, s1)" "lg s1 = lg s @ [?a pA]"
      "room s1 (Suc 0)" "invar s1" "SequencePositionInitial < pA"
    by (rule live_append [OF s(1,3), of "''Historical''"])
  obtain sub where sub: "mustSubscribe api s1 QueryAll subscribe_all = Some sub"
      "\<And>n. live QueryAll SequencePositionInitial [] s1 (background n api s1 sub)"
    using live_subscribe [OF s1(4) constructed_all, of subscribe_all] by auto
  obtain pB s2 where s2: "mustAppendEvent api s1 ''Live'' [] = Some (pB, s2)" "lg s2 = lg s1 @ [?b pB]"
      "SequencePositionInitial < pB"
      "carries s1 s2"
    by (rule live_append [OF s1(4,3), of "''Live''"])
  have due: "due_events QueryAll SequencePositionInitial (lg s2) = [] @ ?a pA # [?b pB]"
    using s1(2,5) s2(2,3) s(2) by (simp add: due_events_def)
  obtain sub1 where r1: "mustReceive (sched 10) timeout api s2 (background (sched 1) api s2 (background (sched 0) api s1 sub))
        = Some (?a pA, sub1)" "live QueryAll SequencePositionInitial ([] @ [?a pA]) s2 sub1"
    by (rule live_receive [OF carriesD [OF s2(4) sub(2)] due t8])
  obtain sub2 where r2: "mustReceive (sched 11) timeout api s2 sub1 = Some (?b pB, sub2)"
      "live QueryAll SequencePositionInitial (([] @ [?a pA]) @ [?b pB]) s2 sub2"
    by (rule live_receive [OF r1(2) _ t8, of "?b pB" "[]"]) (simp_all add: due)
  show ?thesis
    using live_stop [OF r2(2)] assms(2) s1(1,2) s2(1,2) sub(1) r1(1) r2(1) s(2) by (simp add: seamless_case_def)
qed

lemma subscribe_after:
  assumes "fresh s" and "20 \<le> timeout"
  shows "subscribe_after_case sched timeout api s"
proof -
  note s = fresh_Suc [OF assms(1)]
  have t8: "8 \<le> timeout" using assms(2) by simp
  let ?a = "at (stored (event_of ''A'' []))" and ?b = "at (stored (event_of ''B'' []))"
  obtain pA s1 where s1: "mustAppendEvent api s ''A'' [] = Some (pA, s1)" "lg s1 = lg s @ [?a pA]"
      "room s1 (Suc 0)" "invar s1"
    by (rule live_append [OF s(1,3), of "''A''"])
  have start: "start_of (subscribe_all\<lparr>subAfter := Some pA\<rparr>) = pA" by (simp add: start_of_def)
  obtain sub where sub: "mustSubscribe api s1 QueryAll (subscribe_all\<lparr>subAfter := Some pA\<rparr>) = Some sub"
      "\<And>n. live QueryAll pA [] s1 (background n api s1 sub)"
    using live_subscribe [OF s1(4) constructed_all, of "subscribe_all\<lparr>subAfter := Some pA\<rparr>"] start s1(2) by auto
  obtain pB s2 where s2: "mustAppendEvent api s1 ''B'' [] = Some (pB, s2)" "lg s2 = lg s1 @ [?b pB]"
      "positions_ascend (lg s2)"
      "carries s1 s2"
    by (rule live_append [OF s1(4,3), of "''B''"])
  have due: "due_events QueryAll pA (lg s2) = [] @ ?b pB # []"
    using s1(2) s2(2,3) s(2) by (simp add: due_events_def positions_ascend_def)
  obtain sub1 where r1: "mustReceive (sched 10) timeout api s2 (background (sched 1) api s2 (background (sched 0) api s1 sub))
        = Some (?b pB, sub1)" "live QueryAll pA ([] @ [?b pB]) s2 sub1"
    by (rule live_receive [OF carriesD [OF s2(4) sub(2)] due t8])
  show ?thesis
    using live_stop [OF r1(2)] assms(2) s1(1,2) s2(1,2) sub(1) r1(1) s(2) by (simp add: subscribe_after_case_def)
qed

lemma subscribe_query:
  assumes "fresh s" and "20 \<le> timeout"
  shows "subscribe_query_case sched timeout api s"
proof -
  note s = fresh_Suc [OF assms(1)]
  have t8: "8 \<le> timeout" using assms(2) by simp
  let ?q = "item_query [''Target''] []" and ?t = "at (stored (event_of ''Target'' []))"
  obtain sub where sub: "mustSubscribe api s ?q subscribe_all = Some sub"
      "\<And>n. live ?q SequencePositionInitial [] s (background n api s sub)"
    using live_subscribe [OF s(1), of ?q subscribe_all] by auto
  obtain pN s1 where s1: "mustAppendEvent api s ''Noise'' [] = Some (pN, s1)"
      "lg s1 = lg s @ [at (stored (event_of ''Noise'' [])) pN]" "room s1 (Suc 0)" "invar s1" "carries s s1"
    by (rule live_append [OF s(1,3), of "''Noise''"])
  obtain p s2 where s2: "mustAppendEvent api s1 ''Target'' [] = Some (p, s2)" "lg s2 = lg s1 @ [?t p]"
      "SequencePositionInitial < p" "carries s1 s2"
    by (rule live_append [OF s1(4,3), of "''Target''"])
  have due: "due_events ?q SequencePositionInitial (lg s2) = [] @ ?t p # []"
    using s1(2) s2(2,3) s(2) by (simp add: due_events_def query_matches_def item_matches_def item_query_def)
  obtain sub1 where r1: "mustReceive (sched 10) timeout api s2 (background (sched 2) api s2 (background (sched 1) api s1
        (background (sched 0) api s sub))) = Some (?t p, sub1)" "live ?q SequencePositionInitial ([] @ [?t p]) s2 sub1"
    by (rule live_receive [OF carriesD [OF s2(4) carriesD [OF s1(5) sub(2)]] due t8])
  show ?thesis
    using live_stop [OF r1(2)] assms(2) s1(1,2) s2(1,2) sub(1) r1(1) s(2)
    by (simp add: subscribe_query_case_def mustQuery_eq)
qed

lemma two_subscriptions:
  assumes "fresh s" and "20 \<le> timeout"
  shows "two_subscriptions_case sched timeout api s"
proof -
  note s = fresh_Suc [OF assms(1)]
  have t8: "8 \<le> timeout" using assms(2) by simp
  let ?a = "at (stored (event_of ''Shared'' []))"
  obtain sub where sub: "mustSubscribe api s QueryAll subscribe_all = Some sub"
      "\<And>n. live QueryAll SequencePositionInitial [] s (background n api s sub)"
    using live_subscribe [OF s(1) constructed_all, of subscribe_all] by auto
  obtain p s1 where s1: "mustAppendEvent api s ''Shared'' [] = Some (p, s1)" "lg s1 = lg s @ [?a p]"
      "SequencePositionInitial < p" "carries s s1"
    by (rule live_append [OF s(1,3), of "''Shared''"])
  have due: "due_events QueryAll SequencePositionInitial (lg s1) = [] @ ?a p # []"
    using s1(2,3) s(2) by (simp add: due_events_def)
  obtain sub1 where r1: "mustReceive (sched 10) timeout api s1 (background (sched 2) api s1 (background (sched 0) api s sub))
        = Some (?a p, sub1)" "live QueryAll SequencePositionInitial ([] @ [?a p]) s1 sub1"
    by (rule live_receive [OF carriesD [OF s1(4) sub(2)] due t8])
  obtain sub2 where r2: "mustReceive (sched 11) timeout api s1 (background (sched 3) api s1 (background (sched 1) api s sub))
        = Some (?a p, sub2)" "live QueryAll SequencePositionInitial ([] @ [?a p]) s1 sub2"
    by (rule live_receive [OF carriesD [OF s1(4) sub(2)] due t8])
  have "6 * length (lg s1) + 8 \<le> timeout" using assms(2) s1(2) s(2) by simp
  then have "passes (stop (sched 20) timeout api s1 sub1)" "passes (stop (sched 21) timeout api s1 sub2)"
    using live_stop [OF r1(2)] live_stop [OF r2(2)] by blast+
  then show ?thesis
    using s1(1) sub(1) r1(1) r2(1) by (auto simp: two_subscriptions_case_def passes_def)
qed

lemma live_appends_run:
  assumes "invar s" and "room s n" and "live q start received s sub"
  obtains ps s' sub' where "live_appends sched n api s sub = Some (ps, s', sub')"
    "invar s'" "live q start received s' sub'" "length ps = n"
    "lg s' = lg s @ map (at (stored (event_of ''E'' []))) ps" "\<forall>p \<in> set ps. SequencePositionInitial < p"
proof -
  have "\<exists>ps s' sub'. live_appends sched n api s sub = Some (ps, s', sub')
      \<and> invar s' \<and> live q start received s' sub' \<and> length ps = n
      \<and> lg s' = lg s @ map (at (stored (event_of ''E'' []))) ps \<and> (\<forall>p \<in> set ps. SequencePositionInitial < p)"
    using assms
  proof (induction n arbitrary: s sub)
    case (Suc n)
    obtain p s1 where s1: "mustAppendEvent api s ''E'' [] = Some (p, s1)"
        "lg s1 = lg s @ [at (stored (event_of ''E'' [])) p]" "room s1 n" "invar s1" "SequencePositionInitial < p"
        "carries s s1"
      by (rule live_append [OF Suc.prems(1,2), of "''E''"])
    from Suc.IH [OF s1(4,3) carriesD [OF s1(6) Suc.prems(3), of "sched n"]] s1(1,2,5) show ?case by auto
  qed simp
  then show thesis using that by blast
qed

lemma receive_all:
  assumes "live q start received s sub" and "8 \<le> timeout"
    and "due_events q start (lg s) = received @ map (at e) ps"
  obtains sub' where "receive_positions sched timeout api s ps sub = Some sub'"
    "live q start (received @ map (at e) ps) s sub'"
proof -
  have "\<exists>sub'. receive_positions sched timeout api s ps sub = Some sub' \<and> live q start (received @ map (at e) ps) s sub'"
    using assms(1,3)
  proof (induction ps arbitrary: received sub)
    case (Cons p ps)
    obtain sub1 where r: "mustReceive (sched (10 + length ps)) timeout api s sub = Some (at e p, sub1)" "live q start (received @ [at e p]) s sub1"
      by (rule live_receive [OF Cons.prems(1) _ assms(2), of "at e p" "map (at e) ps"])
        (use Cons.prems(2) in simp_all)
    from Cons.IH [OF r(2)] Cons.prems(2) r(1) show ?case by auto
  qed simp
  then show thesis using that by blast
qed

lemma ordering:
  assumes "fresh s" and "40 \<le> timeout"
  shows "ordering_case sched timeout api s"
proof -
  let ?e = "stored (event_of ''E'' [])"
  have i0: "invar s" and l0: "lg s = []" and r0: "room s 5" and t8: "8 \<le> timeout"
    using assms fresh_room [OF assms(1), of 5] by (simp_all add: fresh_def largeN_def)
  obtain sub where sub: "mustSubscribe api s QueryAll subscribe_all = Some sub"
      "\<And>n. live QueryAll SequencePositionInitial [] s (background n api s sub)"
    using live_subscribe [OF i0 constructed_all, of subscribe_all] by auto
  obtain ps s1 sub1 where s1: "live_appends sched 5 api s (background (sched 5) api s sub) = Some (ps, s1, sub1)"
      "live QueryAll SequencePositionInitial [] s1 sub1" "length ps = 5" "lg s1 = lg s @ map (at ?e) ps"
      "\<forall>p \<in> set ps. SequencePositionInitial < p"
    by (rule live_appends_run [OF i0 r0 sub(2), of sched])
  have due: "due_events QueryAll SequencePositionInitial (lg s1) = [] @ map (at ?e) ps"
    using s1(4,5) l0 by (simp add: initial_due)
  obtain sub2 where r: "receive_positions sched timeout api s1 ps sub1 = Some sub2"
      "live QueryAll SequencePositionInitial ([] @ map (at ?e) ps) s1 sub2"
    by (rule receive_all [OF s1(2) t8 due])
  show ?thesis
    using live_stop [OF r(2)] assms(2) s1(1,3,4) sub(1) r(1) l0 by (simp add: ordering_case_def)
qed

lemma cancellation:
  assumes "fresh s" and "20 \<le> timeout"
  shows "cancellation_case sched timeout api s"
proof -
  note s = fresh_Suc [OF assms(1)]
  obtain sub where sub: "mustSubscribe api s QueryAll subscribe_all = Some sub"
      "\<And>n. live QueryAll SequencePositionInitial [] s (background n api s sub)"
    using live_subscribe [OF s(1) constructed_all, of subscribe_all] by auto
  let ?sub = "cancel (background (sched 0) api s sub)"
  have t: "tracks QueryAll SequencePositionInitial [] s ?sub" and c: "sb_cancelled ?sub"
    using sub(2) [of "sched 0"] by (simp add: live_def, simp add: cancel_def)
  obtain sub' received' where sub': "assertClosed (sched 1) timeout api s ?sub = Some sub'"
      "tracks QueryAll SequencePositionInitial received' s sub'"
    using tracks_assertClosed [OF t c, of timeout "sched 1"] assms(2) s(2) by auto
  then have "api_Err api (sb_it sub') = None"
    using no_sub_error [OF s(1)] by (auto simp: tracks_def)
  moreover have "\<exists>sub''. stop (sched 20) timeout api s sub' = Some sub''"
    using tracks_stop [OF sub'(2)] assms(2) s(2) by simp
  ultimately show ?thesis
    using sub(1) sub'(1) by (auto simp: cancellation_case_def)
qed

lemma testSubscribe_passes:
  assumes "fresh s" and "40 \<le> timeout"
  shows "testSubscribe sched timeout api s"
proof -
  have "20 \<le> timeout" using assms(2) by simp
  then show ?thesis
    using assms historical live_only seamless subscribe_after subscribe_query two_subscriptions ordering cancellation
    by (simp add: testSubscribe_def)
qed

lemma Run_passes:
  assumes "fresh s" and "mset order = mset [0..<racers]" and "40 \<le> timeout"
  shows "Run order sched timeout api s"
  using testAppend_passes [OF assms(1)] testRead_passes [OF assms(1)]
    testSubscribe_passes [OF assms(1,3)] testConcurrency_passes [OF assms(1,2)]
  by (simp add: Run_def)

end

end
