(* ===== verification/Conformance_Memory.thy ===== *)
theory Conformance_Memory
  imports Conformance_Subscribe Memory_Subscribe
begin

text \<open>
  The in-memory store as a store under test: its methods on a live context, with one pass of
  \<open>subscribeIterator.Next\<close> as the subscription's step. Blocked in its \<open>select\<close>, an
  iterator waits on the broadcast channel it captured; when that channel is closed and the
  context is done as well, Go picks either case, and the choice is an argument. The pass is
  the step relation of the subscription theory made into a function, so its invariant carries
  over, and the store satisfies the contracts of the suite.
\<close>

type_synonym mem_sub = "subscribeIterator \<times> nat option"

fun mem_pass :: "bool \<Rightarrow> bool \<Rightarrow> Mem \<Rightarrow> mem_sub \<Rightarrow> sub_pass \<times> mem_sub" where
  "mem_pass wakes ctxDone m (it, None) =
     (case next_pass m it of
        (ReturnTrue, it') \<Rightarrow> (Yield (the (sub_current it')), (it', None))
      | (Again, it') \<Rightarrow> (Continue, (it', None))
      | (Block ch, it') \<Rightarrow> (Continue, (it', Some ch)))"
| "mem_pass wakes ctxDone m (it, Some ch) =
     (if ch \<in> closed_chans (mem_chans m) \<and> (wakes \<or> \<not> ctxDone) then (Continue, (it, None))
      else if ctxDone then (Finished, (it, Some ch))
      else (Blocked, (it, Some ch)))"

definition mem_api :: "bool \<Rightarrow> (Mem, sliceIterator, mem_sub) store_api" where
  "mem_api wakes =
     \<lparr>api_Append = mem_Append None, api_Read = mem_Read None, api_iterator = sliceIterator_methods,
      api_Subscribe = (\<lambda>m query opts. bind_outcome (mem_Subscribe None query opts) (\<lambda>it. Ok (it, None))),
      api_pass = mem_pass wakes, api_Err = (\<lambda>_. None), api_Close = (\<lambda>it. it)\<rparr>"

definition mem_sub_sys :: "SequencedEvent list \<Rightarrow> Mem \<Rightarrow> mem_sub \<Rightarrow> sub_sys" where
  "mem_sub_sys del m sub =
     \<lparr>sys_mem = m, sys_it = fst sub, sys_pc = (case snd sub of None \<Rightarrow> InLoop | Some ch \<Rightarrow> Waiting ch),
      sys_done = True, sys_delivered = del\<rparr>"

definition mem_sub_inv :: "Query \<Rightarrow> SequencePosition \<Rightarrow> SequencedEvent list \<Rightarrow> Mem \<Rightarrow> mem_sub \<Rightarrow> bool" where
  "mem_sub_inv q start del m sub \<longleftrightarrow> sub_inv q start (mem_sub_sys del m sub)"

text \<open>Passes until the next event is returned, and until a cancelled subscription ends.\<close>

definition mem_work :: "Mem \<Rightarrow> mem_sub \<Rightarrow> nat" where
  "mem_work m sub =
     (case snd sub of Some ch \<Rightarrow> 3 | None \<Rightarrow> if sub_pending (fst sub) = [] then 2 else 1)"

definition mem_rank :: "Mem \<Rightarrow> mem_sub \<Rightarrow> nat" where
  "mem_rank m sub =
     (case snd sub of
        Some ch \<Rightarrow> if ch \<in> closed_chans (mem_chans m) then 4 else 1
      | None \<Rightarrow> if sub_pending (fst sub) = [] then 3 else 2)"

lemma due_eq: "due q start m = due_events q start (store_events (mem_store m))"
  by (simp add: due_def due_events_def)

lemma mem_pass_drains:
  assumes "mem_sub_inv q start del m (it, None)" and "sub_pending it = []"
  obtains r where "due q start m = del @ r" "next_pass m it =
    (if r = [] then (Block (store_broadcast (mem_store m)), it) else (Again, it\<lparr>sub_pending := r\<rparr>))"
proof -
  let ?z = "mem_sub_sys del m (it, None)"
  have inv: "sub_inv q start ?z" and nil: "sub_pending (sys_it ?z) = []"
    using assms by (simp_all add: mem_sub_inv_def mem_sub_sys_def)
  have z: "sys_mem ?z = m" "sys_it ?z = it" "sys_delivered ?z = del" by (simp_all add: mem_sub_sys_def)
  show thesis by (rule sub_inv_pass [OF inv nil]) (use that in \<open>simp add: z\<close>)
qed

lemma mem_pass_yields:
  assumes "mem_sub_inv q start del m sub" and "mem_pass wakes d m sub = (Yield ev, sub')"
  shows "(\<exists>rest. due_events q start (store_events (mem_store m)) = del @ ev # rest)
    \<and> mem_sub_inv q start (del @ [ev]) m sub' \<and> mem_rank m sub' \<le> mem_rank m sub + 2"
proof -
  obtain it where sub: "sub = (it, None)"
    using assms(2) by (cases "(wakes, d, m, sub)" rule: mem_pass.cases) (auto split: if_splits)
  obtain x xs where xs: "sub_pending it = x # xs"
    using assms(2) sub by (cases "sub_pending it") (auto simp: next_pass.simps Let_def split: if_splits)
  then have eq: "ev = x" "sub' = (it\<lparr>sub_current := Some x, sub_pending := xs, sub_position := sePosition x\<rparr>, None)"
    using assms(2) sub by (auto simp: next_pass.simps)
  let ?idle = "(mem_sub_sys (del @ [ev]) m sub')\<lparr>sys_pc := Idle\<rparr>"
  have "sub_step (mem_sub_sys del m sub) ?idle"
    using sub_step.return_true [of "mem_sub_sys del m sub" "fst sub'" x] sub xs eq
    by (simp add: mem_sub_sys_def next_pass.simps)
  moreover have "sub_step ?idle (mem_sub_sys (del @ [ev]) m sub')"
    using sub_step.call [of ?idle] eq by (simp add: mem_sub_sys_def)
  ultimately have "mem_sub_inv q start (del @ [ev]) m sub'"
    using assms(1) sub_inv_step unfolding mem_sub_inv_def by blast
  moreover have "\<exists>rest. due q start m = del @ ev # rest"
    using assms(1) sub xs eq by (auto simp: mem_sub_inv_def sub_inv_def mem_sub_sys_def)
  ultimately show ?thesis using sub xs eq by (simp add: due_eq mem_rank_def)
qed

lemma mem_pass_keeps:
  assumes "mem_sub_inv q start del m sub" and "mem_pass wakes d m sub = (out, sub')"
    and "\<nexists>ev. out = Yield ev"
  shows "mem_sub_inv q start del m sub' \<and> (out = Finished \<longrightarrow> d)"
proof (cases sub)
  case (Pair it c)
  have "mem_sub_sys del m sub' = mem_sub_sys del m sub \<or> sub_step (mem_sub_sys del m sub) (mem_sub_sys del m sub')"
  proof (cases c)
    case None
    then show ?thesis
      using assms(2,3) Pair sub_step.again [of "mem_sub_sys del m sub" "fst sub'"]
        sub_step.block [of "mem_sub_sys del m sub" "the (snd sub')" "fst sub'"]
      by (auto simp: mem_sub_sys_def split: prod.splits pass.splits)
  next
    case (Some ch)
    then show ?thesis
      using assms(2) Pair sub_step.wake [of "mem_sub_sys del m sub" ch]
      by (auto simp: mem_sub_sys_def split: if_splits)
  qed
  then have "mem_sub_inv q start del m sub'"
    using assms(1) sub_inv_step unfolding mem_sub_inv_def by auto
  moreover have "out = Finished \<longrightarrow> d"
    using assms(2) Pair by (cases c) (auto split: prod.splits pass.splits if_splits)
  ultimately show ?thesis ..
qed

lemma mem_pass_progress:
  assumes "mem_sub_inv q start del m sub" and "due q start m = del @ ev # rest"
    and "mem_pass wakes False m sub = (out, sub')" and "\<nexists>ev. out = Yield ev"
  shows "mem_work m sub' < mem_work m sub"
proof (cases sub)
  case (Pair it c)
  show ?thesis
  proof (cases c)
    case (Some ch)
    then have "ch \<in> closed_chans (mem_chans m)"
      using assms(1,2) Pair by (auto simp: mem_sub_inv_def sub_inv_def mem_sub_sys_def)
    then show ?thesis using assms(3) Pair Some by (auto simp: mem_work_def)
  next
    case None
    have nil: "sub_pending it = []"
      using assms(3,4) Pair None by (auto simp: next_pass.simps split: list.splits)
    obtain r where "due q start m = del @ r" "next_pass m it =
        (if r = [] then (Block (store_broadcast (mem_store m)), it) else (Again, it\<lparr>sub_pending := r\<rparr>))"
      by (rule mem_pass_drains [OF assms(1) [unfolded Pair None] nil])
    then show ?thesis using assms(2,3) Pair None nil by (auto simp: mem_work_def)
  qed
qed

lemma mem_pass_ends:
  assumes "mem_sub_inv q start del m sub" and "mem_pass wakes True m sub = (out, sub')" and "\<nexists>ev. out = Yield ev"
  shows "out = Finished \<or> mem_rank m sub' < mem_rank m sub"
proof (cases sub)
  case (Pair it c)
  show ?thesis
  proof (cases c)
    case (Some ch)
    then show ?thesis using assms(2) Pair by (auto simp: mem_rank_def split: if_splits)
  next
    case None
    have nil: "sub_pending it = []"
      using assms(2,3) Pair None by (auto simp: next_pass.simps split: list.splits)
    have broadcast: "store_broadcast (mem_store m) \<notin> closed_chans (mem_chans m)"
      using assms(1) by (simp add: mem_sub_inv_def sub_inv_def mem_ok_def chans_ok_def mem_sub_sys_def)
    obtain r where "due q start m = del @ r" "next_pass m it =
        (if r = [] then (Block (store_broadcast (mem_store m)), it) else (Again, it\<lparr>sub_pending := r\<rparr>))"
      by (rule mem_pass_drains [OF assms(1) [unfolded Pair None] nil])
    then show ?thesis using assms(2) Pair None nil broadcast by (cases "r = []") (auto simp: mem_rank_def)
  qed
qed

section \<open>The store satisfies the contracts\<close>

interpretation mem_events: event_store "mem_Append None" "\<lambda>m. store_events (mem_store m)" mem_ok mem_room
  "\<lambda>_. True" "\<lambda>ev. ev" "mem_Read None" sliceIterator_methods
proof unfold_locales
  fix s :: Mem and q opts
  let ?evs = "matchingEvents (store_events (mem_store s)) q opts"
  let ?it = "\<lparr>slice_events = ?evs, slice_idx = 0\<rparr>"
  have "mem_Read None s q opts = Ok ?it" by (simp add: mem_Read_def)
  moreover obtain it' where "Collect_it sliceIterator_methods ?it = Some (Ok (?evs, None), it')"
    using slice.Collect_it_remaining [of ?it] by auto
  ultimately show "\<exists>it it'. mem_Read None s q opts = Ok it \<and> Collect_it sliceIterator_methods it =
      Some (Ok (read_view opts (filter (\<lambda>se. in_read_range opts (sePosition se) \<and> query_matches q (seEvent se))
        (store_events (mem_store s))), None), it')"
    unfolding matchingEvents_eq read_view_def by blast
next
  fix s s' :: Mem and cmds p
  assume ok: "mem_ok s" and room: "mem_room s (length (command_events cmds))" and "mem_Append None s cmds = (Ok p, s')"
  then have ne: "command_events cmds \<noteq> []" and p: "p = lastPosition (store_events (mem_store (appended s cmds)))"
    by (auto simp: mem_Append_eq mem_ok_def split: option.splits if_splits)
  let ?c = "pos_value (lastPosition (store_events (mem_store s)))" and ?n = "length (command_events cmds)"
  have "p = SequencePosition (?c + of_nat ?n)"
    using ne p by (simp add: appended_def lastPosition_last last_numbered)
  moreover have "unat (?c + of_nat ?n) = unat ?c + ?n"
    using room by (simp add: mem_room_def unat_word_ariths unat_of_nat)
  then have "0 < ?c + of_nat ?n" using ne by (simp add: word_less_nat_alt)
  ultimately show "SequencePositionInitial < p"
    by (simp add: SequencePositionInitial_def less_SequencePosition_def)
next
  fix s :: Mem and cmds
  assume ok: "mem_ok s" and "store_events (mem_store s) = []"
    and bad: "\<not> conditions_scoped cmds \<or> command_events cmds = []"
  then have "first_violated 0 (store_events (mem_store s)) cmds = None"
    by (simp add: first_violated_None_iff command_violated_def split: option.splits)
  then show "\<exists>e. mem_Append None s cmds = (Err e, s) \<and> \<not> is_condition_error e"
    using ok bad validate_commands_plain [of cmds]
    by (auto simp: mem_Append_eq mem_ok_def validate_commands_None_iff [symmetric] is_condition_error_def
        split: option.splits)
qed

interpretation mem_suite: suite_store "mem_Append None" "\<lambda>m. store_events (mem_store m)" mem_ok mem_room
  "\<lambda>_. True" "\<lambda>ev. ev" "mem_Read None" sliceIterator_methods "mem_api wakes" for wakes
  by unfold_locales (simp_all add: mem_api_def)

interpretation mem_live: live_store "mem_Append None" "\<lambda>m. store_events (mem_store m)" mem_ok mem_room
  "\<lambda>_. True" "\<lambda>ev. ev" "mem_Read None" sliceIterator_methods "mem_api wakes" mem_sub_inv mem_work mem_rank for wakes
proof unfold_locales
  fix s :: Mem and q and opts :: SubscribeOptions
  assume "mem_ok s"
  then show "\<exists>it. api_Subscribe (mem_api wakes) s q opts = Ok it \<and> mem_sub_inv q (start_of opts) [] s it"
    by (auto simp: mem_api_def mem_Subscribe_def mem_sub_inv_def sub_inv_def mem_sub_sys_def start_of_def Let_def
        split: option.splits)
next
  fix q start del it cmds p and s s' :: Mem
  assume "mem_sub_inv q start del s it" and "mem_room s (length (command_events cmds))"
    and "mem_Append None s cmds = (Ok p, s')"
  then show "mem_sub_inv q start del s' it"
    using sub_inv_append [of q start "mem_sub_sys del s it" cmds None]
    by (simp add: mem_sub_inv_def mem_sub_sys_def)
next
  fix s q start del it d ev it'
  assume "mem_sub_inv q start del s it" and "api_pass (mem_api wakes) d s it = (Yield ev, it')"
  then show "(\<exists>rest. due_events q start (store_events (mem_store s)) = del @ ev # rest)
      \<and> mem_sub_inv q start (del @ [ev]) s it' \<and> mem_rank s it' \<le> mem_rank s it + 2"
    by (intro mem_pass_yields [of _ _ _ _ _ wakes d]) (simp_all add: mem_api_def)
next
  fix s q start del it d out it'
  assume "mem_sub_inv q start del s it" and "api_pass (mem_api wakes) d s it = (out, it')" and "\<nexists>ev. out = Yield ev"
  then show "mem_sub_inv q start del s it' \<and> (out = Finished \<longrightarrow> d)"
    by (intro mem_pass_keeps [of _ _ _ _ it wakes]) (simp_all add: mem_api_def)
next
  fix s q start del it ev rest out it'
  assume "mem_sub_inv q start del s it" and "due_events q start (store_events (mem_store s)) = del @ ev # rest"
    and "api_pass (mem_api wakes) False s it = (out, it')" and "\<nexists>ev. out = Yield ev"
  then show "mem_work s it' < mem_work s it"
    by (intro mem_pass_progress [of q start del s it ev rest wakes out]) (simp_all add: mem_api_def due_eq)
next
  fix s q start del it out it'
  assume "mem_sub_inv q start del s it" and "api_pass (mem_api wakes) True s it = (out, it')" and "\<nexists>ev. out = Yield ev"
  then show "out = Finished \<or> mem_rank s it' < mem_rank s it"
    by (intro mem_pass_ends [of q start del s it wakes]) (simp_all add: mem_api_def)
qed (simp_all add: mem_api_def mem_work_def mem_rank_def split: option.splits)

section \<open>The suite passes\<close>

text \<open>
  C14: the in-memory store passes its conformance suite. Run on a fresh store, all cases of
  \<open>eventstoretest.Run\<close> pass, in whatever order the goroutines of the concurrency cases
  append, however the goroutines that drain subscriptions are scheduled (as long as a wait
  gives them 40 passes of their loop), and whichever ready case a \<open>select\<close> picks.
\<close>

theorem mem_passes_suite:
  assumes "mset order = mset [0..<racers]" and "40 \<le> timeout"
  shows "Run order sched timeout (mem_api wakes) (mem_New [] no_chans)"
proof (rule mem_live.Run_passes [OF _ assms])
  have "store_events (mem_store (mem_New [] no_chans)) = []" by (simp add: mem_New_def make_chan_def)
  then show "mem_suite.fresh (mem_New [] no_chans)"
    using mem_New_empty_ok by (simp add: mem_suite.fresh_def mem_room_def largeN_def SequencePositionInitial_def)
qed

theorem mem_passes_suite_witness: "Run [0..<racers] (\<lambda>_. 1) 40 (mem_api True) (mem_New [] no_chans)"
  by (rule mem_passes_suite) simp_all

end
