(* ===== verification/Pg_Concurrency.thy ===== *)
theory Pg_Concurrency
  imports Pg_Read
begin

text \<open>
  The PostgreSQL store under concurrency: transactions of appends (the stored procedure of
  \<open>store.go\<close>, or the statements of \<open>appendViaCopy\<close>) and read barriers
  (\<open>barrierSnapshot\<close> followed by the cursor's scan) interleaved statement by statement.
  Each transaction takes the advisory locks of its request list one by one in key order,
  waiting while another transaction holds a conflicting one; it then reads the sequence,
  checks its conditions against what is committed (Read Committed: each statement sees what
  has committed when it starts), draws positions one row at a time, and commits or aborts,
  which releases its locks. Aborts may happen at any moment and leave gaps in the sequence.
\<close>

section \<open>Transactions\<close>

datatype job = Write "AppendCommand list" | Barrier Query

datatype phase =
    Acquiring
  | Snapped int
  | Inserting int "Event list" "row list"
  | Reading int
  | Scanned int "row list"
  | Ended

record txn =
  t_job :: job
  t_todo :: "(int64 \<times> bool) list"
  t_held :: "(int64 \<times> bool) list"
  t_phase :: phase

fun requests_of :: "job \<Rightarrow> (int64 \<times> bool) list" where
  "requests_of (Write cmds) = append_requests (leafX (append_keys cmds)) (intentS (append_keys cmds))"
| "requests_of (Barrier q) =
     barrier_requests (leafS (computeReaderLockKeys q)) (intentX (computeReaderLockKeys q))"

text \<open>
  \<open>ORDER BY k\<close> leaves open in which order a key that is asked for in both modes is taken:
  a transaction takes its requests in some order that is sorted by key.
\<close>

definition request_order :: "job \<Rightarrow> (int64 \<times> bool) list \<Rightarrow> bool" where
  "request_order j reqs \<longleftrightarrow>
     mset reqs = mset (requests_of j) \<and> sorted (map (\<lambda>req. sint (fst req)) reqs)"

fun job_ok :: "PgStore \<Rightarrow> job \<Rightarrow> bool" where
  "job_ok s (Write cmds) \<longleftrightarrow> validate_commands cmds = None \<and> command_events cmds \<noteq> [] \<and> pg_storable s cmds"
| "job_ok s (Barrier q) \<longleftrightarrow> constructed q"

definition new_txn :: "job \<Rightarrow> txn" where
  "new_txn j = \<lparr>t_job = j, t_todo = requests_of j, t_held = [], t_phase = Acquiring\<rparr>"

definition ended :: "txn \<Rightarrow> txn" where
  "ended t = t\<lparr>t_todo := [], t_held := [], t_phase := Ended\<rparr>"

definition scan_rows :: "Query \<Rightarrow> int \<Rightarrow> row list \<Rightarrow> row list" where
  "scan_rows q hwm rows = filter (\<lambda>r. row_pos r \<le> hwm \<and> query_selects q r) rows"

text \<open>
  The steps of a transaction that holds all its locks, with their effect on the database. The
  fifth argument is what the step commits.
\<close>

inductive txn_step :: "PgStore \<Rightarrow> PgDb \<Rightarrow> txn \<Rightarrow> PgDb \<Rightarrow> txn \<Rightarrow> row list \<Rightarrow> bool" for s where
  read_hwm:
    "t_phase t = Acquiring \<Longrightarrow> t_todo t = [] \<Longrightarrow> t_job t = Write cmds \<Longrightarrow>
     txn_step s db t db (t\<lparr>t_phase := Snapped (seq_hwm (db_seq db))\<rparr>) []"
| check_fails:
    "t_phase t = Snapped hwm \<Longrightarrow> t_job t = Write cmds \<Longrightarrow> serializeConditions cmds = Ok arrays \<Longrightarrow>
     append_check arrays hwm (db_rows db) = Some e \<Longrightarrow> txn_step s db t db (ended t) []"
| check_passes:
    "t_phase t = Snapped hwm \<Longrightarrow> t_job t = Write cmds \<Longrightarrow> serializeConditions cmds = Ok arrays \<Longrightarrow>
     append_check arrays hwm (db_rows db) = None \<Longrightarrow>
     txn_step s db t db (t\<lparr>t_phase := Inserting hwm (command_events cmds) []\<rparr>) []"
| insert_row:
    "t_phase t = Inserting hwm (ev # evs) new \<Longrightarrow> nextval (db_seq db) = Ok p \<Longrightarrow>
     r = function_row p ev \<or> r = copy_row p ev \<Longrightarrow>
     txn_step s db t (db\<lparr>db_seq := Some p\<rparr>) (t\<lparr>t_phase := Inserting hwm evs (new @ [r])\<rparr>) []"
| commit_rows:
    "t_phase t = Inserting hwm [] new \<Longrightarrow> new \<noteq> [] \<Longrightarrow>
     txn_step s db t
       (db\<lparr>db_rows := db_rows db @ new,
           db_notified := db_notified db @ [(notifyChannel s, format_int (row_pos (last new)))]\<rparr>)
       (ended t) new"
| insert_fails:
    "t_phase t = Inserting hwm (ev # evs) new \<Longrightarrow> nextval (db_seq db) = Err e \<Longrightarrow>
     txn_step s db t db (ended t) []"
| barrier:
    "t_phase t = Acquiring \<Longrightarrow> t_todo t = [] \<Longrightarrow> t_job t = Barrier q \<Longrightarrow>
     txn_step s db t db (t\<lparr>t_held := [], t_phase := Reading (seq_hwm (db_seq db))\<rparr>) []"
| scan:
    "t_phase t = Reading hwm \<Longrightarrow> t_job t = Barrier q \<Longrightarrow>
     txn_step s db t db (t\<lparr>t_phase := Scanned hwm (scan_rows q hwm (db_rows db))\<rparr>) []"

section \<open>The system\<close>

record pg_sys =
  sys_db :: PgDb
  sys_txns :: "txn list"
  sys_commits :: "(AppendCommand list \<times> row list) list"

definition compatible :: "int64 \<times> bool \<Rightarrow> int64 \<times> bool \<Rightarrow> bool" where
  "compatible a b \<longleftrightarrow> (fst a = fst b \<longrightarrow> \<not> snd a \<and> \<not> snd b)"

definition grantable :: "txn list \<Rightarrow> nat \<Rightarrow> int64 \<times> bool \<Rightarrow> bool" where
  "grantable ts i req \<longleftrightarrow>
     (\<forall>j < length ts. j \<noteq> i \<longrightarrow> list_all (compatible req) (t_held (ts ! j)))"

definition committed_by :: "txn \<Rightarrow> row list \<Rightarrow> (AppendCommand list \<times> row list) list" where
  "committed_by t new = (case t_job t of Write cmds \<Rightarrow> if new = [] then [] else [(cmds, new)] | Barrier q \<Rightarrow> [])"

text \<open>
  The system advances when a transaction takes its next lock or does its next statement; new
  calls may start and running ones be cut off at any time.
\<close>

inductive advance :: "PgStore \<Rightarrow> pg_sys \<Rightarrow> pg_sys \<Rightarrow> bool" for s where
  lock:
    "i < length (sys_txns w) \<Longrightarrow> t = sys_txns w ! i \<Longrightarrow> t_phase t = Acquiring \<Longrightarrow>
     t_todo t = req # rest \<Longrightarrow> grantable (sys_txns w) i req \<Longrightarrow>
     advance s w (w\<lparr>sys_txns := (sys_txns w)[i := t\<lparr>t_todo := rest, t_held := req # t_held t\<rparr>]\<rparr>)"
| local:
    "i < length (sys_txns w) \<Longrightarrow> t = sys_txns w ! i \<Longrightarrow> txn_step s (sys_db w) t db' t' new \<Longrightarrow>
     advance s w (w\<lparr>sys_db := db', sys_txns := (sys_txns w)[i := t'],
                    sys_commits := sys_commits w @ committed_by t new\<rparr>)"

inductive pg_step :: "PgStore \<Rightarrow> pg_sys \<Rightarrow> pg_sys \<Rightarrow> bool" for s where
  start:
    "job_ok s j \<Longrightarrow> request_order j reqs \<Longrightarrow>
     pg_step s w (w\<lparr>sys_txns := sys_txns w @ [(new_txn j)\<lparr>t_todo := reqs\<rparr>]\<rparr>)"
| abort:
    "i < length (sys_txns w) \<Longrightarrow> \<forall>hwm rows. t_phase (sys_txns w ! i) \<noteq> Scanned hwm rows \<Longrightarrow>
     pg_step s w (w\<lparr>sys_txns := (sys_txns w)[i := ended (sys_txns w ! i)]\<rparr>)"
| advances: "advance s w w' \<Longrightarrow> pg_step s w w'"

inductive_cases advance_elim: "advance s w w'"
inductive_cases pg_step_elim: "pg_step s w w'"

lemma requests_sorted: "sorted (map (\<lambda>req. sint (fst req)) (requests_of j))"
  using writer_requests_sorted barrier_requests_sorted
  by (cases j) (simp_all add: append_requests_def case_prod_unfold)

lemma request_order_requests [simp]: "request_order j (requests_of j)"
  by (simp add: request_order_def requests_sorted)

lemma request_order_set: "request_order j reqs \<Longrightarrow> set reqs = set (requests_of j)"
  unfolding request_order_def by (metis mset_eq_setD)

lemma start_new: "job_ok s j \<Longrightarrow> pg_step s w (w\<lparr>sys_txns := sys_txns w @ [new_txn j]\<rparr>)"
  using start [OF _ request_order_requests, of s j w] by (simp add: new_txn_def)

definition pg_start :: "PgDb \<Rightarrow> pg_sys" where
  "pg_start db = \<lparr>sys_db = db, sys_txns = [], sys_commits = []\<rparr>"

section \<open>The invariant\<close>

definition row_leaf :: "row \<Rightarrow> int64 set" where
  "row_leaf r = leafKey (row_type r) ` set (row_tags r)"

fun inflight :: "phase \<Rightarrow> row list" where
  "inflight (Inserting hwm evs new) = new"
| "inflight _ = []"

definition holds_exclusive :: "txn \<Rightarrow> int64 set" where
  "holds_exclusive t = {k. (k, True) \<in> set (t_held t)}"

text \<open>
  What holds of each transaction: its locks against its requests; its rows come from its
  events; everything committed beyond its snapshot is out of reach of its keys; once checked,
  its conditions stay true; a finished scan is what the same scan would still return.
\<close>

definition rows_ok :: "PgDb \<Rightarrow> row list \<Rightarrow> bool" where
  "rows_ok db rows \<longleftrightarrow> (\<forall>r \<in> set rows. row_ok (seq_hwm (db_seq db)) r)"

definition beyond_reach :: "PgDb \<Rightarrow> txn \<Rightarrow> int \<Rightarrow> bool" where
  "beyond_reach db t hwm \<longleftrightarrow>
     hwm \<le> seq_hwm (db_seq db)
     \<and> (\<forall>r \<in> set (db_rows db). hwm < row_pos r \<longrightarrow> row_leaf r \<inter> holds_exclusive t = {})"

fun phase_ok :: "PgDb \<Rightarrow> txn \<Rightarrow> job \<Rightarrow> phase \<Rightarrow> bool" where
  "phase_ok db t j Acquiring \<longleftrightarrow> request_order j (rev (t_held t) @ t_todo t)"
| "phase_ok db t (Write cmds) (Snapped hwm) \<longleftrightarrow>
     request_order (Write cmds) (rev (t_held t)) \<and> t_todo t = [] \<and> beyond_reach db t hwm"
| "phase_ok db t (Write cmds) (Inserting hwm evs new) \<longleftrightarrow>
     request_order (Write cmds) (rev (t_held t)) \<and> t_todo t = [] \<and> beyond_reach db t hwm
     \<and> rows_ok db new \<and> sorted_wrt (<) (map row_pos new)
     \<and> row_pos ` set new \<inter> row_pos ` set (db_rows db) = {}
     \<and> (\<exists>done. command_events cmds = done @ evs \<and> list_all2 row_of_event new done)
     \<and> (\<forall>cmd \<in> set cmds. \<not> command_violated (concat (map decoded (db_rows db))) cmd)"
| "phase_ok db t (Barrier q) (Reading hwm) \<longleftrightarrow> t_todo t = [] \<and> t_held t = [] \<and> hwm \<le> seq_hwm (db_seq db)"
| "phase_ok db t (Barrier q) (Scanned hwm rows) \<longleftrightarrow>
     t_todo t = [] \<and> t_held t = [] \<and> hwm \<le> seq_hwm (db_seq db) \<and> rows = scan_rows q hwm (db_rows db)"
| "phase_ok db t j Ended \<longleftrightarrow> t_todo t = [] \<and> t_held t = []"
| "phase_ok db t j ph \<longleftrightarrow> False"

definition txn_ok :: "PgStore \<Rightarrow> PgDb \<Rightarrow> txn \<Rightarrow> bool" where
  "txn_ok s db t \<longleftrightarrow> job_ok s (t_job t) \<and> phase_ok db t (t_job t) (t_phase t)"

text \<open>What holds between two transactions: compatible locks, and no in-flight row below a barrier.\<close>

fun barrier_of :: "job \<Rightarrow> phase \<Rightarrow> (Query \<times> int) option" where
  "barrier_of (Barrier q) (Reading hwm) = Some (q, hwm)"
| "barrier_of (Barrier q) (Scanned hwm rows) = Some (q, hwm)"
| "barrier_of _ _ = None"

definition locks_apart :: "txn \<Rightarrow> txn \<Rightarrow> bool" where
  "locks_apart t u \<longleftrightarrow> (\<forall>a \<in> set (t_held t). \<forall>b \<in> set (t_held u). compatible a b)"

definition pair_ok :: "txn \<Rightarrow> txn \<Rightarrow> bool" where
  "pair_ok t u \<longleftrightarrow>
     locks_apart t u
     \<and> row_pos ` set (inflight (t_phase t)) \<inter> row_pos ` set (inflight (t_phase u)) = {}
     \<and> (\<forall>q hwm. barrier_of (t_job t) (t_phase t) = Some (q, hwm) \<longrightarrow>
          (\<forall>r \<in> set (inflight (t_phase u)). row_pos r \<le> hwm \<longrightarrow> \<not> query_selects q r))"

definition committed_ok :: "PgDb \<Rightarrow> bool" where
  "committed_ok db \<longleftrightarrow>
     rows_ok db (db_rows db) \<and> distinct (map row_pos (db_rows db))
     \<and> 0 \<le> seq_hwm (db_seq db) \<and> seq_hwm (db_seq db) \<le> bigint_max"

definition history_ok :: "row list \<Rightarrow> (AppendCommand list \<times> row list) list \<Rightarrow> bool" where
  "history_ok rows0 commits \<longleftrightarrow>
     (\<forall>k < length commits. \<forall>cmd \<in> set (fst (commits ! k)).
        \<not> command_violated (concat (map decoded (rows0 @ concat (map snd (take k commits))))) cmd)
     \<and> (\<forall>(cmds, new) \<in> set commits. list_all2 row_of_event new (command_events cmds)
          \<and> sorted_wrt (<) (map row_pos new))"

definition sys_ok :: "PgStore \<Rightarrow> row list \<Rightarrow> pg_sys \<Rightarrow> bool" where
  "sys_ok s rows0 w \<longleftrightarrow>
     committed_ok (sys_db w)
     \<and> (\<forall>i < length (sys_txns w). txn_ok s (sys_db w) (sys_txns w ! i))
     \<and> (\<forall>i < length (sys_txns w). \<forall>j < length (sys_txns w). i \<noteq> j \<longrightarrow>
          pair_ok (sys_txns w ! i) (sys_txns w ! j))
     \<and> db_rows (sys_db w) = rows0 @ concat (map snd (sys_commits w))
     \<and> history_ok rows0 (sys_commits w)"

section \<open>Keys and rows\<close>

lemma collect_keys_sets:
  "fset (fst (snd (collect_keys cmds (n, L, I)))) =
     (\<Union>cmd \<in> set cmds. set (leafX (computeWriterLockKeys (cmdEvents cmd) (cmdCondition cmd)))) \<union> fset L"
  "fset (snd (snd (collect_keys cmds (n, L, I)))) =
     (\<Union>cmd \<in> set cmds. set (intentS (computeWriterLockKeys (cmdEvents cmd) (cmdCondition cmd)))) \<union> fset I"
  by (induction cmds arbitrary: n L I) (auto simp: Let_def fset_of_list.rep_eq)

lemma append_keys_sets:
  "set (leafX (append_keys cmds)) =
     (\<Union>cmd \<in> set cmds. set (leafX (computeWriterLockKeys (cmdEvents cmd) (cmdCondition cmd))))"
  "set (intentS (append_keys cmds)) =
     (\<Union>cmd \<in> set cmds. set (intentS (computeWriterLockKeys (cmdEvents cmd) (cmdCondition cmd))))"
  using collect_keys_sets [of cmds 0 "{||}" "{||}"]
  by (simp_all add: append_keys_def case_prod_unfold)

lemma set_append_requests:
  "set (append_requests L I) = (\<lambda>k. (k, True)) ` set L \<union> (\<lambda>k. (k, False)) ` set I"
  by (auto simp: append_requests_def)

text \<open>The locks of an append that has them all.\<close>

lemma write_held:
  assumes "request_order (Write cmds) (rev (t_held t))"
  shows "ev \<in> set (command_events cmds) \<Longrightarrow> event_leaf ev \<subseteq> holds_exclusive t"
    and "cmd \<in> set cmds \<Longrightarrow> cmdCondition cmd = Some c \<Longrightarrow> condition_leaf c \<subseteq> holds_exclusive t"
    and "ev \<in> set (command_events cmds) \<Longrightarrow>
      (typeIntentKey (evType ev), False) \<in> set (t_held t) \<and> (globalIntentKey, False) \<in> set (t_held t)"
proof -
  have held: "set (t_held t) = set (append_requests (leafX (append_keys cmds)) (intentS (append_keys cmds)))"
    using request_order_set [OF assms] by simp
  show "event_leaf ev \<subseteq> holds_exclusive t" if "ev \<in> set (command_events cmds)"
    using that held
    by (auto simp: holds_exclusive_def set_append_requests append_keys_sets writer_leaf_keys command_events_def)
  show "condition_leaf c \<subseteq> holds_exclusive t" if "cmd \<in> set cmds" and "cmdCondition cmd = Some c"
    using that held
    by (force simp: holds_exclusive_def set_append_requests append_keys_sets writer_leaf_keys)
  show "(typeIntentKey (evType ev), False) \<in> set (t_held t) \<and> (globalIntentKey, False) \<in> set (t_held t)"
    if "ev \<in> set (command_events cmds)"
    using that held
    by (fastforce simp: set_append_requests append_keys_sets writer_intent_keys command_events_def)
qed

lemma barrier_held:
  assumes "request_order (Barrier q) (rev (t_held t))"
  shows "k \<in> set (leafS (computeReaderLockKeys q)) \<Longrightarrow> (k, False) \<in> set (t_held t)"
    and "k \<in> set (intentX (computeReaderLockKeys q)) \<Longrightarrow> (k, True) \<in> set (t_held t)"
  using request_order_set [OF assms] by auto

lemma row_leaf_event: "row_of_event r ev \<Longrightarrow> row_leaf r = event_leaf ev"
  by (simp add: row_leaf_def event_leaf_def row_of_event_def)

lemma copy_row_of_event: "row_of_event (copy_row p ev) ev"
  by (simp add: row_of_event_def copy_row_def)

lemma locks_apart_exclusive: "locks_apart t u \<Longrightarrow> holds_exclusive t \<inter> holds_exclusive u = {}"
  unfolding locks_apart_def holds_exclusive_def compatible_def by fastforce

text \<open>A row whose leaf keys an append does not hold cannot violate its conditions.\<close>

lemma out_of_reach:
  assumes "row_ok hwm r" and "hwm \<le> bigint_max" and "conditions_scoped cmds"
    and "request_order (Write cmds) (rev (t_held t))" and "row_leaf r \<inter> holds_exclusive t = {}"
    and "cmd \<in> set cmds"
  shows "\<not> command_violated (decoded r) cmd"
proof
  assume "command_violated (decoded r) cmd"
  then obtain c where c: "cmdCondition cmd = Some c" "condition_violated_by c (row_event r)"
    using row_ok_event(2) [OF assms(1,2)] by (auto simp: command_violated_def split: option.splits)
  have "condition_scoped c" using assms(3,6) c(1) by (auto simp: conditions_scoped_def)
  then have "event_leaf (seEvent (row_event r)) \<inter> condition_leaf c \<noteq> {}"
    using condition_event_leaf c(2) by (auto simp: condition_violated_by_def)
  then show False
    using write_held(2) [OF assms(4,6) c(1)] assms(5) row_leaf_event [OF row_ok_event(4) [OF assms(1,2)]]
    by blast
qed

lemma command_violated_concat:
  "command_violated (concat (map decoded rows)) cmd \<longleftrightarrow> (\<exists>r \<in> set rows. command_violated (decoded r) cmd)"
  by (auto simp: command_violated_def split: option.splits)

text \<open>The check at a snapshot, for rows committed on either side of it.\<close>

lemma check_sound:
  assumes "rows_ok db (db_rows db)" and "seq_hwm (db_seq db) \<le> bigint_max"
    and "conditions_scoped cmds" and "pg_storable s cmds"
    and "request_order (Write cmds) (rev (t_held t))" and "beyond_reach db t hwm"
    and "serializeConditions cmds = Ok arrays" and "append_check arrays hwm (db_rows db) = None"
    and "cmd \<in> set cmds"
  shows "\<not> command_violated (concat (map decoded (db_rows db))) cmd"
proof -
  let ?below = "filter (\<lambda>r. row_pos r \<le> hwm) (db_rows db)"
  have arrays: "arrays = columns (command_rows 0 cmds)"
    using assms(4,7) by (simp add: pg_storable_def serializeConditions_eq)
  have max: "hwm \<le> bigint_max" using assms(2,6) by (simp add: beyond_reach_def)
  have below: "\<forall>r \<in> set ?below. row_ok hwm r" using assms(1) by (auto simp: rows_ok_def row_ok_def)
  have hits: "condition_hit hwm (db_rows db) = condition_hit hwm ?below"
    by (auto simp: condition_hit_def row_hits_def list_ex_iff fun_eq_iff)
  have "check_conditions arrays hwm (db_rows db) = None"
    using assms(8) arrays by (simp add: append_check_columns)
  moreover have "check_conditions arrays hwm (db_rows db)
      = first_index (filter (condition_hit hwm ?below) (command_rows 0 cmds))"
    unfolding arrays hits [symmetric] using assms(4)
    by (intro check_conditions_columns) (simp add: pg_storable_def)
  ultimately have "first_violated 0 (concat (map decoded ?below)) cmds = None"
    using command_rows_hits [OF below max assms(3), of 0] assms(4) by (simp add: pg_storable_def)
  then have "\<forall>r \<in> set ?below. \<not> command_violated (decoded r) cmd"
    using assms(9) by (auto simp: first_violated_None_iff command_violated_concat)
  moreover have "\<not> command_violated (decoded r) cmd" if "r \<in> set (db_rows db)" and "hwm < row_pos r" for r
    by (rule out_of_reach [OF _ assms(2,3,5) _ assms(9)])
      (use that assms(1,6) in \<open>auto simp: rows_ok_def beyond_reach_def\<close>)
  ultimately have "\<not> command_violated (decoded r) cmd" if "r \<in> set (db_rows db)" for r
    using that by (cases "row_pos r \<le> hwm") auto
  then show ?thesis unfolding command_violated_concat by blast
qed

section \<open>A step keeps the invariant of its own transaction\<close>

lemma seq_hwm_Some [simp]: "seq_hwm (Some v) = v"
  by (simp add: seq_hwm_def)

lemma row_ok_mono: "row_ok h r \<Longrightarrow> h \<le> h' \<Longrightarrow> row_ok h' r"
  by (auto simp: row_ok_def)

lemma rows_ok_mono: "rows_ok db rows \<Longrightarrow> seq_hwm (db_seq db) \<le> seq_hwm (db_seq db') \<Longrightarrow> rows_ok db' rows"
  by (auto simp: rows_ok_def intro: row_ok_mono)

lemma ended_ok: "job_ok s (t_job t) \<Longrightarrow> txn_ok s db (ended t)"
  by (cases "t_job t") (simp_all add: txn_ok_def ended_def)

lemma nextval_Ok: "nextval sq = Ok p \<Longrightarrow> p = seq_hwm sq + 1 \<and> p \<le> bigint_max"
  by (auto simp: nextval_def split: if_splits)

lemma inserting_job: "phase_ok db t j (Inserting hwm evs new) \<Longrightarrow> \<exists>cmds. j = Write cmds"
  by (cases j) auto

lemma insert_row_ok:
  assumes "txn_ok s db t" and "committed_ok db"
    and "t_phase t = Inserting hwm (ev # evs) new" and "nextval (db_seq db) = Ok p"
    and "r = function_row p ev \<or> r = copy_row p ev"
  shows "txn_ok s (db\<lparr>db_seq := Some p\<rparr>) (t\<lparr>t_phase := Inserting hwm evs (new @ [r])\<rparr>)"
proof -
  obtain cmds where job: "t_job t = Write cmds"
    using assms(1,3) inserting_job by (fastforce simp: txn_ok_def)
  note ph = assms(1) [unfolded txn_ok_def job assms(3)]
  obtain prev where prev: "command_events cmds = prev @ ev # evs" "list_all2 row_of_event new prev"
    using ph by auto
  have p: "p = seq_hwm (db_seq db) + 1" "p \<le> bigint_max" using nextval_Ok [OF assms(4)] by auto
  have "storable_event ev" using ph prev(1) by (auto simp: pg_storable_def)
  then have r: "r = copy_row p ev" using assms(5) function_row_copy_row by auto
  have pos: "row_pos r = p" by (simp add: r copy_row_def)
  have rok: "row_ok p r"
    using \<open>storable_event ev\<close> p(1) assms(2) pos by (auto simp: row_ok_def r committed_ok_def copy_row_def)
  have below: "\<forall>x \<in> set new \<union> set (db_rows db). row_pos x < p"
    using ph assms(2) p(1) by (auto simp: rows_ok_def row_ok_def committed_ok_def)
  have "rows_ok (db\<lparr>db_seq := Some p\<rparr>) (new @ [r])"
    using ph rok p(1) rows_ok_mono [of db new "db\<lparr>db_seq := Some p\<rparr>"] by (auto simp: rows_ok_def)
  moreover have "beyond_reach (db\<lparr>db_seq := Some p\<rparr>) (t\<lparr>t_phase := Inserting hwm evs (new @ [r])\<rparr>) hwm"
    using ph p(1) by (auto simp: beyond_reach_def holds_exclusive_def)
  moreover have "list_all2 row_of_event (new @ [r]) (prev @ [ev])"
    using prev(2) copy_row_of_event r by (simp add: list_all2_appendI)
  ultimately show ?thesis
    using ph job prev(1) below pos
    by (auto simp: txn_ok_def sorted_wrt_append intro!: exI [of _ "prev @ [ev]"])
qed

lemma txn_step_self:
  assumes "txn_step s db t db' t' new" and "txn_ok s db t" and "committed_ok db"
  shows "txn_ok s db' t'"
  using assms
proof (cases rule: txn_step.cases)
  case (read_hwm cmds)
  then show ?thesis
    using assms(2,3)
    by (auto simp: txn_ok_def beyond_reach_def committed_ok_def rows_ok_def row_ok_def)
next
  case (check_passes hwm cmds arrays)
  then have "conditions_scoped cmds" "pg_storable s cmds"
      "request_order (Write cmds) (rev (t_held t))" "beyond_reach db t hwm"
    using assms(2) by (simp_all add: txn_ok_def validate_commands_None_iff)
  then have "\<forall>cmd \<in> set cmds. \<not> command_violated (concat (map decoded (db_rows db))) cmd"
    using check_sound check_passes assms(3) by (auto simp: committed_ok_def)
  then show ?thesis
    using check_passes assms(2) by (auto simp: txn_ok_def rows_ok_def beyond_reach_def holds_exclusive_def)
next
  case (insert_row hwm ev evs new' p r)
  then show ?thesis using insert_row_ok [OF assms(2,3)] by simp
next
  case (barrier q)
  then show ?thesis using assms(2) by (auto simp: txn_ok_def)
next
  case (scan hwm q)
  then show ?thesis using assms(2) by (auto simp: txn_ok_def)
qed (use assms(2) ended_ok in \<open>auto simp: txn_ok_def [of _ _ t]\<close>)

lemma commit_ok:
  assumes "txn_ok s db t" and "committed_ok db" and "t_phase t = Inserting hwm [] new"
    and "db_seq db' = db_seq db" and "db_rows db' = db_rows db @ new"
  shows "committed_ok db'"
proof -
  obtain cmds where job: "t_job t = Write cmds"
    using assms(1,3) inserting_job by (fastforce simp: txn_ok_def)
  note ph = assms(1) [unfolded txn_ok_def job assms(3)]
  have "distinct (map row_pos new)" using ph by (simp add: strict_sorted_iff)
  then show ?thesis
    using ph assms(2,4,5) by (auto simp: committed_ok_def rows_ok_def distinct_append)
qed

lemma txn_step_committed:
  assumes "txn_step s db t db' t' new" and "txn_ok s db t" and "committed_ok db"
  shows "committed_ok db'"
  using assms(1)
proof (cases rule: txn_step.cases)
  case (insert_row hwm ev evs new' p r)
  then show ?thesis
    using assms(3) nextval_Ok [of "db_seq db" p] rows_ok_mono [of db "db_rows db" db']
    by (auto simp: committed_ok_def)
next
  case (commit_rows hwm)
  then show ?thesis using commit_ok [OF assms(2,3)] by simp
qed (use assms(3) in simp_all)

section \<open>A step keeps the invariants of the other transactions\<close>

text \<open>Drawing positions changes nothing for the others.\<close>

lemma txn_ok_seq_mono:
  assumes "txn_ok s db u" and "db_rows db' = db_rows db" and "seq_hwm (db_seq db) \<le> seq_hwm (db_seq db')"
  shows "txn_ok s db' u"
proof -
  have "phase_ok db' u (t_job u) (t_phase u)"
  proof (cases "t_job u")
    case (Write cmds)
    then show ?thesis
      using assms rows_ok_mono [OF _ assms(3)]
      by (cases "t_phase u") (auto simp: txn_ok_def beyond_reach_def)
  next
    case (Barrier q)
    then show ?thesis using assms by (cases "t_phase u") (auto simp: txn_ok_def)
  qed
  with assms(1) show ?thesis by (simp add: txn_ok_def)
qed

text \<open>The rows of a committing append: ok, from its events, under its exclusive keys.\<close>

lemma inserting_rows:
  assumes "txn_ok s db t" and "t_phase t = Inserting hwm evs new"
  obtains cmds prev where "t_job t = Write cmds" "request_order (Write cmds) (rev (t_held t))"
    "command_events cmds = prev @ evs" "list_all2 row_of_event new prev" "rows_ok db new"
    "sorted_wrt (<) (map row_pos new)" "\<forall>r \<in> set new. row_leaf r \<subseteq> holds_exclusive t"
proof -
  obtain cmds where job: "t_job t = Write cmds"
    using assms inserting_job by (fastforce simp: txn_ok_def)
  note ph = assms(1) [unfolded txn_ok_def job assms(2)]
  obtain prev where prev: "command_events cmds = prev @ evs" "list_all2 row_of_event new prev"
    using ph by auto
  have req: "request_order (Write cmds) (rev (t_held t))" using ph by simp
  have "row_leaf r \<subseteq> holds_exclusive t" if r: "r \<in> set new" for r
  proof -
    obtain ev where "ev \<in> set prev" "row_of_event r ev"
      using list_all2_left_mem [OF prev(2) r] by blast
    then show ?thesis using write_held(1) [OF req] prev(1) row_leaf_event by auto
  qed
  then show thesis using that [OF job req prev] ph by auto
qed

lemma phase_ok_commit:
  assumes t: "txn_ok s db t" "t_phase t = Inserting h [] new" and u: "txn_ok s db u"
    and db: "committed_ok db" "db_seq db' = db_seq db" "db_rows db' = db_rows db @ new"
    and pair: "pair_ok t u" "pair_ok u t"
  shows "txn_ok s db' u"
proof -
  obtain cmds0 prev where rows: "rows_ok db new" "\<forall>r \<in> set new. row_leaf r \<subseteq> holds_exclusive t"
    by (rule inserting_rows [OF t]) blast
  have max: "seq_hwm (db_seq db) \<le> bigint_max" using db(1) by (simp add: committed_ok_def)
  have apart: "\<forall>r \<in> set new. row_leaf r \<inter> holds_exclusive u = {}"
    using rows(2) locks_apart_exclusive pair(1) by (fastforce simp: pair_ok_def)
  have reach: "beyond_reach db' u hwm" if "beyond_reach db u hwm" for hwm
    using that apart db(2,3) by (auto simp: beyond_reach_def)
  have fresh: "\<not> command_violated (concat (map decoded (db_rows db'))) cmd"
    if "\<not> command_violated (concat (map decoded (db_rows db))) cmd" and "cmd \<in> set cmds"
      and "conditions_scoped cmds" and "request_order (Write cmds) (rev (t_held u))" for cmd cmds
  proof -
    have "\<not> command_violated (decoded r) cmd" if "r \<in> set new" for r
      by (rule out_of_reach [OF _ max \<open>conditions_scoped cmds\<close> \<open>request_order _ _\<close> _ \<open>cmd \<in> set cmds\<close>])
        (use that rows(1) apart in \<open>auto simp: rows_ok_def\<close>)
    then show ?thesis using that(1) by (auto simp: db(3) command_violated_concat simp del: map_append concat_append)
  qed
  show ?thesis
  proof (cases "t_job u")
    case (Write cmds)
    then show ?thesis
      using u reach fresh pair db(2,3) t(2)
      by (cases "t_phase u") (auto simp: txn_ok_def validate_commands_None_iff rows_ok_def pair_ok_def)
  next
    case (Barrier q)
    then show ?thesis
      using u pair(2) t(2) db(2,3)
      by (cases "t_phase u") (auto simp: txn_ok_def pair_ok_def scan_rows_def filter_empty_conv)
  qed
qed

lemma txn_step_other:
  assumes "txn_step s db t db' t' new" and "txn_ok s db t" and "txn_ok s db u" and "committed_ok db"
    and "pair_ok t u" and "pair_ok u t"
  shows "txn_ok s db' u"
  using assms(1)
proof (cases rule: txn_step.cases)
  case (insert_row hwm ev evs new' p r)
  then show ?thesis
    using nextval_Ok [of "db_seq db" p] by (intro txn_ok_seq_mono [OF assms(3)]) auto
next
  case (commit_rows hwm)
  then show ?thesis
    by (intro phase_ok_commit [OF assms(2) _ assms(3,4) _ _ assms(5,6)]) auto
qed (use assms(3) in simp_all)

section \<open>A step keeps what holds between transactions\<close>

lemma locks_apart_sym: "locks_apart t u \<Longrightarrow> locks_apart u t"
  unfolding locks_apart_def compatible_def by metis

lemma locks_apart_empty [simp]: "t_held t = [] \<Longrightarrow> locks_apart t u" "t_held u = [] \<Longrightarrow> locks_apart t u"
  by (simp_all add: locks_apart_def)

lemma inflight_bound:
  assumes "txn_ok s db u" and "r \<in> set (inflight (t_phase u))"
  shows "row_pos r \<le> seq_hwm (db_seq db)"
proof (cases "t_phase u")
  case (Inserting hwm evs new)
  obtain cmds prev where "rows_ok db new" by (rule inserting_rows [OF assms(1) Inserting])
  then show ?thesis using assms(2) Inserting by (auto simp: rows_ok_def row_ok_def)
qed (use assms(2) in simp_all)

lemma barrier_bound:
  "txn_ok s db t \<Longrightarrow> barrier_of (t_job t) (t_phase t) = Some (q, hwm) \<Longrightarrow> hwm \<le> seq_hwm (db_seq db)"
  by (cases "t_job t"; cases "t_phase t") (auto simp: txn_ok_def)

text \<open>
  The moment of the barrier: whoever has rows in flight holds all its locks, and so does the
  reader, so no row in flight can be one that the reader's query selects.
\<close>

lemma barrier_blocks:
  assumes "request_order (Barrier q) (rev (t_held t))" and "constructed q" and "locks_apart t u"
    and "txn_ok s db u" and "seq_hwm (db_seq db) \<le> bigint_max" and "r \<in> set (inflight (t_phase u))"
  shows "\<not> query_selects q r"
proof
  assume sel: "query_selects q r"
  obtain h evs new where ph: "t_phase u = Inserting h evs new" "r \<in> set new"
    using assms(6) by (cases "t_phase u") auto
  obtain cmds prev where u: "request_order (Write cmds) (rev (t_held u))" "command_events cmds = prev @ evs"
      "list_all2 row_of_event new prev"
    by (rule inserting_rows [OF assms(4) ph(1)])
  obtain ev where ev: "ev \<in> set (command_events cmds)" "row_of_event r ev"
    using list_all2_left_mem [OF u(3) ph(2)] u(2) by auto
  have compat: "\<not> m \<and> \<not> m'" if "(k, m) \<in> set (t_held t)" and "(k, m') \<in> set (t_held u)" for k m m'
    using assms(3) that by (force simp: locks_apart_def compatible_def)
  have "query_overlaps q ev" using query_selects_overlaps [OF assms(2) ev(2)] sel by simp
  from reader_event_key [OF this] show False
  proof (elim disjE)
    assume "set (leafS (computeReaderLockKeys q)) \<inter> event_leaf ev \<noteq> {}"
    then obtain k where "k \<in> set (leafS (computeReaderLockKeys q))" "k \<in> event_leaf ev" by blast
    then have "(k, False) \<in> set (t_held t)" "(k, True) \<in> set (t_held u)"
      using barrier_held(1) [OF assms(1)] write_held(1) [OF u(1) ev(1)] by (auto simp: holds_exclusive_def)
    then show False using compat by blast
  next
    assume "set (intentX (computeReaderLockKeys q)) \<inter> {typeIntentKey (evType ev), globalIntentKey} \<noteq> {}"
    then obtain k where "k \<in> set (intentX (computeReaderLockKeys q))" "k \<in> {typeIntentKey (evType ev), globalIntentKey}"
      by blast
    then have "(k, True) \<in> set (t_held t)" "(k, False) \<in> set (t_held u)"
      using barrier_held(2) [OF assms(1)] write_held(3) [OF u(1) ev(1)] by auto
    then show False using compat by blast
  qed
qed

lemma pair_ok_ended: "pair_ok t u \<Longrightarrow> pair_ok (ended t) u" "pair_ok u t \<Longrightarrow> pair_ok u (ended t)"
  by (auto simp: pair_ok_def ended_def)

lemma pair_ok_insert:
  assumes "pair_ok t u" and "pair_ok u t" and "txn_ok s db u" and "t_phase t = Inserting hwm evs new"
    and "seq_hwm (db_seq db) < row_pos r" and "t_phase t' = Inserting hwm' evs' (new @ [r])"
    and "t_held t' = t_held t" and "t_job t' = t_job t"
  shows "pair_ok t' u" and "pair_ok u t'"
proof -
  have "row_pos r \<notin> row_pos ` set (inflight (t_phase u))"
    using inflight_bound [OF assms(3)] assms(5) by fastforce
  moreover have "\<not> row_pos r \<le> h" if "barrier_of (t_job u) (t_phase u) = Some (q, h)" for q h
    using barrier_bound [OF assms(3) that] assms(5) by simp
  ultimately show "pair_ok t' u" "pair_ok u t'"
    using assms by (auto simp: pair_ok_def locks_apart_def)
qed

lemma txn_step_pair:
  assumes "txn_step s db t db' t' new" and "txn_ok s db t" and "txn_ok s db u" and "committed_ok db"
    and "pair_ok t u" and "pair_ok u t"
  shows "pair_ok t' u \<and> pair_ok u t'"
  using assms(1)
proof (cases rule: txn_step.cases)
  case (insert_row hwm ev evs new' p r)
  then have "row_pos r = p" by (auto simp: function_row_def copy_row_def)
  then show ?thesis
    using insert_row nextval_Ok [of "db_seq db" p]
    by (intro conjI pair_ok_insert [OF assms(5,6,3)]) auto
next
  case (barrier q)
  then have req: "request_order (Barrier q) (rev (t_held t))" and "constructed q"
    using assms(2) by (simp_all add: txn_ok_def)
  moreover have "locks_apart t u" "seq_hwm (db_seq db) \<le> bigint_max"
    using assms(4,5) by (simp_all add: pair_ok_def committed_ok_def)
  ultimately have "\<forall>r \<in> set (inflight (t_phase u)). \<not> query_selects q r"
    using barrier_blocks [OF _ _ _ assms(3)] by blast
  then show ?thesis using barrier assms(5,6) by (auto simp: pair_ok_def)
next
  case (scan hwm q)
  then show ?thesis using assms(5,6) by (auto simp: pair_ok_def locks_apart_def)
next
  case (read_hwm cmds)
  then show ?thesis using assms(5,6) by (auto simp: pair_ok_def locks_apart_def)
next
  case (check_passes hwm cmds arrays)
  then show ?thesis using assms(5,6) by (auto simp: pair_ok_def locks_apart_def)
qed (use pair_ok_ended assms(5,6) in auto)

section \<open>Every reachable state satisfies the invariant\<close>

lemma sys_ok_start:
  assumes "sys_ok s rows0 w" and "job_ok s j" and "request_order j reqs"
  shows "sys_ok s rows0 (w\<lparr>sys_txns := sys_txns w @ [(new_txn j)\<lparr>t_todo := reqs\<rparr>]\<rparr>)"
proof -
  let ?t = "(new_txn j)\<lparr>t_todo := reqs\<rparr>"
  have "txn_ok s (sys_db w) ?t"
    using assms(2,3) by (cases j) (simp_all add: txn_ok_def new_txn_def)
  moreover have "pair_ok ?t u \<and> pair_ok u ?t" for u
    by (cases j) (simp_all add: pair_ok_def new_txn_def)
  ultimately show ?thesis
    using assms(1) by (auto simp: sys_ok_def nth_append less_Suc_eq)
qed

lemma sys_ok_lock:
  assumes "sys_ok s rows0 w" and "i < length (sys_txns w)" and "t = sys_txns w ! i"
    and "t_phase t = Acquiring" and "t_todo t = req # rest" and "grantable (sys_txns w) i req"
  shows "sys_ok s rows0 (w\<lparr>sys_txns := (sys_txns w)[i := t\<lparr>t_todo := rest, t_held := req # t_held t\<rparr>]\<rparr>)"
proof -
  let ?t' = "t\<lparr>t_todo := rest, t_held := req # t_held t\<rparr>"
  have t: "txn_ok s (sys_db w) t" using assms(1-3) by (simp add: sys_ok_def)
  have "txn_ok s (sys_db w) ?t'" using t assms(4,5) by (cases "t_job t") (simp_all add: txn_ok_def)
  moreover have "pair_ok ?t' (sys_txns w ! j) \<and> pair_ok (sys_txns w ! j) ?t'"
    if "j < length (sys_txns w)" and "j \<noteq> i" for j
  proof -
    have "pair_ok t (sys_txns w ! j)" "pair_ok (sys_txns w ! j) t"
      using assms(1-3) that by (simp_all add: sys_ok_def)
    moreover have "\<forall>b \<in> set (t_held (sys_txns w ! j)). compatible req b"
      using assms(6) that by (simp add: grantable_def list_all_iff)
    ultimately show ?thesis
      using assms(4) by (auto simp: pair_ok_def locks_apart_def compatible_def)
  qed
  ultimately show ?thesis
    using assms(1,2) by (auto simp: sys_ok_def nth_list_update)
qed

lemma committed_history:
  assumes "txn_step s db t db' t' new" and "txn_ok s db t"
    and "db_rows db = rows0 @ concat (map snd commits)" and "history_ok rows0 commits"
  shows "db_rows db' = rows0 @ concat (map snd (commits @ committed_by t new))
    \<and> history_ok rows0 (commits @ committed_by t new)"
proof (cases "new = []")
  case True
  then have "committed_by t new = []" by (simp add: committed_by_def split: job.split)
  moreover have "db_rows db' = db_rows db" using assms(1) True by (cases rule: txn_step.cases) auto
  ultimately show ?thesis using assms(3,4) by simp
next
  case False
  have "\<exists>hwm. t_phase t = Inserting hwm [] new \<and> db_rows db' = db_rows db @ new"
    using assms(1) False by (cases rule: txn_step.cases) auto
  then obtain hwm where c: "t_phase t = Inserting hwm [] new" "db_rows db' = db_rows db @ new" by blast
  obtain cmds prev where t: "t_job t = Write cmds" "command_events cmds = prev @ []"
      "list_all2 row_of_event new prev" "sorted_wrt (<) (map row_pos new)"
    by (rule inserting_rows [OF assms(2) c(1)])
  have "\<forall>cmd \<in> set cmds. \<not> command_violated (concat (map decoded (db_rows db))) cmd"
    using assms(2) c(1) t(1) by (simp add: txn_ok_def)
  moreover have "committed_by t new = [(cmds, new)]" using False t(1) by (simp add: committed_by_def)
  ultimately show ?thesis
    using assms(3,4) c(2) t by (auto simp: history_ok_def nth_append less_Suc_eq)
qed

lemma sys_ok_local:
  assumes "sys_ok s rows0 w" and "i < length (sys_txns w)" and "t = sys_txns w ! i"
    and "txn_step s (sys_db w) t db' t' new"
  shows "sys_ok s rows0 (w\<lparr>sys_db := db', sys_txns := (sys_txns w)[i := t'],
    sys_commits := sys_commits w @ committed_by t new\<rparr>)"
proof -
  have t: "txn_ok s (sys_db w) t" and db: "committed_ok (sys_db w)"
    using assms(1-3) by (simp_all add: sys_ok_def)
  have other: "txn_ok s db' (sys_txns w ! j) \<and> pair_ok t' (sys_txns w ! j) \<and> pair_ok (sys_txns w ! j) t'"
    if "j < length (sys_txns w)" and "j \<noteq> i" for j
  proof -
    have "txn_ok s (sys_db w) (sys_txns w ! j)" "pair_ok t (sys_txns w ! j)" "pair_ok (sys_txns w ! j) t"
      using assms(1-3) that by (simp_all add: sys_ok_def)
    then show ?thesis
      using txn_step_other [OF assms(4) t _ db] txn_step_pair [OF assms(4) t _ db] by blast
  qed
  have "txn_ok s db' t'" "committed_ok db'"
    using txn_step_self [OF assms(4) t db] txn_step_committed [OF assms(4) t db] by auto
  then show ?thesis
    using assms(1,2) other committed_history [OF assms(4) t, of rows0 "sys_commits w"]
    by (auto simp: sys_ok_def nth_list_update)
qed

lemma sys_ok_abort:
  assumes "sys_ok s rows0 w" and "i < length (sys_txns w)"
  shows "sys_ok s rows0 (w\<lparr>sys_txns := (sys_txns w)[i := ended (sys_txns w ! i)]\<rparr>)"
  using assms ended_ok pair_ok_ended by (auto simp: sys_ok_def nth_list_update txn_ok_def [of _ _ "_ ! _"])

lemma sys_ok_advance: "advance s w w' \<Longrightarrow> sys_ok s rows0 w \<Longrightarrow> sys_ok s rows0 w'"
  by (cases rule: advance.cases) (auto intro: sys_ok_lock sys_ok_local)

lemma sys_ok_step: "pg_step s w w' \<Longrightarrow> sys_ok s rows0 w \<Longrightarrow> sys_ok s rows0 w'"
  by (cases rule: pg_step.cases) (auto intro: sys_ok_start sys_ok_abort sys_ok_advance)

lemma sys_ok_reachable:
  assumes "(pg_step s)\<^sup>*\<^sup>* (pg_start db) w" and "db_ok db"
  shows "sys_ok s (db_rows db) w"
  using assms(1)
proof (induction rule: rtranclp_induct)
  case base
  show ?case
    using assms(2)
    by (auto simp: sys_ok_def pg_start_def history_ok_def committed_ok_def db_ok_def rows_ok_def strict_sorted_iff)
next
  case (step w w')
  then show ?case using sys_ok_step by blast
qed

section \<open>No deadlock\<close>

fun events_of :: "job \<Rightarrow> nat" where
  "events_of (Write cmds) = length (command_events cmds)"
| "events_of (Barrier q) = 0"

fun work_left :: "txn \<Rightarrow> nat" where
  "work_left t =
     (case t_phase t of
        Acquiring \<Rightarrow> length (t_todo t) + events_of (t_job t) + 3
      | Snapped hwm \<Rightarrow> events_of (t_job t) + 2
      | Inserting hwm evs new \<Rightarrow> length evs + 1
      | Reading hwm \<Rightarrow> 1
      | Scanned hwm rows \<Rightarrow> 0
      | Ended \<Rightarrow> 0)"

declare work_left.simps [simp del]

definition total_work :: "pg_sys \<Rightarrow> nat" where
  "total_work w = sum_list (map work_left (sys_txns w))"

definition all_finished :: "pg_sys \<Rightarrow> bool" where
  "all_finished w \<longleftrightarrow> (\<forall>t \<in> set (sys_txns w). work_left t = 0)"

definition keys_apart :: "pg_sys \<Rightarrow> bool" where
  "keys_apart w \<longleftrightarrow> (\<forall>t \<in> set (sys_txns w). distinct (map fst (requests_of (t_job t))))"

lemma txn_step_work: "txn_step s db t db' t' new \<Longrightarrow> work_left t' < work_left t"
  by (cases rule: txn_step.cases) (auto simp: work_left.simps ended_def)

lemma txn_step_job: "txn_step s db t db' t' new \<Longrightarrow> t_job t' = t_job t"
  by (cases rule: txn_step.cases) (auto simp: ended_def)

lemma sum_list_update_less:
  fixes xs :: "nat list"
  assumes "i < length xs" and "x < xs ! i"
  shows "sum_list (xs[i := x]) < sum_list xs"
  using assms member_le_sum_list [of "xs ! i" xs] by (simp add: sum_list_update)

lemma advance_work:
  assumes "advance s w w'"
  shows "total_work w' < total_work w"
  using assms
proof (cases rule: advance.cases)
  case (lock i t req rest)
  then have "work_left (t\<lparr>t_todo := rest, t_held := req # t_held t\<rparr>) < work_left t"
    by (simp add: work_left.simps)
  then show ?thesis using lock by (simp add: total_work_def map_update sum_list_update_less)
next
  case (local i t db' t' new)
  then show ?thesis using txn_step_work [of s "sys_db w" t db' t' new] by (simp add: total_work_def map_update sum_list_update_less)
qed

lemma advance_keys_apart: "advance s w w' \<Longrightarrow> keys_apart w \<Longrightarrow> keys_apart w'"
  by (cases rule: advance.cases)
    (auto simp: keys_apart_def txn_step_job dest!: set_update_subset_insert [THEN subsetD])

text \<open>What a transaction holds is below what it still asks for.\<close>

lemma held_below_todo:
  assumes "phase_ok db t j Acquiring" and "distinct (map fst (requests_of j))"
    and "b \<in> set (t_held t)" and "req \<in> set (t_todo t)"
  shows "sint (fst b) < sint (fst req)"
proof -
  let ?reqs = "rev (t_held t) @ t_todo t"
  have ord: "request_order j ?reqs" using assms(1) by simp
  then have "mset (map fst ?reqs) = mset (map fst (requests_of j))"
    unfolding request_order_def by (metis mset_map)
  then have "distinct (map fst ?reqs)" using assms(2) by (metis mset_eq_imp_distinct_iff)
  then have "fst b \<noteq> fst req" using assms(3,4) by (auto simp: rev_map [symmetric] image_iff)
  moreover have "sint (fst b) \<le> sint (fst req)"
    using ord assms(3,4) by (auto simp: request_order_def sorted_append)
  ultimately show ?thesis using sint_inj [of "fst b" "fst req"] by simp
qed

text \<open>A transaction that waits for no lock has a step.\<close>

lemma unblocked_steps:
  assumes "txn_ok s db t" and "work_left t > 0" and "t_phase t = Acquiring \<longrightarrow> t_todo t = []"
  shows "\<exists>db' t' new. txn_step s db t db' t' new"
proof (cases "t_phase t")
  case Acquiring
  then show ?thesis using assms(3) read_hwm barrier by (cases "t_job t") blast+
next
  case (Snapped hwm)
  then obtain cmds where job: "t_job t = Write cmds" using assms(1) by (cases "t_job t") (auto simp: txn_ok_def)
  then have "serializeConditions cmds = Ok (columns (command_rows 0 cmds))"
    using assms(1) by (simp add: txn_ok_def pg_storable_def serializeConditions_eq)
  then show ?thesis
    using Snapped job check_fails check_passes
    by (cases "append_check (columns (command_rows 0 cmds)) hwm (db_rows db)") blast+
next
  case (Inserting hwm evs new)
  obtain cmds prev where t: "t_job t = Write cmds" "command_events cmds = prev @ evs" "list_all2 row_of_event new prev"
    by (rule inserting_rows [OF assms(1) Inserting])
  show ?thesis
  proof (cases evs)
    case Nil
    then have "new \<noteq> []" using assms(1) t by (auto simp: txn_ok_def)
    then show ?thesis using Inserting Nil commit_rows by blast
  next
    case (Cons ev rest)
    then show ?thesis
      using Inserting insert_row insert_fails
      by (cases "nextval (db_seq db)") (blast, blast, simp add: nextval_def split: if_splits)
  qed
next
  case (Reading hwm)
  then obtain q where "t_job t = Barrier q" using assms(1) by (cases "t_job t") (auto simp: txn_ok_def)
  then show ?thesis using Reading scan by blast
qed (use assms(2) in \<open>simp_all add: work_left.simps\<close>)

lemma advance_exists:
  assumes "sys_ok s rows0 w" and "keys_apart w" and "\<not> all_finished w"
  shows "\<exists>w'. advance s w w'"
proof (cases "\<exists>i < length (sys_txns w). work_left (sys_txns w ! i) > 0
    \<and> (t_phase (sys_txns w ! i) = Acquiring \<longrightarrow> t_todo (sys_txns w ! i) = [])")
  case True
  then obtain i where i: "i < length (sys_txns w)" "work_left (sys_txns w ! i) > 0"
      "t_phase (sys_txns w ! i) = Acquiring \<longrightarrow> t_todo (sys_txns w ! i) = []" by blast
  then show ?thesis
    using unblocked_steps [of s "sys_db w" "sys_txns w ! i"] assms(1) local [OF i(1) refl]
    by (fastforce simp: sys_ok_def)
next
  case False
  let ?waiting = "{i. i < length (sys_txns w) \<and> t_phase (sys_txns w ! i) = Acquiring \<and> t_todo (sys_txns w ! i) \<noteq> []}"
  let ?key = "\<lambda>i. sint (fst (hd (t_todo (sys_txns w ! i))))"
  obtain t where "t \<in> set (sys_txns w)" "work_left t > 0"
    using assms(3) by (auto simp: all_finished_def)
  then have ne: "?waiting \<noteq> {}" using False by (fastforce simp: in_set_conv_nth)
  have fin: "finite ?waiting" by simp
  obtain i where i: "i \<in> ?waiting" and top: "\<forall>j \<in> ?waiting. ?key j \<le> ?key i"
    using finite_has_maximal [OF finite_imageI [OF fin, of ?key]] ne by (smt (verit) image_iff imageI image_is_empty)
  obtain req rest where todo: "t_todo (sys_txns w ! i) = req # rest" using i by (cases "t_todo (sys_txns w ! i)") auto
  have "grantable (sys_txns w) i req"
    unfolding grantable_def list_all_iff
  proof (intro allI impI ballI, rule ccontr)
    fix j b
    assume j: "j < length (sys_txns w)" "j \<noteq> i" "b \<in> set (t_held (sys_txns w ! j))" "\<not> compatible req b"
    have ok: "txn_ok s (sys_db w) (sys_txns w ! j)" using assms(1) j(1) by (simp add: sys_ok_def)
    have active: "work_left (sys_txns w ! j) > 0"
      using ok j(3) by (cases "t_job (sys_txns w ! j)"; cases "t_phase (sys_txns w ! j)")
        (auto simp: txn_ok_def work_left.simps)
    then have w: "j \<in> ?waiting" using False j(1) by blast
    then have "hd (t_todo (sys_txns w ! j)) \<in> set (t_todo (sys_txns w ! j))" by simp
    moreover have "phase_ok (sys_db w) (sys_txns w ! j) (t_job (sys_txns w ! j)) Acquiring"
      using ok w by (simp add: txn_ok_def)
    moreover have "distinct (map fst (requests_of (t_job (sys_txns w ! j))))"
      using assms(2) j(1) by (simp add: keys_apart_def)
    ultimately have "sint (fst b) < ?key j" using held_below_todo j(3) by blast
    moreover have "fst b = fst req" using j(4) by (auto simp: compatible_def)
    ultimately have "?key i < ?key j" using todo by simp
    with top w show False by fastforce
  qed
  then show ?thesis using lock [OF _ refl _ todo] i by blast
qed

lemma quiesces:
  assumes "sys_ok s rows0 w" and "keys_apart w"
  shows "\<exists>w'. (advance s)\<^sup>*\<^sup>* w w' \<and> all_finished w'"
  using assms
proof (induction "total_work w" arbitrary: w rule: less_induct)
  case less
  show ?case
  proof (cases "all_finished w")
    case False
    then obtain w1 where w1: "advance s w w1" using advance_exists [OF less.prems] by blast
    have "\<exists>w'. (advance s)\<^sup>*\<^sup>* w1 w' \<and> all_finished w'"
      by (rule less.hyps [OF advance_work [OF w1] sys_ok_advance [OF w1 less.prems(1)]
            advance_keys_apart [OF w1 less.prems(2)]])
    then show ?thesis using w1 by (meson converse_rtranclp_into_rtranclp)
  qed blast
qed

section \<open>A run of one append\<close>

lemma run_locks:
  "t_phase t = Acquiring \<Longrightarrow>
   (advance s)\<^sup>*\<^sup>* \<lparr>sys_db = db, sys_txns = [t], sys_commits = C\<rparr>
     \<lparr>sys_db = db, sys_txns = [t\<lparr>t_todo := [], t_held := rev (t_todo t) @ t_held t\<rparr>], sys_commits = C\<rparr>"
proof (induction "t_todo t" arbitrary: t)
  case Nil
  then have "t\<lparr>t_todo := [], t_held := rev (t_todo t) @ t_held t\<rparr> = t" by (cases t) simp
  then show ?case by simp
next
  case (Cons req rest)
  let ?w = "\<lparr>sys_db = db, sys_txns = [t], sys_commits = C\<rparr>"
  let ?t' = "t\<lparr>t_todo := rest, t_held := req # t_held t\<rparr>"
  have "advance s ?w (?w\<lparr>sys_txns := (sys_txns ?w)[0 := ?t']\<rparr>)"
    by (rule lock [of 0 ?w t]) (use Cons in \<open>auto simp: grantable_def\<close>)
  moreover have "(advance s)\<^sup>*\<^sup>* \<lparr>sys_db = db, sys_txns = [?t'], sys_commits = C\<rparr>
      \<lparr>sys_db = db, sys_txns = [?t'\<lparr>t_todo := [], t_held := rev (t_todo ?t') @ t_held ?t'\<rparr>], sys_commits = C\<rparr>"
    by (rule Cons.hyps(1)) (use Cons in simp_all)
  ultimately show ?case using Cons.hyps(2) [symmetric] by (simp add: converse_rtranclp_into_rtranclp)
qed

lemma run_inserts:
  "t_phase t = Inserting hwm evs new \<Longrightarrow> seq_hwm (db_seq db) + int (length evs) \<le> bigint_max \<Longrightarrow>
   (advance s)\<^sup>*\<^sup>* \<lparr>sys_db = db, sys_txns = [t], sys_commits = C\<rparr>
     \<lparr>sys_db = db\<lparr>db_seq := if evs = [] then db_seq db else Some (seq_hwm (db_seq db) + int (length evs))\<rparr>,
      sys_txns = [t\<lparr>t_phase := Inserting hwm [] (new @ numbered_rows (seq_hwm (db_seq db)) evs)\<rparr>],
      sys_commits = C\<rparr>"
proof (induction evs arbitrary: t new db)
  case Nil
  then have "t\<lparr>t_phase := Inserting hwm [] new\<rparr> = t" by (cases t) simp
  then show ?case by simp
next
  case (Cons ev evs)
  let ?w = "\<lparr>sys_db = db, sys_txns = [t], sys_commits = C\<rparr>" and ?p = "seq_hwm (db_seq db) + 1"
  let ?db' = "db\<lparr>db_seq := Some ?p\<rparr>" and ?t' = "t\<lparr>t_phase := Inserting hwm evs (new @ [copy_row ?p ev])\<rparr>"
  have "nextval (db_seq db) = Ok ?p" using Cons.prems(2) by (simp add: nextval_def)
  then have step: "txn_step s db t ?db' ?t' []" using insert_row [OF Cons.prems(1)] by blast
  have "advance s ?w (?w\<lparr>sys_db := ?db', sys_txns := (sys_txns ?w)[0 := ?t'],
      sys_commits := sys_commits ?w @ committed_by t []\<rparr>)"
    by (rule local [of 0 ?w t]) (use step in auto)
  then have "advance s ?w \<lparr>sys_db = ?db', sys_txns = [?t'], sys_commits = C\<rparr>"
    by (simp add: committed_by_def split: job.splits)
  then show ?case
    using Cons.IH [of ?t' "new @ [copy_row ?p ev]" ?db'] Cons.prems(2)
    by (cases "evs = []") (simp_all add: converse_rtranclp_into_rtranclp algebra_simps)
qed

lemma lone_append_commits:
  assumes "db_ok db" and "job_ok s (Write cmds)" and "pg_room db (length (command_events cmds))"
    and "first_violated 0 (db_log db) cmds = None"
  shows "\<exists>w t. (pg_step s)\<^sup>*\<^sup>* (pg_start db) w
    \<and> sys_commits w = [(cmds, numbered_rows (seq_hwm (db_seq db)) (command_events cmds))]
    \<and> sys_txns w = [t] \<and> t_job t = Write cmds"
proof -
  let ?j = "Write cmds" and ?p = "seq_hwm (db_seq db)" and ?evs = "command_events cmds"
  let ?held = "rev (requests_of ?j)"
  let ?t = "\<lambda>ph. \<lparr>t_job = ?j, t_todo = [], t_held = ?held, t_phase = ph\<rparr>"
  let ?w = "\<lambda>d t. \<lparr>sys_db = d, sys_txns = [t], sys_commits = []\<rparr>"
  let ?db' = "db\<lparr>db_seq := Some (?p + int (length ?evs))\<rparr>" and ?new = "numbered_rows ?p ?evs"
  have ok: "conditions_scoped cmds" "pg_storable s cmds" "?evs \<noteq> []"
    using assms(2) by (simp_all add: validate_commands_None_iff)
  have step: "advance s (?w d t) \<lparr>sys_db = d', sys_txns = [t'], sys_commits = committed_by t new\<rparr>"
    if "txn_step s d t d' t' new" for d t d' t' new
    using local [of 0 "?w d t" t s d' t' new] that by simp
  have ser: "serializeConditions cmds = Ok (columns (command_rows 0 cmds))"
    using ok(2) by (simp add: pg_storable_def serializeConditions_eq)
  have check: "append_check (columns (command_rows 0 cmds)) ?p (db_rows db) = None"
    using check_finds_first [OF assms(1) ok(1)] ok(2) assms(4) by (simp add: append_check_columns pg_storable_def)
  have "pg_step s (pg_start db) (?w db (new_txn ?j))"
    using start_new [OF assms(2), of "pg_start db"] by (simp add: pg_start_def)
  moreover have "(advance s)\<^sup>*\<^sup>* (?w db (new_txn ?j)) (?w db (?t Acquiring))"
    using run_locks [of "new_txn ?j" s db "[]"] by (simp add: new_txn_def)
  moreover have "advance s (?w db (?t Acquiring)) (?w db (?t (Snapped ?p)))"
    using step [OF read_hwm [of "?t Acquiring" cmds s db]] by (simp add: committed_by_def)
  moreover have "advance s (?w db (?t (Snapped ?p))) (?w db (?t (Inserting ?p ?evs [])))"
    using step [OF check_passes [of "?t (Snapped ?p)" ?p cmds _ db s]] ser check by (simp add: committed_by_def)
  moreover have "(advance s)\<^sup>*\<^sup>* (?w db (?t (Inserting ?p ?evs []))) (?w ?db' (?t (Inserting ?p [] ?new)))"
    using run_inserts [of "?t (Inserting ?p ?evs [])" ?p ?evs "[]" db s "[]"] ok(3) assms(3)
    by (simp add: pg_room_def)
  moreover obtain w t where "advance s (?w ?db' (?t (Inserting ?p [] ?new))) w" "sys_commits w = [(cmds, ?new)]"
      "sys_txns w = [t]" "t_job t = Write cmds"
    using step [OF commit_rows [of "?t (Inserting ?p [] ?new)" ?p ?new s ?db']] ok(3)
    by (fastforce simp: committed_by_def ended_def)
  moreover have "(advance s)\<^sup>*\<^sup>* a b \<Longrightarrow> (pg_step s)\<^sup>*\<^sup>* a b" for a b
    using rtranclp_mono [of "advance s" "pg_step s"] advances by blast
  ultimately show ?thesis by (meson advances rtranclp.rtrancl_into_rtrancl rtranclp_trans r_into_rtranclp)
qed

section \<open>Properties of the concurrent store\<close>

text \<open>
  C1: concurrent appends are serializable in the order in which they commit, for appends of
  storable commands (\<open>job_ok\<close>: validated, with events, whose tags and conditions have no
  delimiter, whose data is JSON and whose \<open>After\<close> fits a \<open>bigint\<close>). In every interleaving the table is what it was plus the rows of the committed appends, one append
  after the other; each contributed exactly its events, in order at ascending positions; and
  when it committed, none of its conditions was violated by anything committed before it,
  although the check had run earlier and at a snapshot.
\<close>

theorem concurrent_appends_serializable:
  assumes "(pg_step s)\<^sup>*\<^sup>* (pg_start db) w" and "db_ok db"
  shows "db_rows (sys_db w) = db_rows db @ concat (map snd (sys_commits w))
    \<and> (\<forall>k < length (sys_commits w). \<forall>cmd \<in> set (fst (sys_commits w ! k)).
         \<not> command_violated (concat (map decoded (db_rows db @ concat (map snd (take k (sys_commits w)))))) cmd)
    \<and> (\<forall>(cmds, new) \<in> set (sys_commits w).
         list_all2 row_of_event new (command_events cmds) \<and> sorted_wrt (<) (map row_pos new))"
  using sys_ok_reachable [OF assms] by (simp add: sys_ok_def history_ok_def)

lemma scoped_command_job:
  "job_ok events_store (Write
     [\<lparr>cmdEvents = [event_of ''A'' [''x'']], cmdCondition = Some (condition_of [''A''] [''x''] None)\<rparr>])"
  using scoped_command_storable
  by (simp add: condition_of_def ValidateAppendCondition_def IsAll_def Items_def Tags_Len_def)

theorem concurrent_appends_serializable_witness:
  "\<exists>w. (pg_step events_store)\<^sup>*\<^sup>* (pg_start empty_db) w \<and> length (sys_commits w) = 1
     \<and> db_rows (sys_db w) = concat (map snd (sys_commits w))"
proof -
  let ?cmds = "[\<lparr>cmdEvents = [event_of ''A'' [''x'']], cmdCondition = Some (condition_of [''A''] [''x''] None)\<rparr>]"
  have room: "pg_room empty_db (length (command_events ?cmds))" by simp
  have fresh: "first_violated 0 (db_log empty_db) ?cmds = None" by simp
  obtain w where w: "(pg_step events_store)\<^sup>*\<^sup>* (pg_start empty_db) w"
      "sys_commits w = [(?cmds, numbered_rows (seq_hwm (db_seq empty_db)) (command_events ?cmds))]"
    using lone_append_commits [OF empty_db_simps(1) scoped_command_job room fresh] by blast
  have "db_rows empty_db = []" by (simp add: empty_db_def)
  then show ?thesis
    using concurrent_appends_serializable [OF w(1) empty_db_simps(1)] w by fastforce
qed

lemma scanned_stays:
  assumes "pg_step s w w'" and "i < length (sys_txns w)" and "t_phase (sys_txns w ! i) = Scanned hwm rows"
  shows "i < length (sys_txns w') \<and> sys_txns w' ! i = sys_txns w ! i"
proof -
  have no_step: "\<not> txn_step s db t db' t' new" if "t_phase t = Scanned hwm rows" for db t db' t' new
    using that by (auto elim: txn_step.cases)
  show ?thesis
    using assms(1)
  proof (cases rule: pg_step.cases)
    case (start j)
    then show ?thesis using assms(2) by (simp add: nth_append)
  next
    case (abort j)
    then show ?thesis using assms(2,3) by (auto simp: nth_list_update)
  next
    case advances
    then show ?thesis
    proof (cases rule: advance.cases)
      case (lock j t req rest)
      then show ?thesis using assms(2,3) by (auto simp: nth_list_update)
    next
      case (local j t db' t' new)
      then show ?thesis using assms(2,3) no_step by (cases "i = j") auto
    qed
  qed
qed

text \<open>
  C2: the read barrier leaves no gaps. Once a barrier has fixed its high-water mark and the
  scan has run, the scan's result is final: whatever commits later, at any time and in any
  interleaving, the same scan up to the same mark would return the same rows. So no event
  that the query selects ever appears at or below the mark afterwards, and a reader that goes
  on from the mark misses nothing.
\<close>

theorem barrier_scan_final:
  assumes "(pg_step s)\<^sup>*\<^sup>* (pg_start db) w" and "db_ok db"
    and "i < length (sys_txns w)" and "t_job (sys_txns w ! i) = Barrier q"
    and "t_phase (sys_txns w ! i) = Scanned hwm rows" and "(pg_step s)\<^sup>*\<^sup>* w w'"
  shows "rows = scan_rows q hwm (db_rows (sys_db w'))"
proof -
  have "i < length (sys_txns w') \<and> sys_txns w' ! i = sys_txns w ! i"
    using assms(6)
  proof (induction rule: rtranclp_induct)
    case (step w1 w2)
    then show ?case using scanned_stays [OF step(2)] assms(5) by auto
  qed (use assms(3) in simp)
  moreover have "sys_ok s (db_rows db) w'"
    using sys_ok_reachable [OF rtranclp_trans [OF assms(1,6)] assms(2)] .
  ultimately have "txn_ok s (sys_db w') (sys_txns w ! i)" by (auto simp: sys_ok_def)
  then show ?thesis using assms(4,5) by (simp add: txn_ok_def)
qed

lemma lone_scan:
  assumes "constructed q"
  shows "\<exists>w t. (pg_step s)\<^sup>*\<^sup>* (pg_start db) w \<and> sys_txns w = [t] \<and> t_job t = Barrier q
    \<and> t_phase t = Scanned (seq_hwm (db_seq db)) (scan_rows q (seq_hwm (db_seq db)) (db_rows db))"
proof -
  let ?w = "\<lambda>t. \<lparr>sys_db = db, sys_txns = [t], sys_commits = []\<rparr>"
  let ?t = "\<lambda>h ph. \<lparr>t_job = Barrier q, t_todo = [], t_held = h, t_phase = ph\<rparr>"
  let ?p = "seq_hwm (db_seq db)" and ?held = "rev (requests_of (Barrier q))"
  have step: "advance s (?w t) (?w t')" if "txn_step s db t db t' []" for t t'
    using local [of 0 "?w t" t s db t' "[]"] that by (simp add: committed_by_def split: job.splits)
  have "pg_step s (pg_start db) (?w (new_txn (Barrier q)))"
    using start_new [of s "Barrier q" "pg_start db"] assms by (simp add: pg_start_def)
  moreover have "(advance s)\<^sup>*\<^sup>* (?w (new_txn (Barrier q))) (?w (?t ?held Acquiring))"
    using run_locks [of "new_txn (Barrier q)" s db "[]"] by (simp add: new_txn_def)
  moreover have "advance s (?w (?t ?held Acquiring)) (?w (?t [] (Reading ?p)))"
    using step [OF barrier [of "?t ?held Acquiring" q s db]] by simp
  moreover have "advance s (?w (?t [] (Reading ?p))) (?w (?t [] (Scanned ?p (scan_rows q ?p (db_rows db)))))"
    using step [OF scan [of "?t [] (Reading ?p)" ?p q s db]] by simp
  moreover have "(advance s)\<^sup>*\<^sup>* a b \<Longrightarrow> (pg_step s)\<^sup>*\<^sup>* a b" for a b
    using rtranclp_mono [of "advance s" "pg_step s"] advances by blast
  ultimately have "(pg_step s)\<^sup>*\<^sup>* (pg_start db) (?w (?t [] (Scanned ?p (scan_rows q ?p (db_rows db)))))"
    by (meson advances rtranclp.rtrancl_into_rtrancl rtranclp_trans r_into_rtranclp)
  then show ?thesis by (intro exI [of _ "?w (?t [] (Scanned ?p (scan_rows q ?p (db_rows db))))"] exI) auto
qed

theorem barrier_scan_final_witness:
  "\<exists>w. (pg_step events_store)\<^sup>*\<^sup>* (pg_start empty_db) w \<and> length (sys_txns w) = 1
     \<and> scan_rows QueryAll 0 (db_rows (sys_db w)) = []"
proof -
  obtain w t where w: "(pg_step events_store)\<^sup>*\<^sup>* (pg_start empty_db) w" "sys_txns w = [t]"
      "t_job t = Barrier QueryAll"
      "t_phase t = Scanned (seq_hwm (db_seq empty_db)) (scan_rows QueryAll (seq_hwm (db_seq empty_db)) (db_rows empty_db))"
    using lone_scan [OF constructed_QueryAll, of events_store empty_db] by blast
  have "scan_rows QueryAll 0 (db_rows empty_db) = scan_rows QueryAll 0 (db_rows (sys_db w))"
    using barrier_scan_final [OF w(1) empty_db_simps(1), of 0 QueryAll 0 _ w] w by simp
  then show ?thesis using w(1,2) by (intro exI [of _ w]) (simp add: scan_rows_def empty_db_def)
qed

text \<open>
  C11: positions are never handed out twice. In every interleaving, with appends failing and
  rolling back at any point, all committed rows and all rows in flight in the open
  transactions have different positive positions within the range of the sequence.
\<close>

theorem positions_unique:
  assumes "(pg_step s)\<^sup>*\<^sup>* (pg_start db) w" and "db_ok db"
  shows "distinct (map row_pos (db_rows (sys_db w)))
    \<and> (\<forall>r \<in> set (db_rows (sys_db w)). 0 < row_pos r \<and> row_pos r \<le> seq_hwm (db_seq (sys_db w)))
    \<and> (\<forall>i < length (sys_txns w).
         row_pos ` set (inflight (t_phase (sys_txns w ! i))) \<inter> row_pos ` set (db_rows (sys_db w)) = {}
         \<and> distinct (map row_pos (inflight (t_phase (sys_txns w ! i))))
         \<and> (\<forall>j < length (sys_txns w). i \<noteq> j \<longrightarrow>
              row_pos ` set (inflight (t_phase (sys_txns w ! i)))
                \<inter> row_pos ` set (inflight (t_phase (sys_txns w ! j))) = {}))"
proof -
  have ok: "sys_ok s (db_rows db) w" using sys_ok_reachable [OF assms] .
  have own: "row_pos ` set (inflight (t_phase t)) \<inter> row_pos ` set (db_rows (sys_db w)) = {}
      \<and> distinct (map row_pos (inflight (t_phase t)))" if "txn_ok s (sys_db w) t" for t
    using that by (cases "t_job t"; cases "t_phase t") (auto simp: txn_ok_def strict_sorted_iff)
  have "committed_ok (sys_db w)" "\<forall>i < length (sys_txns w). txn_ok s (sys_db w) (sys_txns w ! i)"
      "\<forall>i < length (sys_txns w). \<forall>j < length (sys_txns w). i \<noteq> j \<longrightarrow> pair_ok (sys_txns w ! i) (sys_txns w ! j)"
    using ok unfolding sys_ok_def by blast+
  then show ?thesis
    using own by (auto simp: committed_ok_def rows_ok_def row_ok_def pair_ok_def)
qed

theorem positions_unique_witness:
  "\<exists>w. (pg_step events_store)\<^sup>*\<^sup>* (pg_start empty_db) w \<and> sys_commits w \<noteq> []
     \<and> distinct (map row_pos (db_rows (sys_db w)))"
proof -
  let ?cmds = "[\<lparr>cmdEvents = [event_of ''A'' [''x'']], cmdCondition = Some (condition_of [''A''] [''x''] None)\<rparr>]"
  have room: "pg_room empty_db (length (command_events ?cmds))" by simp
  have fresh: "first_violated 0 (db_log empty_db) ?cmds = None" by simp
  obtain w where w: "(pg_step events_store)\<^sup>*\<^sup>* (pg_start empty_db) w" "sys_commits w \<noteq> []"
    using lone_append_commits [OF empty_db_simps(1) scoped_command_job room fresh] by fastforce
  then show ?thesis using positions_unique [OF w(1) empty_db_simps(1)] by blast
qed

text \<open>
  C9: appends and barriers never deadlock. As long as no transaction asks for one key twice
  (its leaf and intent keys do not collide), from every reachable state the open transactions
  can all be run to their end without aborting one, because all take their keys in ascending
  order. And however they are scheduled, only finitely many steps remain.
\<close>

theorem no_deadlock:
  assumes "(pg_step s)\<^sup>*\<^sup>* (pg_start db) w" and "db_ok db" and "keys_apart w"
  shows "(\<exists>w'. (advance s)\<^sup>*\<^sup>* w w' \<and> all_finished w')
    \<and> (\<forall>w'. advance s w w' \<longrightarrow> total_work w' < total_work w)
    \<and> (\<not> all_finished w \<longrightarrow> (\<exists>w'. advance s w w'))"
  using quiesces [OF sys_ok_reachable [OF assms(1,2)] assms(3)] advance_work
    advance_exists [OF sys_ok_reachable [OF assms(1,2)] assms(3)] by blast

lemma leaf_intent_apart:
  "leafKey ''A'' ''x'' \<noteq> typeIntentKey ''A''" "leafKey ''A'' ''x'' \<noteq> globalIntentKey"
  unfolding leafKey_def typeIntentKey_def globalIntentKey_def by code_simp+

lemma scoped_command_keys:
  "distinct (map fst (requests_of (Write
     [\<lparr>cmdEvents = [event_of ''A'' [''x'']], cmdCondition = Some (condition_of [''A''] [''x''] None)\<rparr>])))"
proof -
  let ?cmds = "[\<lparr>cmdEvents = [event_of ''A'' [''x'']], cmdCondition = Some (condition_of [''A''] [''x''] None)\<rparr>]"
  have "set (leafX (append_keys ?cmds)) \<inter> set (intentS (append_keys ?cmds)) = {}"
    using leaf_intent_apart
    by (auto simp: append_keys_sets writer_leaf_keys writer_intent_keys event_leaf_def condition_leaf_def
        item_leaf_def event_of_def condition_of_def IsAll_def Items_def)
  then show ?thesis
    by (simp add: append_requests_def writer_requests_distinct append_keys_def case_prod_unfold)
qed

definition contended :: pg_sys where
  "contended =
     \<lparr>sys_db = empty_db,
      sys_txns =
        [new_txn (Write [\<lparr>cmdEvents = [event_of ''A'' [''x'']], cmdCondition = Some (condition_of [''A''] [''x''] None)\<rparr>]),
         new_txn (Barrier QueryAll)],
      sys_commits = []\<rparr>"

theorem no_deadlock_witness:
  "\<exists>w. (advance events_store)\<^sup>*\<^sup>* contended w \<and> all_finished w"
proof -
  let ?cmds = "[\<lparr>cmdEvents = [event_of ''A'' [''x'']], cmdCondition = Some (condition_of [''A''] [''x''] None)\<rparr>]"
  let ?w1 = "\<lparr>sys_db = empty_db, sys_txns = [new_txn (Write ?cmds)], sys_commits = []\<rparr>"
  have j: "job_ok events_store (Barrier QueryAll)" using constructed_QueryAll by simp
  have "pg_step events_store (pg_start empty_db) ?w1"
    using start_new [OF scoped_command_job, of "pg_start empty_db"] by (simp add: pg_start_def)
  moreover have "pg_step events_store ?w1 contended"
    using start_new [OF j, of ?w1] by (simp add: contended_def)
  ultimately have r: "(pg_step events_store)\<^sup>*\<^sup>* (pg_start empty_db) contended"
    by (meson rtranclp.rtrancl_into_rtrancl r_into_rtranclp)
  have k: "keys_apart contended"
    using scoped_command_keys
    by (simp add: keys_apart_def contended_def new_txn_def computeReaderLockKeys_def IsAll_def QueryAll_def
        barrier_requests_def del: requests_of.simps(1))
  show ?thesis using no_deadlock [OF r empty_db_simps(1) k] by blast
qed

end
