(* ===== verification/Pg_Subscribe.thy ===== *)
theory Pg_Subscribe
  imports Pg_Concurrency
begin

text \<open>
  \<open>postgres/subscribe.go\<close>: a subscription that drains everything past its position with a
  read, and waits for a notification or the poll interval before it drains again. The loop of
  \<open>Next\<close> is cut at its blocking calls: the head of the loop, what follows the drain, and
  what follows the wait are functions; the context, the driver's errors and the time that
  passes in between are their inputs. Interleaved with the concurrent store, where each drain
  is a barrier transaction, the subscription is proved to deliver every event once, in order
  and without gaps, although positions become visible out of order.
\<close>

section \<open>The iterator\<close>

record pgSubscribeIterator =
  ps_query :: Query
  ps_position :: SequencePosition
  ps_pollInterval :: int
  ps_listening :: bool
  ps_pending :: "SequencedEvent list"
  ps_current :: "SequencedEvent option"
  ps_err :: "error option"
  ps_closed :: bool

definition defaultPollInterval :: int where
  "defaultPollInterval = 100000000"

text \<open>Acquiring the listener's connection and LISTEN may fail; the second result counts connections kept.\<close>

definition pg_Subscribe ::
  "error option \<Rightarrow> error option \<Rightarrow> Query \<Rightarrow> SubscribeOptions \<Rightarrow> (error, pgSubscribeIterator) outcome \<times> nat" where
  "pg_Subscribe acquire listen query opts =
     (let pollInterval = (if PollInterval opts \<le> 0 then defaultPollInterval else PollInterval opts);
          position = (case subAfter opts of None \<Rightarrow> SequencePositionInitial | Some p \<Rightarrow> p)
      in case acquire of
           Some e \<Rightarrow> (Err e, 0)
         | None \<Rightarrow>
             (case listen of
                Some e \<Rightarrow> (Err e, 0)
              | None \<Rightarrow>
                  (Ok \<lparr>ps_query = query, ps_position = position, ps_pollInterval = pollInterval,
                       ps_listening = True, ps_pending = [], ps_current = None, ps_err = None,
                       ps_closed = False\<rparr>, 1)))"

datatype wait_result = Notified | WaitFailed error

datatype ps_outcome = PReturn bool | PLoop | PDrain | PWait

definition ps_enter :: "pgSubscribeIterator \<Rightarrow> ps_outcome" where
  "ps_enter it = (if ps_err it \<noteq> None \<or> ps_closed it then PReturn False else PLoop)"

fun ps_head :: "bool \<Rightarrow> pgSubscribeIterator \<Rightarrow> ps_outcome \<times> pgSubscribeIterator" where
  "ps_head ctxDone it =
     (case ps_pending it of
        ev # rest \<Rightarrow>
          (PReturn True, it\<lparr>ps_current := Some ev, ps_pending := rest, ps_position := sePosition ev\<rparr>)
      | [] \<Rightarrow> (if ctxDone then (PReturn False, it) else (PDrain, it)))"

fun ps_drained ::
  "bool \<Rightarrow> error + SequencedEvent list \<Rightarrow> pgSubscribeIterator \<Rightarrow> ps_outcome \<times> pgSubscribeIterator" where
  "ps_drained ctxDone (Inl err) it =
     (if ctxDone then (PReturn False, it) else (PReturn False, it\<lparr>ps_err := Some err\<rparr>))"
| "ps_drained ctxDone (Inr events) it =
     (if length events > 0 then (PLoop, it\<lparr>ps_pending := events\<rparr>) else (PWait, it))"

fun ps_waited :: "bool \<Rightarrow> wait_result \<Rightarrow> pgSubscribeIterator \<Rightarrow> ps_outcome \<times> pgSubscribeIterator" where
  "ps_waited ctxDone Notified it = (PLoop, it)"
| "ps_waited ctxDone (WaitFailed err) it =
     (if ctxDone then (PReturn False, it)
      else if err = CtxError DeadlineExceeded then (PLoop, it)
      else (PReturn False, it\<lparr>ps_err := Some err\<rparr>))"

declare ps_head.simps [simp del] ps_drained.simps [simp del] ps_waited.simps [simp del]

definition ps_drain ::
  "read_env \<Rightarrow> PgDb \<Rightarrow> PgDb \<Rightarrow> pgSubscribeIterator \<Rightarrow> (error, SequencedEvent list) outcome" where
  "ps_drain env db1 db2 it =
     (case fst (read_between env db1 db2 (ps_query it)
                  \<lparr>Backwards = False, readAfter = Some (ps_position it), Limit = 0\<rparr>) of
        Err e \<Rightarrow> Err e
      | Panic m \<Rightarrow> Panic m
      | Ok readIt \<Rightarrow>
          (case Collect_it cursorIterator_methods readIt of
             None \<Rightarrow> Panic ''Collect does not return''
           | Some (Ok (events, None), _) \<Rightarrow> Ok events
           | Some (Ok (events, Some e), _) \<Rightarrow> Err e
           | Some (Err e, _) \<Rightarrow> Err e
           | Some (Panic m, _) \<Rightarrow> Panic m))"

definition ps_Close :: "pgSubscribeIterator \<Rightarrow> pgSubscribeIterator" where
  "ps_Close it = (if ps_closed it then it else it\<lparr>ps_closed := True, ps_listening := False\<rparr>)"

section \<open>What a drain returns\<close>

definition position_int :: "SequencePosition \<Rightarrow> int" where
  "position_int p = uint (pos_value p)"

definition drain_events :: "int \<Rightarrow> row list \<Rightarrow> SequencedEvent list" where
  "drain_events after rows = map row_event (sort_key row_pos (filter (\<lambda>r. after < row_pos r) rows))"

lemma drain_result:
  assumes "committed_ok db1" and "committed_ok db2" and "pos_value (ps_position it) < 2 ^ 63"
  shows "ps_drain healthy_read db1 db2 it =
    Ok (drain_events (position_int (ps_position it)) (scan_rows (ps_query it) (seq_hwm (db_seq db1)) (db_rows db2)))"
proof -
  let ?opts = "\<lparr>Backwards = False, readAfter = Some (ps_position it), Limit = 0\<rparr>" and ?h = "seq_hwm (db_seq db1)"
  let ?q = "ps_query it" and ?u = "Some (word_of_int (seq_hwm (db_seq db1)) :: int64)"
  let ?rows = "sort_key row_pos (filter (\<lambda>r. pos_selects ?opts ?u r \<and> query_selects ?q r) (db_rows db2))"
  have after: "\<forall>a. readAfter ?opts = Some a \<longrightarrow> pos_value a < 2 ^ 63" using assms(3) by simp
  obtain st args where st: "plan_read ?q ?opts ?u = Ok (st, args)" "stmt_params_ok args st"
      "\<forall>r. list_all (eval_filter args r) (st_filters st) \<longleftrightarrow> pos_selects ?opts ?u r \<and> query_selects ?q r"
      "st_descending st = Backwards ?opts"
      "st_limit st = None \<and> Limit ?opts \<le> 0
        \<or> (\<exists>n. st_limit st = Some n \<and> arg_at args n = Some (ArgInt (Limit ?opts)) \<and> Limit ?opts > 0)"
    by (rule plan_read_sem [OF after])
  have exec: "exec_declare st args (db_rows db2) = Ok ?rows"
    using st by (auto simp: exec_declare_def Let_def)
  let ?it = "\<lparr>cur_conn = \<lparr>cn_cursor = ?rows, cn_in_tx = True, cn_fetched = 0, cn_fails = (\<lambda>_. None), cn_released = False\<rparr>,
      cur_buffer = [], cur_idx = 0, cur_exhausted = False, cur_err = None, cur_closed = False\<rparr>"
  have read: "read_between healthy_read db1 db2 ?q ?opts = (Ok ?it, 1)"
    using st(1) exec
    by (simp add: read_between_def open_cursor_unfold healthy_read_def barrierSnapshot_def barrier_hwm_def Let_def)
  have max: "seq_hwm (db_seq db2) \<le> bigint_max" and ok: "\<forall>r \<in> set ?rows. row_ok (seq_hwm (db_seq db2)) r"
    using assms(2) by (auto simp: committed_ok_def rows_ok_def)
  have "cursor_ok ?it" using ok row_ok_event(5) [OF _ max] by (simp add: cursor_ok_def list_all_iff)
  moreover have "fetch_all (\<lambda>_. None) 0 ?rows = (map row_event ?rows, None)"
    using ok row_ok_event(1) [OF _ max] by (intro fetch_all_ok) blast
  then have "cursor_remaining ?it = map row_event ?rows" "cursor_fate ?it = None"
    by (simp_all add: cursor_remaining_def cursor_fate_def cursor_live_def cursor_rest_def)
  ultimately have collect: "\<exists>it'. Collect_it cursorIterator_methods ?it = Some (Ok (map row_event ?rows, None), it')"
    using cursor.Collect_it_remaining [of ?it] by auto
  have "sint (word_of_int ?h :: int64) = ?h"
    using assms(1) by (intro sint_word_of_int64) (simp_all add: committed_ok_def bigint_max_def)
  then have "filter (\<lambda>r. pos_selects ?opts ?u r \<and> query_selects ?q r) (db_rows db2) =
      filter (\<lambda>r. position_int (ps_position it) < row_pos r) (scan_rows ?q ?h (db_rows db2))"
    by (auto simp: scan_rows_def pos_selects_def position_int_def intro: filter_cong)
  then show ?thesis
    unfolding ps_drain_def read using collect by (auto simp: drain_events_def)
qed

section \<open>Interleavings with the concurrent store\<close>

text \<open>
  \<open>ps_heard\<close> counts how many of the notifications sent so far the listening connection has
  consumed, those on other channels included, which it is never shown.
\<close>

datatype ps_pc = PIdle | PHead | PDraining nat | PWaiting | PStopped | PPanicked

record psub_sys =
  ps_world :: pg_sys
  ps_it :: pgSubscribeIterator
  ps_pc :: ps_pc
  ps_done :: bool
  ps_delivered :: "SequencedEvent list"
  ps_heard :: nat

text \<open>
  A drain whose position is beyond a \<open>bigint\<close> panics when it builds its statement, after the
  barrier. A wait ends with the next notification on the channel that is listened to, if one
  has been sent, or with an error: that of the poll interval's deadline, of the context, or
  of the connection.
\<close>

inductive psub_step :: "PgStore \<Rightarrow> psub_sys \<Rightarrow> psub_sys \<Rightarrow> bool" for s where
  others: "pg_step s (ps_world z) w' \<Longrightarrow> psub_step s z (z\<lparr>ps_world := w'\<rparr>)"
| cancel: "psub_step s z (z\<lparr>ps_done := True\<rparr>)"
| close: "ps_pc z = PIdle \<or> ps_pc z = PStopped \<Longrightarrow> psub_step s z (z\<lparr>ps_it := ps_Close (ps_it z)\<rparr>)"
| call: "ps_pc z = PIdle \<or> ps_pc z = PStopped \<Longrightarrow> ps_enter (ps_it z) = PLoop \<Longrightarrow> psub_step s z (z\<lparr>ps_pc := PHead\<rparr>)"
| deliver:
    "ps_pc z = PHead \<Longrightarrow> ps_head (ps_done z) (ps_it z) = (PReturn True, it') \<Longrightarrow> ps_current it' = Some ev \<Longrightarrow>
     psub_step s z (z\<lparr>ps_it := it', ps_pc := PIdle, ps_delivered := ps_delivered z @ [ev]\<rparr>)"
| stop:
    "ps_pc z = PHead \<Longrightarrow> ps_head (ps_done z) (ps_it z) = (PReturn False, it') \<Longrightarrow>
     psub_step s z (z\<lparr>ps_it := it', ps_pc := PStopped\<rparr>)"
| drain_starts:
    "ps_pc z = PHead \<Longrightarrow> ps_head (ps_done z) (ps_it z) = (PDrain, it') \<Longrightarrow> w = ps_world z \<Longrightarrow>
     request_order (Barrier (ps_query it')) reqs \<Longrightarrow>
     psub_step s z (z\<lparr>ps_it := it', ps_pc := PDraining (length (sys_txns w)),
                      ps_world := w\<lparr>sys_txns := sys_txns w @ [(new_txn (Barrier (ps_query it')))\<lparr>t_todo := reqs\<rparr>]\<rparr>\<rparr>)"
| drain_ends:
    "ps_pc z = PDraining i \<Longrightarrow> i < length (sys_txns (ps_world z)) \<Longrightarrow>
     t_job (sys_txns (ps_world z) ! i) = Barrier (ps_query (ps_it z)) \<Longrightarrow>
     t_phase (sys_txns (ps_world z) ! i) = Scanned hwm rows \<Longrightarrow> pos_value (ps_position (ps_it z)) < 2 ^ 63 \<Longrightarrow>
     ps_drained (ps_done z) (Inr (drain_events (position_int (ps_position (ps_it z))) rows)) (ps_it z) = (o', it') \<Longrightarrow>
     psub_step s z (z\<lparr>ps_it := it', ps_pc := (if o' = PLoop then PHead else PWaiting)\<rparr>)"
| drain_panics:
    "ps_pc z = PDraining i \<Longrightarrow> i < length (sys_txns (ps_world z)) \<Longrightarrow>
     t_phase (sys_txns (ps_world z) ! i) = Reading hwm \<or> t_phase (sys_txns (ps_world z) ! i) = Scanned hwm rows \<Longrightarrow>
     2 ^ 63 \<le> pos_value (ps_position (ps_it z)) \<Longrightarrow> psub_step s z (z\<lparr>ps_pc := PPanicked\<rparr>)"
| drain_fails:
    "ps_pc z = PDraining i \<Longrightarrow> ps_drained (ps_done z) (Inl e) (ps_it z) = (PReturn False, it') \<Longrightarrow>
     psub_step s z (z\<lparr>ps_it := it', ps_pc := PStopped\<rparr>)"
| notified:
    "ps_pc z = PWaiting \<Longrightarrow> drop (ps_heard z) (db_notified (sys_db (ps_world z))) = skipped @ n # later \<Longrightarrow>
     fst n = listen_channel s \<Longrightarrow> list_all (\<lambda>n'. fst n' \<noteq> listen_channel s) skipped \<Longrightarrow>
     ps_waited (ps_done z) Notified (ps_it z) = (o', it') \<Longrightarrow>
     psub_step s z (z\<lparr>ps_it := it', ps_pc := (if o' = PLoop then PHead else PStopped),
                      ps_heard := ps_heard z + Suc (length skipped)\<rparr>)"
| wait_fails:
    "ps_pc z = PWaiting \<Longrightarrow> ps_waited (ps_done z) (WaitFailed e) (ps_it z) = (o', it') \<Longrightarrow>
     psub_step s z (z\<lparr>ps_it := it', ps_pc := (if o' = PLoop then PHead else PStopped)\<rparr>)"

inductive_cases psub_step_elim: "psub_step s z z'"

definition psub_start :: "pg_sys \<Rightarrow> pgSubscribeIterator \<Rightarrow> psub_sys" where
  "psub_start w it = \<lparr>ps_world = w, ps_it = it, ps_pc = PIdle, ps_done = False, ps_delivered = [],
     ps_heard = length (db_notified (sys_db w))\<rparr>"

section \<open>The invariant\<close>

text \<open>The committed rows that are due to a subscription up to a mark, in position order.\<close>

definition due_upto :: "Query \<Rightarrow> int \<Rightarrow> int \<Rightarrow> pg_sys \<Rightarrow> row list" where
  "due_upto q start m w =
     sort_key row_pos (filter (\<lambda>r. start < row_pos r) (scan_rows q m (db_rows (sys_db w))))"

definition scanned_at :: "pg_sys \<Rightarrow> Query \<Rightarrow> int \<Rightarrow> bool" where
  "scanned_at w q m \<longleftrightarrow>
     (\<exists>i < length (sys_txns w). t_job (sys_txns w ! i) = Barrier q
        \<and> (\<exists>rows. t_phase (sys_txns w ! i) = Scanned m rows))"

definition last_position :: "int \<Rightarrow> SequencedEvent list \<Rightarrow> int" where
  "last_position start delivered =
     (if delivered = [] then start else position_int (sePosition (last delivered)))"

definition psub_inv :: "PgStore \<Rightarrow> row list \<Rightarrow> Query \<Rightarrow> int \<Rightarrow> int \<Rightarrow> psub_sys \<Rightarrow> bool" where
  "psub_inv s rows0 q start m z \<longleftrightarrow>
     sys_ok s rows0 (ps_world z) \<and> constructed q \<and> ps_query (ps_it z) = q
     \<and> (m = start \<or> scanned_at (ps_world z) q m)
     \<and> map row_event (due_upto q start m (ps_world z)) = ps_delivered z @ ps_pending (ps_it z)
     \<and> position_int (ps_position (ps_it z)) = last_position start (ps_delivered z)
     \<and> (\<forall>i. ps_pc z = PDraining i \<longrightarrow> ps_pending (ps_it z) = [])"

text \<open>The rows due up to a mark that a scan has reached do not change any more.\<close>

lemma scan_final:
  assumes "sys_ok s rows0 w" and "scanned_at w q m" and "pg_step s w w'"
  shows "scan_rows q m (db_rows (sys_db w')) = scan_rows q m (db_rows (sys_db w)) \<and> scanned_at w' q m"
proof -
  obtain i rows where i: "i < length (sys_txns w)" "t_job (sys_txns w ! i) = Barrier q"
      "t_phase (sys_txns w ! i) = Scanned m rows"
    using assms(2) by (auto simp: scanned_at_def)
  have same: "i < length (sys_txns w')" "sys_txns w' ! i = sys_txns w ! i"
    using scanned_stays [OF assms(3) i(1,3)] by auto
  have "txn_ok s (sys_db w) (sys_txns w ! i)" "txn_ok s (sys_db w') (sys_txns w ! i)"
    using assms(1) sys_ok_step [OF assms(3,1)] i(1) same by (auto simp: sys_ok_def)
  then show ?thesis using i same by (auto simp: txn_ok_def scanned_at_def)
qed

lemma due_upto_start: "due_upto q start start w = []"
  by (auto simp: due_upto_def scan_rows_def filter_empty_conv)

lemma due_upto_step:
  assumes "sys_ok s rows0 w" and "m = start \<or> scanned_at w q m" and "pg_step s w w'"
  shows "due_upto q start m w' = due_upto q start m w \<and> (m = start \<or> scanned_at w' q m)"
  using assms scan_final [OF assms(1) _ assms(3)] due_upto_start [of q start] by (auto simp: due_upto_def)

section \<open>A drain continues where the last one ended\<close>

lemma sorted_split:
  "sorted (map f xs) \<Longrightarrow> filter (\<lambda>x. f x \<le> p) xs @ filter (\<lambda>x. p < f x) xs = xs"
  for f :: "'a \<Rightarrow> 'b :: linorder"
proof (induction xs)
  case (Cons x xs)
  show ?case
  proof (cases "f x \<le> p")
    case False
    then have "\<forall>y \<in> set xs. p < f y" using Cons.prems by fastforce
    then show ?thesis using False by (auto simp: filter_empty_conv filter_id_conv not_le)
  qed (use Cons in simp)
qed simp

lemma sorted_last: "sorted (map f xs) \<Longrightarrow> x \<in> set xs \<Longrightarrow> f x \<le> f (last xs)"
  for f :: "'a \<Rightarrow> 'b :: linorder"
  by (cases xs rule: rev_cases) (auto simp: sorted_append)

lemma due_upto_member:
  "r \<in> set (due_upto q start m w) \<longleftrightarrow>
     r \<in> set (db_rows (sys_db w)) \<and> start < row_pos r \<and> row_pos r \<le> m \<and> query_selects q r"
  by (auto simp: due_upto_def scan_rows_def)

lemma due_upto_sorted: "sorted (map row_pos (due_upto q start m w))"
  by (simp add: due_upto_def)

lemma row_event_position:
  assumes "sys_ok s rows0 w" and "r \<in> set (db_rows (sys_db w))"
  shows "position_int (sePosition (row_event r)) = row_pos r"
proof -
  have max: "seq_hwm (db_seq (sys_db w)) \<le> bigint_max" and ok: "row_ok (seq_hwm (db_seq (sys_db w))) r"
    using assms by (simp_all add: sys_ok_def committed_ok_def rows_ok_def)
  have "0 \<le> row_pos r" "row_pos r < 2 ^ 63" using row_ok_pos63 [OF ok max] by auto
  then show ?thesis
    using row_ok_event(3) [OF ok max] by (simp add: position_int_def bigint_position_def uint_word_of_int)
qed

text \<open>After everything up to a mark was delivered, the position is the last row due up to it.\<close>

lemma last_position_due:
  assumes "sys_ok s rows0 w" and "map row_event (due_upto q start m w) = delivered"
  shows "last_position start delivered = (if due_upto q start m w = [] then start else row_pos (last (due_upto q start m w)))"
proof (cases "due_upto q start m w = []")
  case False
  then have "last (due_upto q start m w) \<in> set (db_rows (sys_db w))"
    using due_upto_member last_in_set by blast
  then show ?thesis
    using assms False row_event_position [OF assms(1)] by (auto simp: last_position_def last_map)
qed (use assms(2) in \<open>simp add: last_position_def\<close>)

lemma drain_continues:
  assumes "sys_ok s rows0 w" and "map row_event (due_upto q start m w) = delivered"
    and "p = last_position start delivered"
  shows "due_upto q start (max m h) w =
    due_upto q start m w @ sort_key row_pos (filter (\<lambda>r. p < row_pos r) (scan_rows q h (db_rows (sys_db w))))"
proof -
  let ?L = "due_upto q start m w" and ?M = "due_upto q start (max m h) w"
  have p: "p = (if ?L = [] then start else row_pos (last ?L))"
    using last_position_due [OF assms(1,2)] assms(3) by simp
  have top: "row_pos r \<le> p" if "r \<in> set ?L" for r
  proof -
    have "row_pos r \<le> row_pos (last ?L)" using sorted_last [OF due_upto_sorted that] .
    then show ?thesis using p that by auto
  qed
  have low: "start \<le> p" "?L \<noteq> [] \<longrightarrow> p \<le> m"
    using p due_upto_member [of "last ?L" q start m w] by auto
  have iff1: "(start < row_pos r \<and> row_pos r \<le> max m h \<and> query_selects q r) \<and> row_pos r \<le> p
      \<longleftrightarrow> start < row_pos r \<and> row_pos r \<le> m \<and> query_selects q r" if "r \<in> set (db_rows (sys_db w))" for r
    using top [of r] low p that due_upto_member [of r q start m w] by (cases "?L = []") auto
  have iff2: "(start < row_pos r \<and> row_pos r \<le> max m h \<and> query_selects q r) \<and> p < row_pos r
      \<longleftrightarrow> p < row_pos r \<and> row_pos r \<le> h \<and> query_selects q r" if "r \<in> set (db_rows (sys_db w))" for r
    using top [of r] low that due_upto_member [of r q start m w] by fastforce
  have "filter (\<lambda>r. row_pos r \<le> p) ?M = ?L"
    unfolding due_upto_def filter_sort scan_rows_def filter_filter
    by (rule arg_cong [where f = "sort_key row_pos"], rule filter_cong) (use iff1 in auto)
  moreover have "filter (\<lambda>r. p < row_pos r) ?M
      = sort_key row_pos (filter (\<lambda>r. p < row_pos r) (scan_rows q h (db_rows (sys_db w))))"
    unfolding due_upto_def filter_sort scan_rows_def filter_filter
    by (rule arg_cong [where f = "sort_key row_pos"], rule filter_cong) (use iff2 in auto)
  ultimately show ?thesis
    using sorted_split [OF due_upto_sorted [of q start "max m h" w], of p] by simp
qed

section \<open>Every step keeps the invariant\<close>

lemma psub_inv_world:
  assumes "psub_inv s rows0 q start m z" and "pg_step s (ps_world z) w'"
  shows "psub_inv s rows0 q start m (z\<lparr>ps_world := w'\<rparr>)"
proof -
  have inv: "sys_ok s rows0 (ps_world z)" "m = start \<or> scanned_at (ps_world z) q m"
    using assms(1) unfolding psub_inv_def by blast+
  show ?thesis
    using assms(1) sys_ok_step [OF assms(2) inv(1)] due_upto_step [OF inv assms(2)]
    unfolding psub_inv_def by simp
qed

lemma psub_inv_deliver:
  assumes "psub_inv s rows0 q start m z" and "ps_head (ps_done z) (ps_it z) = (PReturn True, it')"
    and "ps_current it' = Some ev"
  shows "psub_inv s rows0 q start m (z\<lparr>ps_it := it', ps_pc := PIdle, ps_delivered := ps_delivered z @ [ev]\<rparr>)"
  using assms
  by (cases "ps_pending (ps_it z)") (auto simp: ps_head.simps psub_inv_def last_position_def split: if_splits)

lemma psub_inv_drain_ends:
  assumes inv: "psub_inv s rows0 q start m z" and "ps_pc z = PDraining i"
    and i: "i < length (sys_txns (ps_world z))" "t_job (sys_txns (ps_world z) ! i) = Barrier (ps_query (ps_it z))"
      "t_phase (sys_txns (ps_world z) ! i) = Scanned hwm rows"
    and step: "ps_drained (ps_done z) (Inr (drain_events (position_int (ps_position (ps_it z))) rows)) (ps_it z) = (o', it')"
    and pc: "\<forall>j. pc \<noteq> PDraining j"
  shows "psub_inv s rows0 q start (max m hwm) (z\<lparr>ps_it := it', ps_pc := pc\<rparr>)"
proof -
  let ?w = "ps_world z" and ?p = "position_int (ps_position (ps_it z))"
  have q: "ps_query (ps_it z) = q" and nil: "ps_pending (ps_it z) = []" and ok: "sys_ok s rows0 ?w"
    using inv assms(2) by (simp_all add: psub_inv_def)
  have rows: "rows = scan_rows q hwm (db_rows (sys_db ?w))"
    using ok i q by (auto simp: sys_ok_def txn_ok_def)
  have "due_upto q start (max m hwm) ?w = due_upto q start m ?w
      @ sort_key row_pos (filter (\<lambda>r. ?p < row_pos r) (scan_rows q hwm (db_rows (sys_db ?w))))"
    by (rule drain_continues [OF ok]) (use inv nil in \<open>simp_all add: psub_inv_def\<close>)
  then have due: "map row_event (due_upto q start (max m hwm) ?w) = ps_delivered z @ drain_events ?p rows"
    using inv nil by (simp add: psub_inv_def drain_events_def rows)
  have "max m hwm = start \<or> scanned_at ?w q (max m hwm)"
    using inv i q by (auto simp: psub_inv_def scanned_at_def max_def)
  moreover have "ps_query it' = q" "ps_position it' = ps_position (ps_it z)" "ps_pending it' = drain_events ?p rows"
    using step q nil by (auto simp: ps_drained.simps split: if_splits)
  ultimately show ?thesis using inv due pc by (auto simp: psub_inv_def)
qed

lemma psub_inv_step:
  assumes "psub_step s z z'" and "psub_inv s rows0 q start m z"
  shows "\<exists>m'. psub_inv s rows0 q start m' z'"
  using assms(1)
proof (cases rule: psub_step.cases)
  case (others w')
  then show ?thesis using psub_inv_world [OF assms(2)] by blast
next
  case (deliver it' ev)
  then show ?thesis using psub_inv_deliver [OF assms(2)] by blast
next
  case (drain_starts it' w reqs)
  then have it: "it' = ps_it z" "ps_pending (ps_it z) = []"
    by (auto simp: ps_head.simps split: list.splits if_splits)
  have "pg_step s w (w\<lparr>sys_txns := sys_txns w @ [(new_txn (Barrier (ps_query it')))\<lparr>t_todo := reqs\<rparr>]\<rparr>)"
    by (rule start [OF _ drain_starts(5)]) (use assms(2) it in \<open>simp add: psub_inv_def\<close>)
  from psub_inv_world [OF assms(2), unfolded drain_starts(4) [symmetric], OF this] show ?thesis
    using drain_starts it by (intro exI [of _ m]) (auto simp: psub_inv_def)
next
  case (drain_ends i hwm rows o' it')
  then show ?thesis
    using psub_inv_drain_ends [OF assms(2) drain_ends(2-5,7), of "if o' = PLoop then PHead else PWaiting"] by auto
next
  case (stop it')
  then have "it' = ps_it z" by (auto simp: ps_head.simps split: list.splits if_splits)
  then show ?thesis using stop assms(2) by (intro exI [of _ m]) (simp add: psub_inv_def)
next
  case (drain_fails i e it')
  then have "ps_query it' = ps_query (ps_it z)" "ps_position it' = ps_position (ps_it z)"
      "ps_pending it' = ps_pending (ps_it z)"
    by (auto simp: ps_drained.simps split: if_splits)
  then show ?thesis using drain_fails assms(2) by (intro exI [of _ m]) (simp add: psub_inv_def)
next
  case (notified skipped n later o' it')
  then have "it' = ps_it z" by (simp add: ps_waited.simps)
  then show ?thesis using notified assms(2) by (intro exI [of _ m]) (simp add: psub_inv_def)
next
  case (wait_fails e o' it')
  then have "ps_query it' = ps_query (ps_it z)" "ps_position it' = ps_position (ps_it z)"
      "ps_pending it' = ps_pending (ps_it z)"
    by (auto simp: ps_waited.simps split: if_splits)
  then show ?thesis using wait_fails assms(2) by (intro exI [of _ m]) (simp add: psub_inv_def)
qed (use assms(2) in \<open>auto intro!: exI [of _ m] simp: psub_inv_def ps_Close_def\<close>)

lemma psub_inv_reachable:
  assumes "(psub_step s)\<^sup>*\<^sup>* (psub_start w it) z" and "sys_ok s rows0 w" and "constructed q"
    and "pg_Subscribe None None q opts = (Ok it, n)"
    and "start = position_int (case subAfter opts of None \<Rightarrow> SequencePositionInitial | Some p \<Rightarrow> p)"
  shows "\<exists>m. psub_inv s rows0 q start m z"
  using assms(1)
proof (induction rule: rtranclp_induct)
  case base
  have "psub_inv s rows0 q start start (psub_start w it)"
    using assms(2-5)
    by (auto simp: psub_inv_def psub_start_def pg_Subscribe_def due_upto_start last_position_def Let_def)
  then show ?case by blast
next
  case (step y z)
  then show ?case using psub_inv_step by blast
qed

section \<open>Properties of the PostgreSQL subscription\<close>

lemma position_int_less: "p < p' \<longleftrightarrow> position_int p < position_int p'"
  by (simp add: position_int_def less_SequencePosition_def word_less_def)

lemma due_upto_strict:
  assumes "sys_ok s rows0 w"
  shows "sorted_wrt (<) (map row_pos (due_upto q start m w))"
proof -
  have "distinct (map row_pos (db_rows (sys_db w)))" 
    using assms unfolding sys_ok_def committed_ok_def by blast
  then have "distinct (map row_pos (due_upto q start m w))"
    unfolding due_upto_def scan_rows_def by (intro distinct_sort_key_map) (simp add: distinct_map_filter)
  then show ?thesis using due_upto_sorted by (simp add: strict_sorted_iff)
qed

lemma due_prefix:
  assumes "sys_ok s rows0 w" and "map row_event (due_upto q start m w) = delivered @ rest"
  shows "positions_ascend delivered"
    and "se \<in> set delivered \<Longrightarrow>
      \<exists>r \<in> set (db_rows (sys_db w)). se = row_event r \<and> start < row_pos r \<and> query_selects q r"
    and "r \<in> set (db_rows (sys_db w)) \<Longrightarrow> query_selects q r \<Longrightarrow> start < row_pos r \<Longrightarrow> delivered \<noteq> [] \<Longrightarrow>
      row_pos r \<le> position_int (sePosition (last delivered)) \<Longrightarrow> row_event r \<in> set delivered"
proof -
  let ?L = "due_upto q start m w"
  obtain A B where L: "?L = A @ B" "map row_event A = delivered"
    using assms(2) by (metis append_eq_map_conv)
  have pos: "position_int (sePosition (row_event x)) = row_pos x" if "x \<in> set ?L" for x
    using that row_event_position [OF assms(1)] due_upto_member by blast
  have strict: "sorted_wrt (\<lambda>x y. row_pos x < row_pos y) (A @ B)"
    using due_upto_strict [OF assms(1), of q start m] unfolding L(1) sorted_wrt_map .
  show "positions_ascend delivered"
    unfolding positions_ascend_def L(2) [symmetric] map_map sorted_wrt_map comp_def position_int_less
    by (rule sorted_wrt_mono_rel [of A "\<lambda>x y. row_pos x < row_pos y"])
      (use strict pos L(1) in \<open>auto simp: sorted_wrt_append\<close>)
  show "\<exists>r \<in> set (db_rows (sys_db w)). se = row_event r \<and> start < row_pos r \<and> query_selects q r"
    if mem: "se \<in> set delivered"
  proof -
    obtain x where x: "x \<in> set A" "se = row_event x" using mem L(2) by auto
    then have "x \<in> set ?L" using L(1) by simp
    then show ?thesis using x(2) due_upto_member [of x] by blast
  qed
  show "row_event r \<in> set delivered"
    if r: "r \<in> set (db_rows (sys_db w))" "query_selects q r" "start < row_pos r" "delivered \<noteq> []"
      "row_pos r \<le> position_int (sePosition (last delivered))"
  proof -
    have A: "A \<noteq> []" using r(4) L(2) by auto
    then have lastE: "last delivered = row_event (last A)" unfolding L(2) [symmetric] by (rule last_map)
    have lastA: "last A \<in> set ?L" using L(1) A by simp
    then have "row_pos r \<le> row_pos (last A)" using r(5) lastE pos by simp
    moreover have "row_pos (last A) \<le> m" using lastA due_upto_member [of "last A"] by blast
    ultimately have "r \<in> set ?L" using r due_upto_member [of r] by auto
    moreover have "r \<notin> set B"
    proof
      assume "r \<in> set B"
      then have "row_pos (last A) < row_pos r" using strict last_in_set [OF A] by (auto simp: sorted_wrt_append)
      with \<open>row_pos r \<le> row_pos (last A)\<close> show False by simp
    qed
    ultimately show ?thesis using L by auto
  qed
qed

text \<open>
  C3: a subscription under concurrency delivers exactly once, in order and without gaps. In
  every interleaving of appends, aborts, other reads and the subscription's own drains, waits
  and failures, what it has delivered is in strictly ascending position order, consists only
  of committed events that its query selects after its start, and misses none: every committed
  event that the query selects between the start and the last delivered position was
  delivered. As this holds in every later state too, no event ever commits behind a position
  the subscription has passed.
\<close>

theorem pg_subscribe_exactly_once:
  assumes "(pg_step s)\<^sup>*\<^sup>* (pg_start db) w" and "db_ok db" and "constructed q"
    and "pg_Subscribe None None q opts = (Ok it, n)" and "(psub_step s)\<^sup>*\<^sup>* (psub_start w it) z"
    and "start = position_int (case subAfter opts of None \<Rightarrow> SequencePositionInitial | Some p \<Rightarrow> p)"
  shows "positions_ascend (ps_delivered z)
    \<and> (\<forall>se \<in> set (ps_delivered z). \<exists>r \<in> set (db_rows (sys_db (ps_world z))).
         se = row_event r \<and> start < row_pos r \<and> query_selects q r)
    \<and> (\<forall>r \<in> set (db_rows (sys_db (ps_world z))).
         query_selects q r \<and> start < row_pos r \<and> ps_delivered z \<noteq> []
         \<and> row_pos r \<le> position_int (sePosition (last (ps_delivered z))) \<longrightarrow> row_event r \<in> set (ps_delivered z))"
proof -
  obtain m where "psub_inv s (db_rows db) q start m z"
    using psub_inv_reachable [OF assms(5) sys_ok_reachable [OF assms(1,2)] assms(3,4,6)] by blast
  then have "sys_ok s (db_rows db) (ps_world z)"
      "map row_event (due_upto q start m (ps_world z)) = ps_delivered z @ ps_pending (ps_it z)"
    by (simp_all add: psub_inv_def)
  from due_prefix [OF this] show ?thesis by blast
qed

text \<open>
  C20: the drain of the code. Reading past the current position with a healthy driver, whatever
  committed between the barrier and the cursor, returns exactly the rows that the scan of the
  barrier's transaction selects beyond the position, decoded and in position order.
\<close>

theorem ps_drain_correct:
  assumes "committed_ok db1" and "committed_ok db2" and "pos_value (ps_position it) < 2 ^ 63"
  shows "ps_drain healthy_read db1 db2 it =
    Ok (drain_events (position_int (ps_position it)) (scan_rows (ps_query it) (seq_hwm (db_seq db1)) (db_rows db2)))"
  by (rule drain_result [OF assms])

theorem ps_drain_correct_witness:
  "\<exists>it n. pg_Subscribe None None QueryAll \<lparr>subAfter = None, PollInterval = 0\<rparr> = (Ok it, n)
     \<and> ps_drain healthy_read empty_db empty_db it = Ok []"
proof -
  let ?it = "\<lparr>ps_query = QueryAll, ps_position = SequencePositionInitial, ps_pollInterval = defaultPollInterval,
    ps_listening = True, ps_pending = [], ps_current = None, ps_err = None, ps_closed = False\<rparr>"
  have "committed_ok empty_db"
    by (simp add: committed_ok_def rows_ok_def empty_db_def seq_hwm_def bigint_max_def)
  then show ?thesis
    using ps_drain_correct [of empty_db empty_db ?it]
    by (intro exI [of _ ?it] exI [of _ 1])
      (simp add: pg_Subscribe_def drain_events_def scan_rows_def empty_db_def SequencePositionInitial_def)
qed

section \<open>A subscription gets what is due\<close>

lemma others_run:
  "(pg_step s)\<^sup>*\<^sup>* (ps_world z) w' \<Longrightarrow> (psub_step s)\<^sup>*\<^sup>* z (z\<lparr>ps_world := w'\<rparr>)"
proof (induction rule: rtranclp_induct)
  case (step w1 w2)
  have "psub_step s (z\<lparr>ps_world := w1\<rparr>) (z\<lparr>ps_world := w1\<rparr>\<lparr>ps_world := w2\<rparr>)"
    by (rule others) (use step(2) in simp)
  with step.IH show ?case by (simp add: rtranclp.rtrancl_into_rtrancl)
qed simp

lemma advance_run: "(advance s)\<^sup>*\<^sup>* w w' \<Longrightarrow> (pg_step s)\<^sup>*\<^sup>* w w'"
  using rtranclp_mono [of "advance s" "pg_step s"] advances by blast

lemma txn_step_rows: "txn_step s db t db' t' new \<Longrightarrow> set (db_rows db) \<subseteq> set (db_rows db')"
  by (cases rule: txn_step.cases) auto

lemma advance_rows: "advance s w w' \<Longrightarrow> set (db_rows (sys_db w)) \<subseteq> set (db_rows (sys_db w'))"
  by (cases rule: advance.cases) (auto dest!: txn_step_rows)

lemma advance_run_rows: "(advance s)\<^sup>*\<^sup>* w w' \<Longrightarrow> set (db_rows (sys_db w)) \<subseteq> set (db_rows (sys_db w'))"
  by (induction rule: rtranclp_induct) (auto dest: advance_rows)

lemma finished_holds_nothing:
  assumes "sys_ok s rows0 w" and "all_finished w" and "t \<in> set (sys_txns w)"
  shows "t_held t = []"
proof -
  have "txn_ok s (sys_db w) t" "work_left t = 0"
    using assms by (auto simp: sys_ok_def all_finished_def in_set_conv_nth)
  then show ?thesis
    by (cases "t_job t"; cases "t_phase t") (auto simp: txn_ok_def work_left.simps)
qed

lemma last_gets_locks:
  "t_phase t = Acquiring \<Longrightarrow> \<forall>u \<in> set ts. t_held u = [] \<Longrightarrow>
   (advance s)\<^sup>*\<^sup>* (w\<lparr>sys_txns := ts @ [t]\<rparr>)
     (w\<lparr>sys_txns := ts @ [t\<lparr>t_todo := [], t_held := rev (t_todo t) @ t_held t\<rparr>]\<rparr>)"
proof (induction "t_todo t" arbitrary: t)
  case Nil
  then have "t\<lparr>t_todo := [], t_held := rev (t_todo t) @ t_held t\<rparr> = t" by (cases t) simp
  then show ?case by simp
next
  case (Cons req rest)
  let ?w = "w\<lparr>sys_txns := ts @ [t]\<rparr>" and ?t' = "t\<lparr>t_todo := rest, t_held := req # t_held t\<rparr>"
  have "advance s ?w (?w\<lparr>sys_txns := (sys_txns ?w)[length ts := ?t']\<rparr>)"
    by (rule lock [of "length ts" ?w t])
      (use Cons in \<open>auto simp: grantable_def nth_append list_all_iff less_Suc_eq\<close>)
  moreover have "(advance s)\<^sup>*\<^sup>* (w\<lparr>sys_txns := ts @ [?t']\<rparr>)
      (w\<lparr>sys_txns := ts @ [?t'\<lparr>t_todo := [], t_held := rev (t_todo ?t') @ t_held ?t'\<rparr>]\<rparr>)"
    by (rule Cons.hyps(1)) (use Cons in simp_all)
  ultimately show ?case using Cons.hyps(2) [symmetric] by (simp add: converse_rtranclp_into_rtranclp)
qed

text \<open>A barrier that starts when nobody holds a lock runs to its scan.\<close>

lemma last_scans:
  assumes "\<forall>u \<in> set (sys_txns w). t_held u = []"
  shows "\<exists>t. (advance s)\<^sup>*\<^sup>* (w\<lparr>sys_txns := sys_txns w @ [new_txn (Barrier q)]\<rparr>) (w\<lparr>sys_txns := sys_txns w @ [t]\<rparr>)
    \<and> t_job t = Barrier q
    \<and> t_phase t = Scanned (seq_hwm (db_seq (sys_db w))) (scan_rows q (seq_hwm (db_seq (sys_db w))) (db_rows (sys_db w)))"
proof -
  let ?w = "\<lambda>t. w\<lparr>sys_txns := sys_txns w @ [t]\<rparr>" and ?p = "seq_hwm (db_seq (sys_db w))"
  let ?t = "\<lambda>h ph. \<lparr>t_job = Barrier q, t_todo = [], t_held = h, t_phase = ph\<rparr>"
  let ?held = "rev (requests_of (Barrier q))"
  have step: "advance s (?w t) (?w t')" if "txn_step s (sys_db w) t (sys_db w) t' []" for t t'
    using local [of "length (sys_txns w)" "?w t" t s "sys_db w" t' "[]"] that
    by (simp add: committed_by_def split: job.splits)
  have "(advance s)\<^sup>*\<^sup>* (?w (new_txn (Barrier q))) (?w (?t ?held Acquiring))"
    using last_gets_locks [of "new_txn (Barrier q)" "sys_txns w" s w] assms by (simp add: new_txn_def)
  moreover have "advance s (?w (?t ?held Acquiring)) (?w (?t [] (Reading ?p)))"
    using step [OF barrier [of "?t ?held Acquiring" q s "sys_db w"]] by simp
  moreover have "advance s (?w (?t [] (Reading ?p))) (?w (?t [] (Scanned ?p (scan_rows q ?p (db_rows (sys_db w))))))"
    using step [OF scan [of "?t [] (Reading ?p)" ?p q s "sys_db w"]] by simp
  ultimately have "(advance s)\<^sup>*\<^sup>* (?w (new_txn (Barrier q)))
      (?w (?t [] (Scanned ?p (scan_rows q ?p (db_rows (sys_db w))))))"
    by (meson rtranclp.rtrancl_into_rtrancl)
  then show ?thesis by (intro exI [of _ "?t [] (Scanned ?p (scan_rows q ?p (db_rows (sys_db w))))"]) simp
qed

lemma drain_delivers:
  assumes inv: "psub_inv s rows0 q start m z" and "ps_pc z = PHead" and nil: "ps_pending (ps_it z) = []"
    and "\<not> ps_done z" and idle: "\<forall>u \<in> set (sys_txns (ps_world z)). t_held u = []"
    and r: "r \<in> set (db_rows (sys_db (ps_world z)))" "query_selects q r" "position_int (ps_position (ps_it z)) < row_pos r"
  shows "\<exists>z' ev. (psub_step s)\<^sup>*\<^sup>* z z' \<and> ps_pc z' = PIdle \<and> ps_delivered z' = ps_delivered z @ [ev]
    \<and> ps_heard z' = ps_heard z"
proof -
  let ?w = "ps_world z" and ?p = "seq_hwm (db_seq (sys_db (ps_world z)))" and ?n = "length (sys_txns (ps_world z))"
  let ?after = "position_int (ps_position (ps_it z))"
  have q: "ps_query (ps_it z) = q" using inv by (simp add: psub_inv_def)
  obtain t where t: "(advance s)\<^sup>*\<^sup>* (?w\<lparr>sys_txns := sys_txns ?w @ [new_txn (Barrier q)]\<rparr>) (?w\<lparr>sys_txns := sys_txns ?w @ [t]\<rparr>)"
      "t_job t = Barrier q" "t_phase t = Scanned ?p (scan_rows q ?p (db_rows (sys_db ?w)))"
    using last_scans [OF idle] by blast
  let ?z1 = "z\<lparr>ps_pc := PDraining ?n, ps_world := ?w\<lparr>sys_txns := sys_txns ?w @ [new_txn (Barrier q)]\<rparr>\<rparr>"
  let ?z2 = "z\<lparr>ps_pc := PDraining ?n, ps_world := ?w\<lparr>sys_txns := sys_txns ?w @ [t]\<rparr>\<rparr>"
  let ?D = "drain_events ?after (scan_rows q ?p (db_rows (sys_db ?w)))"
  have "psub_step s z ?z1"
    using drain_starts [of z "ps_it z" ?w "requests_of (Barrier q)" s] assms(2,4) nil q
    by (simp add: ps_head.simps new_txn_def del: requests_of.simps)
  moreover have "(psub_step s)\<^sup>*\<^sup>* ?z1 ?z2"
    using others_run [of s ?z1, OF advance_run] t(1) by simp
  moreover have top: "row_pos r \<le> ?p" "?p \<le> bigint_max"
    using inv r(1) by (auto simp: psub_inv_def sys_ok_def committed_ok_def rows_ok_def row_ok_def)
  then have small: "pos_value (ps_position (ps_it z)) < 2 ^ 63"
    using r(3) by (simp add: position_int_def bigint_max_def word_less_def)
  have "r \<in> set (filter (\<lambda>r. ?after < row_pos r) (scan_rows q ?p (db_rows (sys_db ?w))))"
    using r top by (simp add: scan_rows_def)
  then have "row_event r \<in> set ?D" by (simp add: drain_events_def)
  then obtain ev rest where D: "?D = ev # rest" by (cases ?D) auto
  let ?z3 = "?z2\<lparr>ps_it := (ps_it z)\<lparr>ps_pending := ev # rest\<rparr>, ps_pc := PHead\<rparr>"
  have "psub_step s ?z2 ?z3"
    using drain_ends [of ?z2 ?n ?p _ PLoop "(ps_it z)\<lparr>ps_pending := ev # rest\<rparr>" s] t(2,3) q D small
    by (simp add: ps_drained.simps nth_append)
  moreover have "\<exists>z4. psub_step s ?z3 z4 \<and> ps_pc z4 = PIdle \<and> ps_delivered z4 = ps_delivered z @ [ev]
      \<and> ps_heard z4 = ps_heard z"
    using deliver [of ?z3 "(ps_it z)\<lparr>ps_current := Some ev, ps_pending := rest, ps_position := sePosition ev\<rparr>" ev s]
    by (fastforce simp: ps_head.simps)
  ultimately show ?thesis by (meson converse_rtranclp_into_rtranclp rtranclp_trans r_into_rtranclp)
qed

lemma progress_run:
  assumes "(pg_step s)\<^sup>*\<^sup>* (pg_start db) w" and "db_ok db" and "constructed q"
    and "pg_Subscribe None None q opts = (Ok it, n)" and "(psub_step s)\<^sup>*\<^sup>* (psub_start w it) z"
    and "ps_pc z = PHead \<or> ps_pc z = PWaiting" and "ps_pending (ps_it z) = []" and "\<not> ps_done z"
    and "keys_apart (ps_world z)" and "r \<in> set (db_rows (sys_db (ps_world z)))" and "query_selects q r"
    and "position_int (ps_position (ps_it z)) < row_pos r"
  shows "\<exists>z' ev. (psub_step s)\<^sup>*\<^sup>* z z' \<and> ps_pc z' = PIdle \<and> ps_delivered z' = ps_delivered z @ [ev]
    \<and> ps_heard z' = ps_heard z"
proof -
  let ?start = "position_int (case subAfter opts of None \<Rightarrow> SequencePositionInitial | Some p \<Rightarrow> p)"
  obtain m where m: "psub_inv s (db_rows db) q ?start m z"
    using psub_inv_reachable [OF assms(5) sys_ok_reachable [OF assms(1,2)] assms(3,4) refl] by blast
  have "psub_step s z (z\<lparr>ps_pc := PHead\<rparr>)" if "ps_pc z = PWaiting"
    using wait_fails [of z "CtxError DeadlineExceeded" PLoop "ps_it z" s] that assms(8)
    by (simp add: ps_waited.simps)
  moreover have "z\<lparr>ps_pc := PHead\<rparr> = z" if "ps_pc z = PHead" using that by (cases z) simp
  ultimately have head: "(psub_step s)\<^sup>*\<^sup>* z (z\<lparr>ps_pc := PHead\<rparr>)"
    using assms(6) by (metis r_into_rtranclp rtranclp.rtrancl_refl)
  have ok: "sys_ok s (db_rows db) (ps_world z)" using m by (simp add: psub_inv_def)
  obtain w' where w': "(advance s)\<^sup>*\<^sup>* (ps_world z) w'" "all_finished w'" using quiesces [OF ok assms(9)] by blast
  let ?z1 = "z\<lparr>ps_pc := PHead, ps_world := w'\<rparr>"
  have run: "(psub_step s)\<^sup>*\<^sup>* (z\<lparr>ps_pc := PHead\<rparr>) ?z1"
    using others_run [of s "z\<lparr>ps_pc := PHead\<rparr>" w'] advance_run [OF w'(1)] by simp
  have reach: "(psub_step s)\<^sup>*\<^sup>* (psub_start w it) ?z1"
    using assms(5) head run by (meson rtranclp_trans)
  obtain m1 where m1: "psub_inv s (db_rows db) q ?start m1 ?z1"
    using psub_inv_reachable [OF reach sys_ok_reachable [OF assms(1,2)] assms(3,4) refl] by blast
  have "sys_ok s (db_rows db) w'" using m1 by (simp add: psub_inv_def)
  then have idle: "\<forall>u \<in> set (sys_txns w'). t_held u = []" using finished_holds_nothing w'(2) by blast
  have "\<exists>z' ev. (psub_step s)\<^sup>*\<^sup>* ?z1 z' \<and> ps_pc z' = PIdle \<and> ps_delivered z' = ps_delivered ?z1 @ [ev]
      \<and> ps_heard z' = ps_heard ?z1"
    by (rule drain_delivers [OF m1])
      (use assms(7,8,10-12) idle advance_run_rows [OF w'(1)] in auto)
  then show ?thesis using head run by (auto dest: rtranclp_trans)
qed

text \<open>
  C10: no event is lost for want of a notification. Whenever a subscription is in its loop or
  waiting, its context is live and a committed event that its query selects lies beyond its
  position, there is a run in which the open transactions finish, the poll interval elapses,
  the next drain finds it, and one more event is delivered, and in which not one notification
  is consumed: by itself a subscription never stays behind, even when its channel's name is
  folded and it hears nothing at all (as long as no transaction asks for one key twice).
\<close>

theorem pg_subscribe_progress:
  assumes "(pg_step s)\<^sup>*\<^sup>* (pg_start db) w" and "db_ok db" and "constructed q"
    and "pg_Subscribe None None q opts = (Ok it, n)" and "(psub_step s)\<^sup>*\<^sup>* (psub_start w it) z"
    and "ps_pc z = PHead \<or> ps_pc z = PWaiting" and "ps_pending (ps_it z) = []" and "\<not> ps_done z"
    and "keys_apart (ps_world z)" and "r \<in> set (db_rows (sys_db (ps_world z)))" and "query_selects q r"
    and "position_int (ps_position (ps_it z)) < row_pos r"
  shows "\<exists>z' ev. (psub_step s)\<^sup>*\<^sup>* z z' \<and> ps_pc z' = PIdle \<and> ps_delivered z' = ps_delivered z @ [ev]
    \<and> ps_heard z' = ps_heard z"
  by (rule progress_run [OF assms])

text \<open>A subscription to everything, opened after one append committed.\<close>

lemma subscribed_after_append:
  obtains w it n z r where "(pg_step events_store)\<^sup>*\<^sup>* (pg_start empty_db) w"
    "pg_Subscribe None None QueryAll \<lparr>subAfter = None, PollInterval = 0\<rparr> = (Ok it, n)"
    "(psub_step events_store)\<^sup>*\<^sup>* (psub_start w it) z"
    "ps_pc z = PHead \<or> ps_pc z = PWaiting" "ps_pending (ps_it z) = []" "\<not> ps_done z"
    "keys_apart (ps_world z)" "r \<in> set (db_rows (sys_db (ps_world z)))" "query_selects QueryAll r"
    "position_int (ps_position (ps_it z)) < row_pos r" "ps_delivered z = []"
    "ps_heard z = length (db_notified (sys_db w))"
proof -
  let ?cmds = "[\<lparr>cmdEvents = [event_of ''A'' [''x'']], cmdCondition = Some (condition_of [''A''] [''x''] None)\<rparr>]"
  let ?it = "\<lparr>ps_query = QueryAll, ps_position = SequencePositionInitial, ps_pollInterval = defaultPollInterval,
    ps_listening = True, ps_pending = [], ps_current = None, ps_err = None, ps_closed = False\<rparr>"
  have room: "pg_room empty_db (length (command_events ?cmds))" by simp
  have fresh: "first_violated 0 (db_log empty_db) ?cmds = None" by simp
  obtain w t where w: "(pg_step events_store)\<^sup>*\<^sup>* (pg_start empty_db) w"
      "sys_commits w = [(?cmds, numbered_rows (seq_hwm (db_seq empty_db)) (command_events ?cmds))]"
      "sys_txns w = [t]" "t_job t = Write ?cmds"
    using lone_append_commits [OF empty_db_simps(1) scoped_command_job room fresh] by blast
  let ?z = "(psub_start w ?it)\<lparr>ps_pc := PHead\<rparr>" and ?r = "copy_row 1 (event_of ''A'' [''x''])"
  have "db_rows (sys_db w) = [?r]"
    using sys_ok_reachable [OF w(1) empty_db_simps(1)] w(2) by (simp add: sys_ok_def empty_db_def seq_hwm_def)
  moreover have "keys_apart w" using w(3,4) scoped_command_keys by (simp add: keys_apart_def)
  moreover have "psub_step events_store (psub_start w ?it) ?z"
    by (rule call) (simp_all add: psub_start_def ps_enter_def)
  ultimately show thesis
    by (intro that [of w ?it 1 ?z ?r]) (use w(1) in \<open>simp_all add: pg_Subscribe_def psub_start_def query_selects_def
      QueryAll_def position_int_def SequencePositionInitial_def copy_row_def r_into_rtranclp\<close>)
qed

theorem pg_subscribe_progress_witness:
  "\<exists>w it n z ev. (pg_step events_store)\<^sup>*\<^sup>* (pg_start empty_db) w
     \<and> pg_Subscribe None None QueryAll \<lparr>subAfter = None, PollInterval = 0\<rparr> = (Ok it, n)
     \<and> (psub_step events_store)\<^sup>*\<^sup>* (psub_start w it) z \<and> ps_delivered z = [ev]
     \<and> ps_heard z = length (db_notified (sys_db w))"
proof -
  obtain w it n z r where run: "(pg_step events_store)\<^sup>*\<^sup>* (pg_start empty_db) w"
    "pg_Subscribe None None QueryAll \<lparr>subAfter = None, PollInterval = 0\<rparr> = (Ok it, n)"
    "(psub_step events_store)\<^sup>*\<^sup>* (psub_start w it) z"
    "ps_pc z = PHead \<or> ps_pc z = PWaiting" "ps_pending (ps_it z) = []" "\<not> ps_done z"
    "keys_apart (ps_world z)" "r \<in> set (db_rows (sys_db (ps_world z)))" "query_selects QueryAll r"
    "position_int (ps_position (ps_it z)) < row_pos r" "ps_delivered z = []"
    "ps_heard z = length (db_notified (sys_db w))"
    by (rule subscribed_after_append)
  obtain z' ev where "(psub_step events_store)\<^sup>*\<^sup>* z z'" "ps_delivered z' = ps_delivered z @ [ev]"
      "ps_heard z' = ps_heard z"
    using pg_subscribe_progress [OF run(1) empty_db_simps(1) constructed_QueryAll run(2-10)] by blast
  then show ?thesis using run(1-3,11,12) by (metis append_Nil rtranclp_trans)
qed

theorem pg_subscribe_exactly_once_witness:
  "\<exists>w it n z ev. (pg_step events_store)\<^sup>*\<^sup>* (pg_start empty_db) w
     \<and> pg_Subscribe None None QueryAll \<lparr>subAfter = None, PollInterval = 0\<rparr> = (Ok it, n)
     \<and> (psub_step events_store)\<^sup>*\<^sup>* (psub_start w it) z \<and> ps_delivered z = [ev]
     \<and> positions_ascend (ps_delivered z)"
proof -
  obtain w it n z r where run: "(pg_step events_store)\<^sup>*\<^sup>* (pg_start empty_db) w"
    "pg_Subscribe None None QueryAll \<lparr>subAfter = None, PollInterval = 0\<rparr> = (Ok it, n)"
    "(psub_step events_store)\<^sup>*\<^sup>* (psub_start w it) z"
    "ps_pc z = PHead \<or> ps_pc z = PWaiting" "ps_pending (ps_it z) = []" "\<not> ps_done z"
    "keys_apart (ps_world z)" "r \<in> set (db_rows (sys_db (ps_world z)))" "query_selects QueryAll r"
    "position_int (ps_position (ps_it z)) < row_pos r" "ps_delivered z = []"
    "ps_heard z = length (db_notified (sys_db w))"
    by (rule subscribed_after_append)
  obtain z' ev where z': "(psub_step events_store)\<^sup>*\<^sup>* z z'" "ps_delivered z' = [ev]"
    using progress_run [OF run(1) empty_db_simps(1) constructed_QueryAll run(2-10)] run(11) by auto
  have reach: "(psub_step events_store)\<^sup>*\<^sup>* (psub_start w it) z'" using run(3) z'(1) by (rule rtranclp_trans)
  have "positions_ascend (ps_delivered z')"
    using pg_subscribe_exactly_once [OF run(1) empty_db_simps(1) constructed_QueryAll run(2) reach refl] by blast
  then show ?thesis using run(1,2) reach z'(2) by blast
qed

end
