(* ===== verification/Conformance_Postgres.thy ===== *)
theory Conformance_Postgres
  imports Conformance_Subscribe Pg_Subscribe
begin

text \<open>
  The PostgreSQL store as a store under test, with a database that answers: appends and reads
  are the whole calls, and a pass of a subscription ends at each call of its loop that may
  block (the barrier and the cursor of a drain are separate, so an append may commit between
  them). What ends a wait, a notification or the poll interval, is an argument. The store with
  its default names satisfies the contracts of the suite.
\<close>

section \<open>The store under test\<close>

datatype pg_sub_pc = AtEntry | AtHead | AtDrain PgDb | AtWait

type_synonym pg_sub = "pgSubscribeIterator \<times> pg_sub_pc"

fun pg_resume :: "ps_outcome \<times> pgSubscribeIterator \<Rightarrow> sub_pass \<times> pg_sub" where
  "pg_resume (PReturn True, it) = (Yield (the (ps_current it)), (it, AtEntry))"
| "pg_resume (PReturn False, it) = (Finished, (it, AtEntry))"
| "pg_resume (PLoop, it) = (Continue, (it, AtHead))"
| "pg_resume (PDrain, it) = (Continue, (it, AtHead))"
| "pg_resume (PWait, it) = (Continue, (it, AtWait))"

fun pg_pass :: "bool \<Rightarrow> bool \<Rightarrow> PgDb \<Rightarrow> pg_sub \<Rightarrow> sub_pass \<times> pg_sub" where
  "pg_pass notified ctxDone db (it, AtEntry) = pg_resume (ps_enter it, it)"
| "pg_pass notified ctxDone db (it, AtHead) =
     (case ps_head ctxDone it of
        (PDrain, it') \<Rightarrow> (Continue, (it', AtDrain db))
      | r \<Rightarrow> pg_resume r)"
| "pg_pass notified ctxDone db (it, AtDrain db1) =
     (if ctxDone then pg_resume (ps_drained ctxDone (Inl (CtxError Canceled)) it)
      else case ps_drain healthy_read db1 db it of
             Ok events \<Rightarrow> pg_resume (ps_drained ctxDone (Inr events) it)
           | Err e \<Rightarrow> pg_resume (ps_drained ctxDone (Inl e) it)
           | Panic m \<Rightarrow> (Blocked, (it, AtDrain db1)))"
| "pg_pass notified ctxDone db (it, AtWait) =
     pg_resume (ps_waited ctxDone
       (if notified then Notified
        else WaitFailed (CtxError (if ctxDone then Canceled else DeadlineExceeded))) it)"

definition pg_api :: "bool \<Rightarrow> (PgDb, cursorIterator, pg_sub) store_api" where
  "pg_api notified =
     \<lparr>api_Append = pg_Append events_store healthy, api_Read = (\<lambda>db q opts. fst (pg_Read healthy_read db q opts)),
      api_iterator = cursorIterator_methods,
      api_Subscribe = (\<lambda>db query opts. bind_outcome (fst (pg_Subscribe None None query opts)) (\<lambda>it. Ok (it, AtEntry))),
      api_pass = pg_pass notified, api_Err = (\<lambda>(it, pc). ps_err it), api_Close = (\<lambda>(it, pc). (ps_Close it, pc))\<rparr>"

section \<open>The suite's events can be stored\<close>

lemma format_nat_head: "0 < n \<Longrightarrow> hd (format_nat n) \<noteq> CHR ''0''"
proof (induction n rule: format_nat.induct)
  case (1 n)
  show ?case
  proof (cases "n < 10")
    case True
    have "digit_val (digit_char n) = Some n" using True by simp
    then have "digit_char n \<noteq> CHR ''0''" using "1.prems" by (auto simp: digit_val_def)
    then show ?thesis using True by (subst format_nat.simps) simp
  next
    case False
    then have "hd (format_nat (n div 10)) \<noteq> CHR ''0''" using "1.IH" by simp
    then show ?thesis using False by (subst format_nat.simps) simp
  qed
qed

lemma is_digit_digit_val: "digit_val c \<noteq> None \<Longrightarrow> is_digit c"
  by (auto simp: digit_val_def is_digit_def Let_def less_eq_char_def split: if_splits)

lemma json_value_format_nat: "json_value (format_nat n)"
proof -
  obtain c r where s: "format_nat n = c # r" by (cases "format_nat n") simp_all
  have digits: "is_digit c" "\<forall>d \<in> set r. is_digit d"
    using all_digits_format_nat [of n] is_digit_digit_val unfolding s by (auto simp: all_digits_def list_all_iff)
  have zero: "r = []" if "c = CHR ''0''"
  proof -
    have "n = 0" using format_nat_head [of n] s that by (cases "n = 0") auto
    then show ?thesis using s by (subst (asm) format_nat.simps) simp
  qed
  have "c \<noteq> CHR 0x22 \<and> c \<noteq> CHR ''['' \<and> c \<noteq> CHR ''{'' \<and> c \<noteq> CHR ''t'' \<and> c \<noteq> CHR ''f'' \<and> c \<noteq> CHR ''n'' \<and> c \<noteq> CHR ''-''"
    using digits(1) by (auto simp: is_digit_def less_eq_char_def)
  moreover have "skip_digits r = []" using digits(2) by (simp add: skip_digits_def)
  ultimately have "skip_value (Suc k) d (c # r) = Some []" for k d
    using digits(1) zero by (simp add: skip_value_Suc_Cons skip_number_def skip_minus_def skip_frac_def skip_exp_def)
  then show ?thesis unfolding json_value_def s by simp
qed

lemma plain_tags_clean:
  assumes "plain_tags t"
  shows "clean_tags t"
proof -
  have "isValidTagToken v \<and> tagDelimiter \<notin> set v" if "plain_tag v" for v
    using that plain_tag_valid [OF that] by (auto simp: plain_tag_def list_all_iff tagDelimiter_def)
  then show ?thesis using assms by (auto simp: plain_tags_def clean_tags_def tags_ok_def)
qed

lemma suite_event_storable: "suite_event ev \<Longrightarrow> storable_event ev"
  using plain_tags_clean [of "evTags ev"]
  by (auto simp: suite_event_def storable_event_def clean_tags_def raw_or_null_def json_value_null json_value_format_nat)

lemma log_position_bound:
  assumes "db_ok db" and "p \<in> sePosition ` set (db_log db)"
  shows "pos_value p < 2 ^ 63"
proof -
  obtain r where r: "r \<in> set (db_rows db)" "p = sePosition (row_event r)"
    using assms db_log_events [OF assms(1)] by auto
  then have ok: "row_ok (seq_hwm (db_seq db)) r" "seq_hwm (db_seq db) \<le> bigint_max"
    using assms(1) by (simp_all add: db_ok_def)
  have "p = bigint_position (row_pos r)" using r(2) row_ok_event(3) [OF ok] by simp
  moreover have "0 \<le> row_pos r \<and> row_pos r < 2 ^ 63" by (rule row_ok_pos63 [OF ok])
  ultimately show ?thesis by (simp add: bigint_position_def word_less_def uint_word_of_int)
qed

lemma suite_commands_storable:
  assumes "db_ok db" and "suite_commands (db_log db) cmds"
  shows "pg_storable events_store cmds"
proof -
  have "\<forall>ev \<in> set (command_events cmds). storable_event ev"
    using assms(2) suite_event_storable by (auto simp: suite_commands_def command_events_def)
  moreover have "clean_conditions cmds"
    using assms(2) plain_tags_clean by (auto simp: suite_commands_def suite_condition_def clean_conditions_def)
  moreover have "after_fits cmds"
    using assms(2) log_position_bound [OF assms(1)]
    by (auto simp: suite_commands_def suite_condition_def after_fits_def)
  moreover have "length cmds < 2 ^ 31" using assms(2) by (simp add: suite_commands_def)
  ultimately show ?thesis by (simp add: pg_storable_def events_store_names)
qed

section \<open>The invariant of a subscription\<close>

definition older :: "PgDb \<Rightarrow> PgDb \<Rightarrow> bool" where
  "older db1 db \<longleftrightarrow>
     seq_hwm (db_seq db1) \<le> seq_hwm (db_seq db)
     \<and> (\<exists>ext. db_rows db = db_rows db1 @ ext \<and> (\<forall>r \<in> set ext. seq_hwm (db_seq db1) < row_pos r))"

definition pg_sub_inv :: "Query \<Rightarrow> SequencePosition \<Rightarrow> SequencedEvent list \<Rightarrow> PgDb \<Rightarrow> pg_sub \<Rightarrow> bool" where
  "pg_sub_inv q start del db sub \<longleftrightarrow>
     constructed q \<and> single_tags q \<and> ps_query (fst sub) = q \<and> ps_err (fst sub) = None \<and> \<not> ps_closed (fst sub)
     \<and> pos_value start < 2 ^ 63
     \<and> (\<exists>rest. due_events q start (db_log db) = del @ ps_pending (fst sub) @ rest)
     \<and> ps_position (fst sub) = (if del = [] then start else sePosition (last del))
     \<and> (\<forall>db1. snd sub = AtDrain db1 \<longrightarrow> ps_pending (fst sub) = [] \<and> db_ok db1 \<and> older db1 db)
     \<and> (snd sub = AtWait \<longrightarrow> ps_pending (fst sub) = [])"

definition pg_work :: "PgDb \<Rightarrow> pg_sub \<Rightarrow> nat" where
  "pg_work db sub =
     (case snd sub of
        AtEntry \<Rightarrow> if ps_pending (fst sub) = [] then 4 else 2
      | AtHead \<Rightarrow> if ps_pending (fst sub) = [] then 3 else 1
      | AtDrain db1 \<Rightarrow> if db1 = db then 2 else 5
      | AtWait \<Rightarrow> 4)"

definition pg_rank :: "PgDb \<Rightarrow> pg_sub \<Rightarrow> nat" where
  "pg_rank db sub = (case snd sub of AtEntry \<Rightarrow> 2 | AtHead \<Rightarrow> 1 | AtDrain db1 \<Rightarrow> 3 | AtWait \<Rightarrow> 2)"

lemma db_ok_committed: "db_ok db \<Longrightarrow> committed_ok db"
  by (simp add: db_ok_def committed_ok_def rows_ok_def strict_sorted_iff)

text \<open>What a row selects is what its event matches and where it stands.\<close>

lemma row_event_selected:
  assumes "db_ok db" and "r \<in> set (db_rows db)" and "constructed q" and "single_tags q" and "pos_value p < 2 ^ 63"
  shows "query_selects q r \<longleftrightarrow> query_matches q (seEvent (row_event r))"
    and "position_int p < row_pos r \<longleftrightarrow> p < sePosition (row_event r)"
proof -
  have ok: "row_ok (seq_hwm (db_seq db)) r" "seq_hwm (db_seq db) \<le> bigint_max"
    using assms(1,2) by (simp_all add: db_ok_def)
  show "query_selects q r \<longleftrightarrow> query_matches q (seEvent (row_event r))"
    using query_selects_overlaps [OF assms(3) row_ok_event(4) [OF ok]] one_tag_query [of q] assms(4)
    by (simp add: single_tags_def)
  have "0 \<le> row_pos r" "row_pos r < 2 ^ 63" using row_ok_pos63 [OF ok] by simp_all
  then show "position_int p < row_pos r \<longleftrightarrow> p < sePosition (row_event r)"
    unfolding row_ok_event(3) [OF ok]
    by (simp add: position_int_def bigint_position_def less_SequencePosition_def word_less_def uint_word_of_int)
qed

lemma due_events_sorted:
  "db_ok db \<Longrightarrow> sorted_wrt (<) (map sePosition (due_events q start (db_log db)))"
  using pg.log_ascends [of db] by (simp add: due_events_def positions_ascend_def sorted_wrt_map sorted_wrt_filter)

lemma due_after_delivered:
  assumes "db_ok db" and "due_events q start (db_log db) = del @ rest"
    and "p = (if del = [] then start else sePosition (last del))"
  shows "filter (\<lambda>se. p < sePosition se) (due_events q start (db_log db)) = rest" and "start \<le> p"
proof -
  have all: "\<forall>se \<in> set (del @ rest). start < sePosition se"
    unfolding assms(2) [symmetric] by (simp add: due_events_def)
  show "filter (\<lambda>se. p < sePosition se) (due_events q start (db_log db)) = rest"
    unfolding assms(2,3)
    by (rule filter_after_delivered [OF due_events_sorted [OF assms(1), of q start, unfolded assms(2)] all])
  show "start \<le> p" using assms(3) all by (auto simp: less_imp_le split: if_splits)
qed

lemma drain_due:
  assumes "db_ok db" and "pg_sub_inv q start del db (it, AtDrain db1)"
  obtains evs rest where "ps_drain healthy_read db1 db it = Ok evs"
    "due_events q start (db_log db) = del @ evs @ rest" "db1 = db \<longrightarrow> rest = []"
proof -
  let ?p = "ps_position it" and ?h = "seq_hwm (db_seq db1)"
  have inv: "constructed q" "single_tags q" "ps_query it = q" "pos_value start < 2 ^ 63" "db_ok db1" "older db1 db"
      "?p = (if del = [] then start else sePosition (last del))"
    and "\<exists>rest. due_events q start (db_log db) = del @ rest"
    using assms(2) by (auto simp: pg_sub_inv_def)
  then obtain rest0 where due: "due_events q start (db_log db) = del @ rest0" by blast
  have "set del \<subseteq> set (db_log db)" using arg_cong [OF due, of set] by (auto simp: due_events_def)
  then have "sePosition (last del) \<in> sePosition ` set (db_log db)" if "del \<noteq> []"
    using that by (meson imageI last_in_set subsetD)
  then have p: "pos_value ?p < 2 ^ 63"
    using inv(4,7) log_position_bound [OF assms(1)] by auto
  obtain ext where ext: "db_rows db = db_rows db1 @ ext" "\<forall>r \<in> set ext. ?h < row_pos r"
    using inv(6) by (auto simp: older_def)
  have "\<forall>r \<in> set (db_rows db1). row_pos r \<le> ?h" using inv(5) by (simp add: db_ok_def row_ok_def)
  then have "filter (\<lambda>r. row_pos r \<le> ?h \<and> query_selects q r) (db_rows db1) = filter (query_selects q) (db_rows db1)"
    by (intro filter_cong) auto
  moreover have "filter (\<lambda>r. row_pos r \<le> ?h \<and> query_selects q r) ext = []"
    using ext(2) by (auto simp: filter_empty_conv)
  ultimately have scan: "scan_rows q ?h (db_rows db) = filter (query_selects q) (db_rows db1)"
    by (simp add: scan_rows_def ext(1))
  let ?sel = "filter (\<lambda>r. query_selects q r \<and> position_int ?p < row_pos r) (db_rows db1)"
  have "sorted_wrt (<) (map row_pos ?sel)"
    using inv(5) by (simp add: db_ok_def sorted_wrt_map sorted_wrt_filter)
  then have drain: "ps_drain healthy_read db1 db it = Ok (map row_event ?sel)"
    using drain_result [OF db_ok_committed [OF inv(5)] db_ok_committed [OF assms(1)] p]
    by (simp add: inv(3) scan drain_events_def sort_key_ascending)
  let ?m = "\<lambda>se. ?p < sePosition se \<and> query_matches q (seEvent se)"
  have sel: "map row_event ?sel = filter ?m (db_log db1)"
    unfolding db_log_events [OF inv(5)] filter_map comp_def
    using row_event_selected [OF inv(5) _ inv(1,2) p]
    by (intro arg_cong [where f = "map row_event"] filter_cong refl) auto
  have log: "db_log db = db_log db1 @ map row_event ext"
    unfolding db_log_events [OF inv(5)] db_log_events [OF assms(1)] ext(1) by simp
  have "rest0 = filter (\<lambda>se. ?p < sePosition se) (due_events q start (db_log db))"
    using due_after_delivered(1) [OF assms(1) due inv(7)] by simp
  also have "\<dots> = filter ?m (db_log db)"
    using due_after_delivered(2) [OF assms(1) due inv(7)] by (auto simp: due_events_def intro!: filter_cong)
  finally have "rest0 = map row_event ?sel @ filter ?m (map row_event ext)"
    unfolding sel log by simp
  moreover have "ext = []" if "db1 = db" using ext(1) that by simp
  then have "db1 = db \<longrightarrow> filter ?m (map row_event ext) = []" by simp
  ultimately show thesis using that [OF drain] due by simp
qed

section \<open>What one pass does\<close>

lemma older_refl [simp]: "older db db"
  by (simp add: older_def)

lemma pg_pass_cases:
  assumes "db_ok db" and "pg_sub_inv q start del db sub"
  obtains (entry) it where "sub = (it, AtEntry)" "pg_pass notified d db sub = (Continue, (it, AtHead))"
    | (yield) it ev evs where "sub = (it, AtHead)" "ps_pending it = ev # evs"
        "pg_pass notified d db sub = (Yield ev,
           (it\<lparr>ps_current := Some ev, ps_pending := evs, ps_position := sePosition ev\<rparr>, AtEntry))"
    | (stop) it where "sub = (it, AtHead)" "ps_pending it = []" "d" "pg_pass notified d db sub = (Finished, (it, AtEntry))"
    | (drain) it where "sub = (it, AtHead)" "ps_pending it = []" "\<not> d"
        "pg_pass notified d db sub = (Continue, (it, AtDrain db))"
    | (cut) it db1 where "sub = (it, AtDrain db1)" "d" "pg_pass notified d db sub = (Finished, (it, AtEntry))"
    | (found) it db1 ev evs rest where "sub = (it, AtDrain db1)" "\<not> d"
        "due_events q start (db_log db) = del @ (ev # evs) @ rest"
        "pg_pass notified d db sub = (Continue, (it\<lparr>ps_pending := ev # evs\<rparr>, AtHead))"
    | (nothing) it db1 where "sub = (it, AtDrain db1)" "\<not> d" "ps_pending it = []"
        "db1 = db \<longrightarrow> due_events q start (db_log db) = del"
        "pg_pass notified d db sub = (Continue, (it, AtWait))"
    | (waited) it where "sub = (it, AtWait)" "pg_pass notified d db sub = (Continue, (it, AtHead))"
    | (cancelled) it where "sub = (it, AtWait)" "d" "pg_pass notified d db sub = (Finished, (it, AtEntry))"
proof (cases sub)
  case (Pair it pc)
  show thesis
  proof (cases pc)
    case AtEntry
    have "ps_enter it = PLoop" using assms(2) Pair by (simp add: ps_enter_def pg_sub_inv_def)
    then show thesis using entry Pair AtEntry by simp
  next
    case AtHead
    show thesis
    proof (cases "ps_pending it")
      case Nil
      then show thesis using stop drain Pair AtHead by (cases d) (simp_all add: ps_head.simps)
    next
      case (Cons ev evs)
      then show thesis using yield Pair AtHead by (simp add: ps_head.simps)
    qed
  next
    case (AtDrain db1)
    have nil: "ps_pending it = []" using assms(2) Pair AtDrain by (simp add: pg_sub_inv_def)
    show thesis
    proof (cases d)
      case True
      then show thesis using cut Pair AtDrain by (simp add: ps_drained.simps)
    next
      case False
      obtain evs rest where *: "ps_drain healthy_read db1 db it = Ok evs"
          "due_events q start (db_log db) = del @ evs @ rest" "db1 = db \<longrightarrow> rest = []"
        by (rule drain_due [OF assms(1) assms(2) [unfolded Pair AtDrain]])
      show thesis
      proof (cases evs)
        case Nil
        then have idle: "db1 = db \<longrightarrow> due_events q start (db_log db) = del" using *(2,3) by simp
        show thesis
          by (rule nothing [OF _ False nil idle])
            (use idle *(1) Nil False Pair AtDrain nil in \<open>simp_all add: ps_drained.simps\<close>)
      next
        case (Cons ev evs')
        then show thesis using found * False Pair AtDrain by (simp add: ps_drained.simps)
      qed
    qed
  next
    case AtWait
    then show thesis using waited cancelled Pair by (cases notified; cases d) (simp_all add: ps_waited.simps)
  qed
qed

lemma pg_pass_yields:
  assumes "db_ok db" and "pg_sub_inv q start del db sub" and "pg_pass notified d db sub = (Yield ev, sub')"
  shows "(\<exists>rest. due_events q start (db_log db) = del @ ev # rest)
    \<and> pg_sub_inv q start (del @ [ev]) db sub' \<and> pg_rank db sub' \<le> pg_rank db sub + 2"
  using assms(1,2)
proof (cases rule: pg_pass_cases [where notified = notified and d = d])
  case (yield it ev' evs)
  then show ?thesis
    using assms(2,3) by (auto simp: pg_sub_inv_def pg_rank_def)
qed (use assms(3) in simp_all)

lemma pg_pass_keeps:
  assumes "db_ok db" and "pg_sub_inv q start del db sub" and "pg_pass notified d db sub = (out, sub')"
    and "\<nexists>ev. out = Yield ev"
  shows "pg_sub_inv q start del db sub' \<and> (out = Finished \<longrightarrow> d)"
  using assms(1,2)
proof (cases rule: pg_pass_cases [where notified = notified and d = d])
  case (found it db1 ev evs rest)
  then have "\<exists>rest. due_events q start (db_log db) = del @ (ev # evs) @ rest" by blast
  then show ?thesis using found(1,4) assms(2,3) by (auto simp: pg_sub_inv_def simp del: append_Cons)
qed (use assms in \<open>auto simp: pg_sub_inv_def\<close>)

lemma pg_pass_progress:
  assumes "db_ok db" and "pg_sub_inv q start del db sub" and "due_events q start (db_log db) = del @ ev # rest"
    and "pg_pass notified False db sub = (out, sub')" and "\<nexists>ev. out = Yield ev"
  shows "pg_work db sub' < pg_work db sub"
  using assms(1,2)
  by (cases rule: pg_pass_cases [where notified = notified and d = False])
    (use assms(3-5) in \<open>auto simp: pg_work_def\<close>)

lemma pg_pass_ends:
  assumes "db_ok db" and "pg_sub_inv q start del db sub" and "pg_pass notified True db sub = (out, sub')"
    and "\<nexists>ev. out = Yield ev"
  shows "out = Finished \<or> pg_rank db sub' < pg_rank db sub"
  using assms(1,2)
  by (cases rule: pg_pass_cases [where notified = notified and d = True])
    (use assms(3,4) in \<open>auto simp: pg_rank_def\<close>)

lemma pg_append_keeps:
  assumes "pg_sub_inv q start del db sub" and "db_ok db" and "pg_storable s cmds"
    and "pg_room db (length (command_events cmds))" and "pg_Append s healthy db cmds = (Ok p, db')"
  shows "pg_sub_inv q start del db' sub"
proof -
  let ?new = "numbered_rows (seq_hwm (db_seq db)) (command_events cmds)"
  have db': "db' = pg_appended s db cmds"
    using assms(2-5) by (auto simp: pg_Append_eq split: option.splits if_splits)
  have "\<forall>r \<in> set ?new. seq_hwm (db_seq db) < row_pos r" using numbered_rows_pos by blast
  then have "older db1 db'" if "older db1 db" for db1
    using that by (fastforce simp: older_def db' pg_appended_def Let_def seq_hwm_def)
  moreover have "\<exists>rest. due_events q start (db_log db') = due_events q start (db_log db) @ rest"
    by (simp add: db' db_log_appended due_events_def)
  ultimately show ?thesis using assms(1) by (auto simp: pg_sub_inv_def)
qed

section \<open>The store satisfies the contracts\<close>

interpretation pg_events: event_store "pg_Append events_store healthy" db_log db_ok pg_room "pg_storable events_store"
  stored_event "\<lambda>db q opts. fst (pg_Read healthy_read db q opts)" cursorIterator_methods
proof unfold_locales
  fix s q opts
  assume ok: "db_ok s" and q: "constructed q" "single_tags q" and after: "known_after (db_log s) opts"
  have "after_in_range opts"
    using after log_position_bound [OF ok] by (auto simp: known_after_def after_in_range_def)
  from pg_Read_iterator [OF ok q(1) this] obtain it where it: "pg_Read healthy_read s q opts = (Ok it, 1)" "cursor_ok it"
      "cursor_remaining it = read_view opts (filter (\<lambda>se. in_read_range opts (sePosition se)
        \<and> query_matches q (seEvent se)) (db_log s))" "cursor_fate it = None"
    unfolding one_tag_query [OF q(2) [unfolded single_tags_def]] by blast
  then show "\<exists>it it'. fst (pg_Read healthy_read s q opts) = Ok it \<and> Collect_it cursorIterator_methods it =
      Some (Ok (read_view opts (filter (\<lambda>se. in_read_range opts (sePosition se) \<and> query_matches q (seEvent se))
        (db_log s)), None), it')"
    using cursor.Collect_it_remaining [OF it(2)] by auto
next
  fix s cmds p s'
  assume ok: "db_ok s" and st: "pg_storable events_store cmds" and room: "pg_room s (length (command_events cmds))"
    and run: "pg_Append events_store healthy s cmds = (Ok p, s')"
  let ?n = "seq_hwm (db_seq s) + int (length (command_events cmds))"
  have ne: "command_events cmds \<noteq> []" and p: "p = bigint_position ?n"
    using run room by (auto simp: pg_Append_eq [OF ok st] split: option.splits if_splits)
  have "0 \<le> seq_hwm (db_seq s)" using ok by (simp add: db_ok_def)
  then have "0 < ?n" "?n < 2 ^ 63" using ne room by (simp_all add: pg_room_def bigint_max_def add_nonneg_pos)
  moreover have "SequencePositionInitial < bigint_position k" if "0 < k" "k < 2 ^ 63" for k
    using that by (simp add: SequencePositionInitial_def bigint_position_def less_SequencePosition_def
        word_less_def uint_word_of_int)
  ultimately show "SequencePositionInitial < p" unfolding p by blast
next
  fix s cmds
  assume ok: "db_ok s" and st: "pg_storable events_store cmds" and log: "db_log s = []"
    and bad: "\<not> conditions_scoped cmds \<or> command_events cmds = []"
  show "\<exists>e. pg_Append events_store healthy s cmds = (Err e, s) \<and> \<not> is_condition_error e"
  proof (cases "validate_commands cmds")
    case (Some e)
    then show ?thesis
      using validate_commands_plain [OF Some] by (simp add: pg_Append_def)
  next
    case None
    then have "command_events cmds = []" using bad by (simp add: validate_commands_None_iff)
    then show ?thesis
      using None fst_collect_keys [of cmds 0 "{||}" "{||}"]
      by (auto simp: pg_Append_def Let_def is_condition_error_def split: prod.splits)
  qed
qed

interpretation pg_suite: suite_store "pg_Append events_store healthy" db_log db_ok pg_room "pg_storable events_store"
  stored_event "\<lambda>db q opts. fst (pg_Read healthy_read db q opts)" cursorIterator_methods "pg_api notified" for notified
  by unfold_locales (simp_all add: pg_api_def suite_commands_storable stored_event_def raw_or_null_def)

interpretation pg_live: live_store "pg_Append events_store healthy" db_log db_ok pg_room "pg_storable events_store"
  stored_event "\<lambda>db q opts. fst (pg_Read healthy_read db q opts)" cursorIterator_methods "pg_api notified"
  pg_sub_inv pg_work pg_rank for notified
proof unfold_locales
  fix s q and opts :: SubscribeOptions
  assume ok: "db_ok s" and q: "constructed q" "single_tags q"
    and start: "start_of opts = SequencePositionInitial \<or> start_of opts \<in> sePosition ` set (db_log s)"
  have "pos_value (start_of opts) < 2 ^ 63"
    using start log_position_bound [OF ok] by (auto simp: SequencePositionInitial_def)
  then show "\<exists>it. api_Subscribe (pg_api notified) s q opts = Ok it \<and> pg_sub_inv q (start_of opts) [] s it"
    using q by (simp add: pg_api_def pg_Subscribe_def pg_sub_inv_def start_of_def Let_def)
next
  fix q start del s it cmds p s'
  assume "pg_sub_inv q start del s it" "db_ok s" "pg_storable events_store cmds"
    "pg_room s (length (command_events cmds))" "pg_Append events_store healthy s cmds = (Ok p, s')"
  then show "pg_sub_inv q start del s' it" by (rule pg_append_keeps)
next
  fix s q start del it d ev it'
  assume "db_ok s" "pg_sub_inv q start del s it" "api_pass (pg_api notified) d s it = (Yield ev, it')"
  then show "(\<exists>rest. due_events q start (db_log s) = del @ ev # rest)
      \<and> pg_sub_inv q start (del @ [ev]) s it' \<and> pg_rank s it' \<le> pg_rank s it + 2"
    by (intro pg_pass_yields [of s _ _ _ it notified d]) (simp_all add: pg_api_def)
next
  fix s q start del it d out it'
  assume "db_ok s" "pg_sub_inv q start del s it" "api_pass (pg_api notified) d s it = (out, it')" "\<nexists>ev. out = Yield ev"
  then show "pg_sub_inv q start del s it' \<and> (out = Finished \<longrightarrow> d)"
    by (intro pg_pass_keeps [of s _ _ _ it notified]) (simp_all add: pg_api_def)
next
  fix s q start del it ev rest out it'
  assume "db_ok s" "pg_sub_inv q start del s it" "due_events q start (db_log s) = del @ ev # rest"
    "api_pass (pg_api notified) False s it = (out, it')" "\<nexists>ev. out = Yield ev"
  then show "pg_work s it' < pg_work s it"
    by (intro pg_pass_progress [of s q start del it ev rest notified out]) (simp_all add: pg_api_def)
next
  fix s q start del it out it'
  assume "db_ok s" "pg_sub_inv q start del s it" "api_pass (pg_api notified) True s it = (out, it')" "\<nexists>ev. out = Yield ev"
  then show "out = Finished \<or> pg_rank s it' < pg_rank s it"
    by (intro pg_pass_ends [of s q start del it notified]) (simp_all add: pg_api_def)
qed (auto simp: pg_api_def pg_work_def pg_rank_def pg_sub_inv_def split: pg_sub_pc.splits)

section \<open>The suite passes\<close>

text \<open>
  C13: the PostgreSQL store passes its conformance suite. Run on a fresh table with a database
  that answers, all cases of \<open>eventstoretest.Run\<close> pass, in whatever order the goroutines of
  the concurrency cases append, however the goroutines that drain subscriptions are scheduled
  (as long as a wait gives them 40 passes of their loop), and whether a wait ends by a
  notification or by the poll interval.
\<close>

theorem pg_passes_suite:
  assumes "mset order = mset [0..<racers]" and "40 \<le> timeout"
  shows "Run order sched timeout (pg_api notified) empty_db"
proof (rule pg_live.Run_passes [OF _ assms])
  show "pg_suite.fresh empty_db"
    by (simp add: pg_suite.fresh_def pg_room_def largeN_def bigint_max_def)
qed

theorem pg_passes_suite_witness: "Run [0..<racers] (\<lambda>_. 1) 40 (pg_api True) empty_db"
  by (rule pg_passes_suite) simp_all

end
