(* ===== verification/Pg_Install.thy ===== *)
theory Pg_Install
  imports Pg_Append
begin

text \<open>
  \<open>EnsureInstalled\<close> of \<open>postgres/store.go\<close>: the table, its two indexes and the three
  stored procedures, created under a session-level advisory lock on one connection of the pool.
  What PostgreSQL does with the statements is written out on a catalog: tables and indexes share
  one name space, functions are known by name and argument types; \<open>IF NOT EXISTS\<close> skips a
  name that is taken by whatever relation, \<open>OR REPLACE\<close> keeps the return type; an unquoted
  name is folded to lower case and cut to 63 bytes; the statements of one \<open>Exec\<close> without
  arguments are one transaction. The sequence and the primary key index are part of the table
  (PostgreSQL picks free names for them). Every \<open>Exec\<close> may fail: refused, with the session
  still open, when the context is already done or the server reports an error, or broken off,
  with the statement run or not, which ends the session and with it its locks.
\<close>

section \<open>The catalog\<close>

datatype index_def = TypePosIndex string | TagsGinIndex string

datatype relation = Table PgDb | Index index_def

text \<open>A procedure by the names its body mentions: table, channel, and the check it calls.\<close>

datatype procedure =
    CheckProcedure string
  | AppendProcedure string string string
  | BarrierProcedure string

record catalog =
  cat_relations :: "string \<rightharpoonup> relation"
  cat_functions :: "string \<times> string list \<rightharpoonup> string \<times> procedure"

definition new_table :: PgDb where
  "new_table = \<lparr>db_rows = [], db_seq = None, db_notified = []\<rparr>"

definition create_table :: "string \<Rightarrow> catalog \<Rightarrow> (error, catalog) outcome" where
  "create_table name cat =
     (case cat_relations cat name of
        Some _ \<Rightarrow> Ok cat
      | None \<Rightarrow> Ok (cat\<lparr>cat_relations := (cat_relations cat)(name \<mapsto> Table new_table)\<rparr>))"

definition create_index :: "string \<Rightarrow> string \<Rightarrow> index_def \<Rightarrow> catalog \<Rightarrow> (error, catalog) outcome" where
  "create_index name table def cat =
     (case cat_relations cat table of
        Some (Table _) \<Rightarrow>
          (case cat_relations cat name of
             Some _ \<Rightarrow> Ok cat
           | None \<Rightarrow> Ok (cat\<lparr>cat_relations := (cat_relations cat)(name \<mapsto> Index def)\<rparr>))
      | Some (Index _) \<Rightarrow> Err (PgError ''cannot create index on relation'')
      | None \<Rightarrow> Err (PgError ''relation does not exist''))"

definition create_function ::
  "string \<Rightarrow> string list \<Rightarrow> string \<Rightarrow> procedure \<Rightarrow> catalog \<Rightarrow> (error, catalog) outcome" where
  "create_function name args ret body cat =
     (case cat_functions cat (name, args) of
        Some (ret', _) \<Rightarrow>
          if ret' \<noteq> ret then Err (PgError ''cannot change return type of existing function'')
          else Ok (cat\<lparr>cat_functions := (cat_functions cat)((name, args) \<mapsto> (ret, body))\<rparr>)
      | None \<Rightarrow> Ok (cat\<lparr>cat_functions := (cat_functions cat)((name, args) \<mapsto> (ret, body))\<rparr>))"

section \<open>The statements\<close>

definition check_args :: "string list" where
  "check_args = [''int[]'', ''text[]'', ''text[]'', ''bigint[]'', ''bigint'']"

definition append_args :: "string list" where
  "append_args =
     [''bigint[]'', ''bigint[]'', ''text[]'', ''text[]'', ''text[]'', ''int[]'', ''text[]'', ''text[]'', ''bigint[]'']"

definition barrier_args :: "string list" where
  "barrier_args = [''bigint[]'', ''bigint[]'']"

definition type_pos_idx :: "PgStore \<Rightarrow> string" where
  "type_pos_idx s = sql_name (tableName s @ ''_type_pos_idx'')"

definition tags_gin :: "PgStore \<Rightarrow> string" where
  "tags_gin s = sql_name (tableName s @ ''_tags_gin'')"

definition install_tables :: "PgStore \<Rightarrow> catalog \<Rightarrow> (error, catalog) outcome" where
  "install_tables s cat =
     (let t = sql_name (tableName s)
      in bind_outcome (create_table t cat) (\<lambda>cat.
         bind_outcome (create_index (type_pos_idx s) t (TypePosIndex t) cat)
           (create_index (tags_gin s) t (TagsGinIndex t))))"

definition install_check :: "PgStore \<Rightarrow> catalog \<Rightarrow> (error, catalog) outcome" where
  "install_check s =
     create_function (sql_name (checkFunctionName s)) check_args ''int'' (CheckProcedure (sql_name (tableName s)))"

definition install_append :: "PgStore \<Rightarrow> catalog \<Rightarrow> (error, catalog) outcome" where
  "install_append s =
     create_function (sql_name (appendFunctionName s)) append_args ''bigint''
       (AppendProcedure (sql_name (tableName s)) (notifyChannel s) (sql_name (checkFunctionName s)))"

definition install_barrier :: "PgStore \<Rightarrow> catalog \<Rightarrow> (error, catalog) outcome" where
  "install_barrier s =
     create_function (sql_name (barrierFunctionName s)) barrier_args ''bigint''
       (BarrierProcedure (sql_name (tableName s)))"

section \<open>EnsureInstalled\<close>

definition migrationLockKey :: int64 where
  "migrationLockKey = - 89001"

datatype exec_fate = Answered | Refused error | Broken error bool

text \<open>
  The session of the connection: open or closed, how often it holds each advisory lock, and
  whether the connection was given back.
\<close>

record session =
  ses_open :: bool
  ses_locks :: "int64 \<Rightarrow> nat"
  ses_released :: bool

definition close_session :: "session \<Rightarrow> session" where
  "close_session ses = ses\<lparr>ses_open := False, ses_locks := (\<lambda>_. 0)\<rparr>"

text \<open>On a connection that was broken off, the driver refuses every further statement.\<close>

definition exec ::
  "exec_fate \<Rightarrow> (catalog \<times> session \<Rightarrow> (error, catalog \<times> session) outcome) \<Rightarrow> catalog \<times> session \<Rightarrow>
     error option \<times> catalog \<times> session" where
  "exec fate f st =
     (if \<not> ses_open (snd st) then (Some (PgError ''conn closed''), st)
      else case fate of
             Answered \<Rightarrow> (case f st of Ok st' \<Rightarrow> (None, st') | Err e \<Rightarrow> (Some e, st) | Panic m \<Rightarrow> (Some (PgError m), st))
           | Refused e \<Rightarrow> (Some e, st)
           | Broken e executed \<Rightarrow>
               (Some e, case f st of
                          Ok st' \<Rightarrow> (if executed then fst st' else fst st, close_session (snd st))
                        | _ \<Rightarrow> (fst st, close_session (snd st))))"

definition ddl :: "(catalog \<Rightarrow> (error, catalog) outcome) \<Rightarrow> catalog \<times> session \<Rightarrow> (error, catalog \<times> session) outcome" where
  "ddl f st = bind_outcome (f (fst st)) (\<lambda>cat. Ok (cat, snd st))"

definition advisory_lock :: "int64 \<Rightarrow> catalog \<times> session \<Rightarrow> (error, catalog \<times> session) outcome" where
  "advisory_lock k st =
     Ok (fst st, (snd st)\<lparr>ses_locks := (ses_locks (snd st))(k := Suc (ses_locks (snd st) k))\<rparr>)"

definition advisory_unlock :: "int64 \<Rightarrow> catalog \<times> session \<Rightarrow> (error, catalog \<times> session) outcome" where
  "advisory_unlock k st =
     Ok (fst st, (snd st)\<lparr>ses_locks := (ses_locks (snd st))(k := ses_locks (snd st) k - 1)\<rparr>)"

datatype install_step = TablesStep | CheckStep | AppendStep | BarrierStep

fun install_ddl :: "PgStore \<Rightarrow> install_step \<Rightarrow> catalog \<Rightarrow> (error, catalog) outcome" where
  "install_ddl s TablesStep = install_tables s"
| "install_ddl s CheckStep = install_check s"
| "install_ddl s AppendStep = install_append s"
| "install_ddl s BarrierStep = install_barrier s"

definition install_steps :: "install_step list" where
  "install_steps = [TablesStep, CheckStep, AppendStep, BarrierStep]"

record install_env =
  ie_acquire :: "error option"
  ie_lock :: exec_fate
  ie_exec :: "install_step \<Rightarrow> exec_fate"
  ie_unlock :: exec_fate

definition healthy_install :: install_env where
  "healthy_install = \<lparr>ie_acquire = None, ie_lock = Answered, ie_exec = (\<lambda>_. Answered), ie_unlock = Answered\<rparr>"

fun run_steps ::
  "PgStore \<Rightarrow> install_env \<Rightarrow> install_step list \<Rightarrow> catalog \<times> session \<Rightarrow> error option \<times> catalog \<times> session" where
  "run_steps s env [] st = (None, st)"
| "run_steps s env (step # steps) st =
     (case exec (ie_exec env step) (ddl (install_ddl s step)) st of
        (Some e, st') \<Rightarrow> (Some e, st')
      | (None, st') \<Rightarrow> run_steps s env steps st')"

definition release :: "catalog \<times> session \<Rightarrow> catalog \<times> session" where
  "release st = (fst st, (snd st)\<lparr>ses_released := True\<rparr>)"

text \<open>
  The deferred calls run last-in first-out: the unlock, whose error is dropped, then the release.
  A failing lock returns before the unlock is deferred.
\<close>

definition EnsureInstalled ::
  "PgStore \<Rightarrow> install_env \<Rightarrow> catalog \<times> session \<Rightarrow> error option \<times> catalog \<times> session" where
  "EnsureInstalled s env st =
     (case ie_acquire env of
        Some e \<Rightarrow> (Some e, st)
      | None \<Rightarrow>
      let st = (fst st, (snd st)\<lparr>ses_released := False\<rparr>)
      in case exec (ie_lock env) (advisory_lock migrationLockKey) st of
           (Some e, st) \<Rightarrow> (Some e, release st)
         | (None, st) \<Rightarrow>
             (case run_steps s env install_steps st of
                (err, st) \<Rightarrow> (err, release (snd (exec (ie_unlock env) (advisory_unlock migrationLockKey) st)))))"

section \<open>Calling what was installed\<close>

text \<open>
  A call of the append procedure through the catalog: the name is resolved with its argument
  types, the body runs on the table it names, and needs the check procedure it names.
\<close>

definition call_append ::
  "PgStore \<Rightarrow> ((int64 \<times> bool) list \<Rightarrow> error option) \<Rightarrow> int64 list \<Rightarrow> int64 list \<Rightarrow>
     string list \<times> string list \<times> string list \<Rightarrow> cond_arrays \<Rightarrow> catalog \<Rightarrow>
     ((error, int) outcome \<times> PgDb) option" where
  "call_append s acquire lock_keys intent_keys events arrays cat =
     (case cat_functions cat (sql_name (appendFunctionName s), append_args) of
        Some (_, AppendProcedure table channel check) \<Rightarrow>
          (case (cat_relations cat table, cat_functions cat (check, check_args)) of
             (Some (Table db), Some (_, CheckProcedure table')) \<Rightarrow>
               if table' = table
               then Some (events_append (s\<lparr>notifyChannel := channel\<rparr>) acquire lock_keys intent_keys events arrays db)
               else None
           | _ \<Rightarrow> None)
      | _ \<Rightarrow> None)"

definition call_barrier ::
  "PgStore \<Rightarrow> ((int64 \<times> bool) list \<Rightarrow> error option) \<Rightarrow> int64 list \<Rightarrow> int64 list \<Rightarrow> catalog \<Rightarrow>
     (error, int) outcome option" where
  "call_barrier s acquire shared_keys exclusive_keys cat =
     (case cat_functions cat (sql_name (barrierFunctionName s), barrier_args) of
        Some (_, BarrierProcedure table) \<Rightarrow>
          (case cat_relations cat table of
             Some (Table db) \<Rightarrow> Some (barrier_hwm acquire shared_keys exclusive_keys db)
           | _ \<Rightarrow> None)
      | _ \<Rightarrow> None)"

section \<open>What the statements do\<close>

lemma map_le_new: "m n = None \<Longrightarrow> m \<subseteq>\<^sub>m m(n \<mapsto> x)"
  by (auto simp: map_le_def)

text \<open>Relations are only added, and only the functions of this store are written.\<close>

definition own_functions :: "PgStore \<Rightarrow> (string \<times> string list) set" where
  "own_functions s =
     {(sql_name (checkFunctionName s), check_args), (sql_name (appendFunctionName s), append_args),
      (sql_name (barrierFunctionName s), barrier_args)}"

definition extends_catalog :: "PgStore \<Rightarrow> catalog \<Rightarrow> catalog \<Rightarrow> bool" where
  "extends_catalog s cat cat' \<longleftrightarrow>
     cat_relations cat \<subseteq>\<^sub>m cat_relations cat'
     \<and> (\<forall>k. k \<notin> own_functions s \<longrightarrow> cat_functions cat' k = cat_functions cat k)"

lemma extends_refl [simp]: "extends_catalog s cat cat"
  by (simp add: extends_catalog_def)

lemma extends_trans: "extends_catalog s a b \<Longrightarrow> extends_catalog s b c \<Longrightarrow> extends_catalog s a c"
  by (auto simp: extends_catalog_def intro: map_le_trans)

lemma create_table_extends: "create_table n cat = Ok cat' \<Longrightarrow> extends_catalog s cat cat'"
  by (auto simp: create_table_def extends_catalog_def map_le_new split: option.splits)

lemma create_index_extends: "create_index n t d cat = Ok cat' \<Longrightarrow> extends_catalog s cat cat'"
  by (auto simp: create_index_def extends_catalog_def map_le_new split: option.splits relation.splits)

lemma create_table_index_functions:
  "create_table n cat = Ok cat' \<Longrightarrow> cat_functions cat' = cat_functions cat"
  "create_index n t d cat = Ok cat' \<Longrightarrow> cat_functions cat' = cat_functions cat"
  by (auto simp: create_table_def create_index_def split: option.splits relation.splits)

lemma create_index_table: "create_index n t d cat = Ok cat' \<Longrightarrow> \<exists>db. cat_relations cat t = Some (Table db)"
  by (auto simp: create_index_def split: option.splits relation.splits)

lemma create_function_Ok:
  "create_function n args ret body cat = Ok cat' \<Longrightarrow>
     cat' = cat\<lparr>cat_functions := (cat_functions cat)((n, args) \<mapsto> (ret, body))\<rparr>"
  by (auto simp: create_function_def split: option.splits if_splits)

lemma install_tables_Ok:
  assumes "install_tables s cat = Ok cat'"
  shows "extends_catalog s cat cat'" and "cat_functions cat' = cat_functions cat"
    and "\<exists>db. cat_relations cat' (sql_name (tableName s)) = Some (Table db)"
proof -
  let ?t = "sql_name (tableName s)"
  obtain c1 c2 where c: "create_table ?t cat = Ok c1"
      "create_index (type_pos_idx s) ?t (TypePosIndex ?t) c1 = Ok c2"
      "create_index (tags_gin s) ?t (TagsGinIndex ?t) c2 = Ok cat'"
    using assms by (auto simp: install_tables_def bind_outcome_Ok_iff Let_def)
  have last: "extends_catalog s c2 cat'" by (rule create_index_extends [OF c(3)])
  show "extends_catalog s cat cat'"
    using create_table_extends [OF c(1)] create_index_extends [OF c(2)] last by (blast intro: extends_trans)
  show "cat_functions cat' = cat_functions cat" using c create_table_index_functions by metis
  show "\<exists>db. cat_relations cat' ?t = Some (Table db)"
    using create_index_table [OF c(3)] last by (auto simp: extends_catalog_def map_le_def dom_def)
qed

text \<open>After its statement a function is the one of the source.\<close>

fun own_function :: "PgStore \<Rightarrow> install_step \<Rightarrow> ((string \<times> string list) \<times> string \<times> procedure) option" where
  "own_function s TablesStep = None"
| "own_function s CheckStep =
     Some ((sql_name (checkFunctionName s), check_args), ''int'', CheckProcedure (sql_name (tableName s)))"
| "own_function s AppendStep =
     Some ((sql_name (appendFunctionName s), append_args), ''bigint'',
       AppendProcedure (sql_name (tableName s)) (notifyChannel s) (sql_name (checkFunctionName s)))"
| "own_function s BarrierStep =
     Some ((sql_name (barrierFunctionName s), barrier_args), ''bigint'', BarrierProcedure (sql_name (tableName s)))"

definition has_function :: "PgStore \<Rightarrow> catalog \<Rightarrow> install_step \<Rightarrow> bool" where
  "has_function s cat step \<longleftrightarrow>
     (case own_function s step of
        None \<Rightarrow> \<exists>db. cat_relations cat (sql_name (tableName s)) = Some (Table db)
      | Some (k, f) \<Rightarrow> cat_functions cat k = Some f)"

lemma own_function_ddl:
  "own_function s step = Some ((n, args), ret, body) \<Longrightarrow> install_ddl s step = create_function n args ret body
     \<and> (n, args) \<in> own_functions s"
  by (cases step) (auto simp: install_check_def install_append_def install_barrier_def own_functions_def)

lemma own_function_distinct:
  "own_function s step = Some (k, f) \<Longrightarrow> own_function s step' = Some (k, f') \<Longrightarrow> step = step'"
  by (cases step; cases step') (auto simp: check_args_def append_args_def barrier_args_def)

lemma own_function_None: "own_function s step = None \<longleftrightarrow> step = TablesStep"
  by (cases step) simp_all

lemma install_ddl_Ok:
  assumes "install_ddl s step cat = Ok cat'"
  shows "extends_catalog s cat cat'" and "has_function s cat' step"
    and "\<And>step'. has_function s cat step' \<Longrightarrow> has_function s cat' step'"
proof -
  have "extends_catalog s cat cat' \<and> has_function s cat' step
      \<and> (\<forall>step'. has_function s cat step' \<longrightarrow> has_function s cat' step')"
  proof (cases "own_function s step")
    case None
    then have "step = TablesStep" by (simp add: own_function_None)
    then show ?thesis
      using assms install_tables_Ok [of s cat cat'] by (auto simp: has_function_def split: option.splits)
  next
    case (Some kf)
    then obtain n args ret body where kf: "own_function s step = Some ((n, args), ret, body)" by (cases kf) auto
    then have cat': "cat' = cat\<lparr>cat_functions := (cat_functions cat)((n, args) \<mapsto> (ret, body))\<rparr>"
      and own: "(n, args) \<in> own_functions s"
      using assms own_function_ddl [OF kf] create_function_Ok by auto
    have here: "has_function s cat' step" by (simp add: cat' has_function_def kf)
    moreover have "has_function s cat' step'" if has: "has_function s cat step'" for step'
    proof (cases "step' = step")
      case False
      then have "k \<noteq> (n, args)" if "own_function s step' = Some (k, f)" for k f
        using own_function_distinct [OF kf] that by blast
      then show ?thesis using has by (auto simp: cat' has_function_def split: option.splits)
    qed (simp add: here)
    ultimately show ?thesis using own by (auto simp: cat' extends_catalog_def)
  qed
  then show "extends_catalog s cat cat'" "has_function s cat' step"
      "\<And>step'. has_function s cat step' \<Longrightarrow> has_function s cat' step'" by simp_all
qed

section \<open>Running the steps\<close>

lemma exec_ddl:
  assumes "exec fate (ddl f) st = (err, st')"
  shows "fst st' = fst st \<or> f (fst st) = Ok (fst st')" and "err = None \<Longrightarrow> f (fst st) = Ok (fst st') \<and> snd st' = snd st"
    and "snd st' = snd st \<or> snd st' = close_session (snd st)"
  using assms by (auto simp: exec_def ddl_def split: if_splits exec_fate.splits outcome.splits)
    (cases "f (fst st)"; auto)+

lemma run_steps_result:
  assumes "run_steps s env steps st = (err, st')"
  shows "extends_catalog s (fst st) (fst st') \<and> (snd st' = snd st \<or> snd st' = close_session (snd st))
    \<and> (err = None \<longrightarrow> snd st' = snd st \<and> (\<forall>step \<in> set steps. has_function s (fst st') step))
    \<and> (\<forall>step. has_function s (fst st) step \<longrightarrow> has_function s (fst st') step)"
  using assms
proof (induction steps arbitrary: st)
  case (Cons step steps)
  obtain e st1 where e: "exec (ie_exec env step) (ddl (install_ddl s step)) st = (e, st1)"
    using prod.exhaust by blast
  note step = exec_ddl [OF e]
  have one: "extends_catalog s (fst st) (fst st1)"
      "\<And>step'. has_function s (fst st) step' \<Longrightarrow> has_function s (fst st1) step'"
    using step(1) install_ddl_Ok by fastforce+
  show ?case
  proof (cases e)
    case None
    then have run: "run_steps s env steps st1 = (err, st')" using Cons.prems e by simp
    have "has_function s (fst st1) step" "snd st1 = snd st" using step(2) None install_ddl_Ok(2) by blast+
    then show ?thesis using Cons.IH [OF run] one by (auto intro: extends_trans)
  next
    case (Some x)
    then show ?thesis using Cons.prems e one step(3) by auto
  qed
qed simp

section \<open>Properties of the installation\<close>

text \<open>
  C16: whatever fails, an installation destroys nothing and gives its connection back. Every
  table and index that existed is still there with its contents, and no function but the three
  of this store is touched; a nil error means that the table and the procedures are in place.
  The migration lock is held no more often than before, unless the statement that releases it
  was refused.
\<close>

theorem ensure_installed_safe:
  assumes "EnsureInstalled s env (cat, ses) = (err, cat', ses')"
  shows "cat_relations cat \<subseteq>\<^sub>m cat_relations cat'
    \<and> (\<forall>k. k \<notin> own_functions s \<longrightarrow> cat_functions cat' k = cat_functions cat k)
    \<and> (err = None \<longrightarrow> (\<forall>step. has_function s cat' step))
    \<and> (ie_acquire env = None \<longrightarrow> ses_released ses')
    \<and> ((\<forall>e. ie_unlock env \<noteq> Refused e) \<longrightarrow>
         ses_locks ses' migrationLockKey \<le> ses_locks ses migrationLockKey)"
proof (cases "ie_acquire env")
  case None
  let ?st = "(cat, ses\<lparr>ses_released := False\<rparr>)"
  obtain e1 st1 where lock: "exec (ie_lock env) (advisory_lock migrationLockKey) ?st = (e1, st1)"
    using prod.exhaust by blast
  show ?thesis
  proof (cases e1)
    case (Some e)
    then show ?thesis
      using assms None lock by (auto simp: EnsureInstalled_def exec_def release_def advisory_lock_def close_session_def
          split: if_splits exec_fate.splits)
  next
    case locked: None
    then have opened: "ses_open ses" using lock by (simp add: exec_def split: if_splits)
    from locked have st1: "st1 = (cat, ses\<lparr>ses_released := False,
        ses_locks := (ses_locks ses)(migrationLockKey := Suc (ses_locks ses migrationLockKey))\<rparr>)"
      using lock by (auto simp: exec_def advisory_lock_def split: if_splits exec_fate.splits)
    obtain e2 st2 where run: "run_steps s env install_steps st1 = (e2, st2)" using prod.exhaust by blast
    note steps = run_steps_result [OF run]
    let ?out = "snd (exec (ie_unlock env) (advisory_unlock migrationLockKey) st2)"
    have res: "err = e2" "cat' = fst ?out" "ses' = (snd ?out)\<lparr>ses_released := True\<rparr>"
      using assms None lock locked run by (simp_all add: EnsureInstalled_def Let_def release_def)
    have fst_out: "fst ?out = fst st2"
      by (auto simp: exec_def advisory_unlock_def split: exec_fate.split)
    have "extends_catalog s cat cat'" using steps st1 res(2) fst_out by simp
    moreover have "has_function s cat' step" if "err = None" for step
      using steps that res(1,2) fst_out by (cases step) (auto simp: install_steps_def)
    moreover have "ses_locks ses' migrationLockKey \<le> ses_locks ses migrationLockKey"
      if "\<forall>e. ie_unlock env \<noteq> Refused e"
      using that steps st1 res(3) opened by (auto simp: exec_def advisory_unlock_def close_session_def split: exec_fate.splits)
    ultimately show ?thesis using res(3) by (simp add: extends_catalog_def)
  qed
qed (use assms in \<open>auto simp: EnsureInstalled_def\<close>)

text \<open>The names are free, or taken by what an installation of this store left there.\<close>

definition has_indexes :: "PgStore \<Rightarrow> catalog \<Rightarrow> bool" where
  "has_indexes s cat \<longleftrightarrow>
     cat_relations cat (type_pos_idx s) = Some (Index (TypePosIndex (sql_name (tableName s))))
     \<and> cat_relations cat (tags_gin s) = Some (Index (TagsGinIndex (sql_name (tableName s))))"

definition returns_match :: "PgStore \<Rightarrow> catalog \<Rightarrow> bool" where
  "returns_match s cat \<longleftrightarrow>
     (\<forall>step k ret body ret' body'. own_function s step = Some (k, ret, body)
        \<and> cat_functions cat k = Some (ret', body') \<longrightarrow> ret' = ret)"

lemma returns_match_simps [simp]:
  "returns_match s (cat\<lparr>cat_relations := r\<rparr>) = returns_match s cat"
  "cat_functions cat = Map.empty \<Longrightarrow> returns_match s cat"
  by (simp_all add: returns_match_def)

definition compatible :: "PgStore \<Rightarrow> catalog \<Rightarrow> bool" where
  "compatible s cat \<longleftrightarrow>
     (\<forall>i. cat_relations cat (sql_name (tableName s)) \<noteq> Some (Index i))
     \<and> cat_relations cat (type_pos_idx s) \<in> {None, Some (Index (TypePosIndex (sql_name (tableName s))))}
     \<and> cat_relations cat (tags_gin s) \<in> {None, Some (Index (TagsGinIndex (sql_name (tableName s))))}
     \<and> returns_match s cat"

definition table_of :: "PgStore \<Rightarrow> catalog \<Rightarrow> PgDb" where
  "table_of s cat =
     (case cat_relations cat (sql_name (tableName s)) of Some (Table db) \<Rightarrow> db | _ \<Rightarrow> new_table)"

lemma short_names:
  assumes "length (tableName s) \<le> 50"
  shows "type_pos_idx s \<noteq> sql_name (tableName s)" and "tags_gin s \<noteq> sql_name (tableName s)"
    and "type_pos_idx s \<noteq> tags_gin s"
  using assms by (auto simp: type_pos_idx_def tags_gin_def sql_name_def quoted_name_def NAMEDATALEN_def unquoted_def to_lower_def)

lemma install_tables_compatible:
  assumes "compatible s cat" and "length (tableName s) \<le> 50"
  shows "\<exists>cat'. install_tables s cat = Ok cat' \<and> has_indexes s cat' \<and> compatible s cat'
    \<and> cat_relations cat' (sql_name (tableName s)) = Some (Table (table_of s cat))"
  using assms(1) short_names [OF assms(2)]
  by (auto simp: compatible_def install_tables_def create_table_def create_index_def has_indexes_def table_of_def Let_def
      split: option.splits relation.splits)

lemma install_function_matching:
  assumes "returns_match s cat" and "step \<noteq> TablesStep"
  shows "\<exists>cat'. install_ddl s step cat = Ok cat' \<and> returns_match s cat' \<and> cat_relations cat' = cat_relations cat"
proof -
  obtain n args ret body where own: "own_function s step = Some ((n, args), ret, body)"
    using assms(2) own_function_None [of s step] by (cases "own_function s step") auto
  let ?cat = "cat\<lparr>cat_functions := (cat_functions cat)((n, args) \<mapsto> (ret, body))\<rparr>"
  have "install_ddl s step cat = Ok ?cat"
    using assms(1) own own_function_ddl [OF own]
    by (auto simp: returns_match_def create_function_def split: option.splits)
  moreover have "ret' = ret" if "own_function s step' = Some ((n, args), ret', body')" for step' ret' body'
    using own_function_distinct [OF own that] own that by simp
  then have "returns_match s ?cat" using assms(1) by (auto simp: returns_match_def split: if_splits)
  ultimately show ?thesis by auto
qed

lemma exec_healthy: "ses_open ses \<Longrightarrow> f cat = Ok cat' \<Longrightarrow> exec Answered (ddl f) (cat, ses) = (None, cat', ses)"
  by (simp add: exec_def ddl_def)

lemma run_functions_healthy:
  assumes "returns_match s cat" and "ses_open ses" and "TablesStep \<notin> set steps"
  shows "\<exists>cat'. run_steps s healthy_install steps (cat, ses) = (None, cat', ses)
    \<and> cat_relations cat' = cat_relations cat"
  using assms
proof (induction steps arbitrary: cat)
  case (Cons step steps)
  obtain cat1 where cat1: "install_ddl s step cat = Ok cat1" "returns_match s cat1" "cat_relations cat1 = cat_relations cat"
    using install_function_matching [of s cat step] Cons.prems by auto
  show ?case
    using Cons.IH [OF cat1(2)] Cons.prems exec_healthy [of ses "install_ddl s step" cat cat1] cat1
    by (auto simp: healthy_install_def)
qed simp

lemma run_steps_healthy:
  assumes "compatible s cat" and "length (tableName s) \<le> 50" and "ses_open ses"
  shows "\<exists>cat'. run_steps s healthy_install install_steps (cat, ses) = (None, cat', ses) \<and> has_indexes s cat'
    \<and> cat_relations cat' (sql_name (tableName s)) = Some (Table (table_of s cat))"
proof -
  obtain cat1 where cat1: "install_tables s cat = Ok cat1" "has_indexes s cat1" "returns_match s cat1"
      "cat_relations cat1 (sql_name (tableName s)) = Some (Table (table_of s cat))"
    using install_tables_compatible [OF assms(1,2)] by (auto simp: compatible_def)
  obtain cat2 where cat2: "run_steps s healthy_install (tl install_steps) (cat1, ses) = (None, cat2, ses)"
      "cat_relations cat2 = cat_relations cat1"
    using run_functions_healthy [OF cat1(3) assms(3), of "tl install_steps"] by (auto simp: install_steps_def)
  then have "run_steps s healthy_install install_steps (cat, ses) = (None, cat2, ses)"
    using exec_healthy [of ses "install_tables s" cat cat1] cat1(1) assms(3)
    by (simp add: install_steps_def healthy_install_def)
  then show ?thesis using cat1 cat2(2) by (auto simp: has_indexes_def)
qed

text \<open>Once everything is in place the statements change nothing.\<close>

lemma run_steps_installed:
  assumes "\<forall>step. has_function s cat step" and "has_indexes s cat" and "ses_open ses"
  shows "run_steps s healthy_install steps (cat, ses) = (None, cat, ses)"
proof (induction steps)
  case (Cons step steps)
  have has: "has_function s cat step" using assms(1) by blast
  have "install_ddl s step cat = Ok cat"
  proof (cases "own_function s step")
    case None
    then show ?thesis
      using has assms(2) by (auto simp: own_function_None has_function_def has_indexes_def install_tables_def create_table_def
          create_index_def)
  next
    case (Some kf)
    then obtain n args ret body where own: "own_function s step = Some ((n, args), ret, body)" by (cases kf) auto
    then have "cat_functions cat (n, args) = Some (ret, body)" using has by (simp add: has_function_def)
    then show ?thesis
      using own_function_ddl [OF own] by (simp add: create_function_def map_upd_triv)
  qed
  with exec_healthy [of ses "install_ddl s step" cat cat] assms(3) show ?case
    using Cons.IH by (simp add: healthy_install_def)
qed simp

definition locked :: "session \<Rightarrow> session" where
  "locked ses = ses\<lparr>ses_released := False,
     ses_locks := (ses_locks ses)(migrationLockKey := Suc (ses_locks ses migrationLockKey))\<rparr>"

lemma EnsureInstalled_run:
  assumes "ses_open ses" and "ie_acquire env = None" and "ie_lock env = Answered"
    and "run_steps s env install_steps (cat, locked ses) = (err, st)"
  shows "EnsureInstalled s env (cat, ses) =
    (err, release (snd (exec (ie_unlock env) (advisory_unlock migrationLockKey) st)))"
  using assms by (simp add: EnsureInstalled_def exec_def advisory_lock_def locked_def Let_def)

lemma EnsureInstalled_healthy:
  assumes "ses_open ses" and "run_steps s healthy_install install_steps (cat, locked ses) = (None, cat', locked ses)"
  shows "EnsureInstalled s healthy_install (cat, ses) = (None, cat', ses\<lparr>ses_released := True\<rparr>)"
  using EnsureInstalled_run [OF assms(1) _ _ assms(2)] assms(1)
  by (simp add: healthy_install_def exec_def advisory_unlock_def release_def locked_def)

lemma has_functions_call:
  assumes "\<forall>step. has_function s cat step" and "cat_relations cat (sql_name (tableName s)) = Some (Table db)"
  shows "call_append s acquire lk ik evs arrays cat = Some (events_append s acquire lk ik evs arrays db)"
    and "call_barrier s acquire sk xk cat = Some (barrier_hwm acquire sk xk db)"
  using assms(2) spec [OF assms(1), of AppendStep] spec [OF assms(1), of CheckStep] spec [OF assms(1), of BarrierStep]
  by (simp_all add: has_function_def call_append_def call_barrier_def)

text \<open>
  C15: \<open>EnsureInstalled\<close> installs, and is idempotent. On a catalog whose names are free or
  taken by an earlier installation, and with a table name of at most 50 bytes, it returns
  without an error, the table (a new one, or the one that was there with its rows), both indexes
  and the procedures are in place, calls of the procedures resolve to the modelled ones on that
  table, the lock is given up and the connection given back; and a second call changes nothing.
\<close>

theorem ensure_installed_correct:
  assumes "compatible s cat" and "length (tableName s) \<le> 50" and "ses_open ses"
  shows "\<exists>cat'. EnsureInstalled s healthy_install (cat, ses) = (None, cat', ses\<lparr>ses_released := True\<rparr>)
    \<and> has_indexes s cat'
    \<and> cat_relations cat' (sql_name (tableName s)) = Some (Table (table_of s cat))
    \<and> (\<forall>acquire lk ik evs arrays. call_append s acquire lk ik evs arrays cat' =
         Some (events_append s acquire lk ik evs arrays (table_of s cat)))
    \<and> (\<forall>acquire sk xk. call_barrier s acquire sk xk cat' = Some (barrier_hwm acquire sk xk (table_of s cat)))
    \<and> EnsureInstalled s healthy_install (cat', ses\<lparr>ses_released := True\<rparr>) = (None, cat', ses\<lparr>ses_released := True\<rparr>)"
proof -
  have open_locked: "ses_open (locked x) = ses_open x" for x by (simp add: locked_def)
  obtain cat' where run: "run_steps s healthy_install install_steps (cat, locked ses) = (None, cat', locked ses)"
    and idx: "has_indexes s cat'" and tab: "cat_relations cat' (sql_name (tableName s)) = Some (Table (table_of s cat))"
    using run_steps_healthy [OF assms(1,2), of "locked ses"] assms(3) open_locked by auto
  have funs: "has_function s cat' step" for step
    using run_steps_result [OF run] by (cases step) (auto simp: install_steps_def)
  have "EnsureInstalled s healthy_install (cat', ses\<lparr>ses_released := True\<rparr>)
      = (None, cat', ses\<lparr>ses_released := True\<rparr>\<lparr>ses_released := True\<rparr>)"
    using run_steps_installed [of s cat' _ install_steps] funs idx assms(3)
    by (intro EnsureInstalled_healthy) (simp_all add: open_locked)
  then show ?thesis
    using EnsureInstalled_healthy [OF assms(3) run] idx tab has_functions_call [OF _ tab] funs by auto
qed

definition empty_catalog :: catalog where
  "empty_catalog = \<lparr>cat_relations = Map.empty, cat_functions = Map.empty\<rparr>"

definition idle_session :: session where
  "idle_session = \<lparr>ses_open = True, ses_locks = (\<lambda>_. 0), ses_released = True\<rparr>"

theorem ensure_installed_correct_witness:
  "\<exists>cat'. EnsureInstalled events_store healthy_install (empty_catalog, idle_session) = (None, cat', idle_session)
     \<and> has_indexes events_store cat' \<and> cat_relations cat' ''events'' = Some (Table empty_db)
     \<and> EnsureInstalled events_store healthy_install (cat', idle_session) = (None, cat', idle_session)"
proof -
  have name: "tableName events_store = ''events''" "sql_name ''events'' = ''events''"
    by (simp_all add: events_store_def sql_name_def quoted_name_def NAMEDATALEN_def unquoted_def to_lower_def)
  have new: "table_of events_store empty_catalog = empty_db"
    by (simp add: table_of_def empty_catalog_def new_table_def empty_db_def)
  have "compatible events_store empty_catalog" by (simp add: compatible_def empty_catalog_def)
  from ensure_installed_correct [OF this, of idle_session] show ?thesis
    by (auto simp: idle_session_def name new)
qed

theorem ensure_installed_safe_witness:
  "\<exists>err cat' ses'. EnsureInstalled events_store
       (healthy_install\<lparr>ie_exec := (\<lambda>_. Answered)(AppendStep := Broken (PgError ''eof'') True)\<rparr>)
       (empty_catalog, idle_session) = (err, cat', ses')
     \<and> ses_released ses' \<and> ses_locks ses' migrationLockKey = 0"
proof -
  let ?env = "healthy_install\<lparr>ie_exec := (\<lambda>_. Answered)(AppendStep := Broken (PgError ''eof'') True)\<rparr>"
  obtain err cat' ses' where r: "EnsureInstalled events_store ?env (empty_catalog, idle_session) = (err, cat', ses')"
    by (metis prod.exhaust)
  show ?thesis
    using ensure_installed_safe [OF r] r by (simp add: healthy_install_def idle_session_def)
qed

text \<open>
  The unlock runs on the caller's context. When that context is done after the last statement,
  the unlock is refused: the installation reports success and gives the connection back to the
  pool with its session still holding the migration lock, so that installations from other
  sessions wait for as long as the connection lives.
\<close>

theorem refused_unlock_keeps_lock:
  "\<exists>cat' ses'. EnsureInstalled events_store (healthy_install\<lparr>ie_unlock := Refused (CtxError Canceled)\<rparr>)
       (empty_catalog, idle_session) = (None, cat', ses')
     \<and> ses_open ses' \<and> ses_released ses' \<and> ses_locks ses' migrationLockKey = 1"
proof -
  let ?env = "healthy_install\<lparr>ie_unlock := Refused (CtxError Canceled)\<rparr>"
  have same: "run_steps s ?env steps st = run_steps s healthy_install steps st" for s steps st
    by (induction steps arbitrary: st) (simp_all add: healthy_install_def split: prod.split option.split)
  have opened: "ses_open idle_session" "ses_open (locked idle_session)" by (simp_all add: idle_session_def locked_def)
  obtain cat' where "run_steps events_store ?env install_steps (empty_catalog, locked idle_session)
      = (None, cat', locked idle_session)"
    using run_steps_healthy [OF _ _ opened(2), of events_store empty_catalog]
    by (auto simp: compatible_def returns_match_def empty_catalog_def events_store_def same)
  from EnsureInstalled_run [OF opened(1) _ _ this] show ?thesis
    by (simp add: healthy_install_def exec_def release_def locked_def idle_session_def)
qed

text \<open>
  PostgreSQL cuts names to 63 bytes, the longest table name \<open>New\<close> accepts. With such a
  name the index names are cut to the table's own, which is taken, and both indexes are
  silently left out.
\<close>

theorem longest_name_has_no_indexes:
  "\<exists>s cat' ses'. pg_New \<lparr>TablePrefix = replicate 56 (CHR ''a''), CopyThreshold = 0\<rparr> = Inr s
     \<and> EnsureInstalled s healthy_install (empty_catalog, idle_session) = (None, cat', ses')
     \<and> dom (cat_relations cat') = {tableName s}"
proof -
  let ?t = "replicate 56 (CHR ''a'') @ ''_events''"
  have "validIdentifier ?t" by code_simp
  then obtain s where s: "pg_New \<lparr>TablePrefix = replicate 56 (CHR ''a''), CopyThreshold = 0\<rparr> = Inr s" "tableName s = ?t"
    by (simp add: pg_New_def Let_def)
  have names: "sql_name ?t = ?t" "sql_name (?t @ ''_type_pos_idx'') = ?t" "sql_name (?t @ ''_tags_gin'') = ?t"
    by code_simp+
  define t where "t = ?t"
  let ?cat = "empty_catalog\<lparr>cat_relations := [t \<mapsto> Table new_table]\<rparr>"
  have tables: "install_ddl s TablesStep empty_catalog = Ok ?cat"
    using names [folded t_def] s(2) [folded t_def]
    by (simp add: install_tables_def create_table_def create_index_def type_pos_idx_def tags_gin_def
        empty_catalog_def Let_def)
  have opened: "ses_open idle_session" "ses_open (locked idle_session)" by (simp_all add: idle_session_def locked_def)
  obtain cat' where "run_steps s healthy_install (tl install_steps) (?cat, locked idle_session)
      = (None, cat', locked idle_session)" and cat': "cat_relations cat' = cat_relations ?cat"
    using run_functions_healthy [OF _ opened(2), of s ?cat "tl install_steps"]
    by (auto simp: install_steps_def empty_catalog_def)
  then have "run_steps s healthy_install install_steps (empty_catalog, locked idle_session)
      = (None, cat', locked idle_session)"
    using exec_healthy [of "locked idle_session" "install_ddl s TablesStep", OF opened(2) tables]
    by (simp add: install_steps_def healthy_install_def)
  from EnsureInstalled_healthy [OF opened(1) this] show ?thesis
    using s cat' by (auto simp: t_def)
qed

end
