(* ===== verification/Pg_Read_Any.thy ===== *)
theory Pg_Read_Any
  imports Pg_Read
begin

text \<open>
  Reads of a table whose rows this store did not write, or wrote badly: the rows are arbitrary,
  and every statement may fail. A read still ends, after a number of fetches bounded by the
  size of the table, gives its connection back, and hands out only well-formed events of rows
  that the statement selects.
\<close>

section \<open>The cursor over arbitrary rows\<close>

definition decodes_into :: "(SequencedEvent \<Rightarrow> bool) \<Rightarrow> row list \<Rightarrow> bool" where
  "decodes_into good rows \<longleftrightarrow> (\<forall>r \<in> set rows. \<forall>se. rowToSequencedEvent r = Ok se \<longrightarrow> good se)"

text \<open>Until it is exhausted a cursor has fetched full batches only.\<close>

definition cursor_inv :: "nat \<Rightarrow> (SequencedEvent \<Rightarrow> bool) \<Rightarrow> cursorIterator \<Rightarrow> bool" where
  "cursor_inv n good it \<longleftrightarrow>
     decodes_into good (cn_cursor (cur_conn it)) \<and> list_all good (cur_buffer it)
     \<and> cn_released (cur_conn it) = cur_closed it
     \<and> (if cur_exhausted it then cn_fetched (cur_conn it) \<le> n div readBatchSize + 1
        else cn_fetched (cur_conn it) * readBatchSize + length (cn_cursor (cur_conn it)) \<le> n)"

definition cursor_rank :: "cursorIterator \<Rightarrow> nat" where
  "cursor_rank it = length (cn_cursor (cur_conn it)) + (length (cur_buffer it) - cur_idx it)"

definition cursor_final :: "nat \<Rightarrow> cursorIterator \<Rightarrow> bool" where
  "cursor_final n it \<longleftrightarrow>
     cn_fetched (cur_conn it) \<le> n div readBatchSize + 1 \<and> cn_released (cur_conn it) = cur_closed it"

lemma CollectRows_good:
  assumes "decodes_into good rows" and "CollectRows rows = Ok evs"
  shows "list_all good evs"
  using assms by (induction rows arbitrary: evs) (auto simp: decodes_into_def bind_outcome_Ok_iff)

lemma fetches_bound: "f * readBatchSize + k \<le> n \<Longrightarrow> Suc f \<le> n div readBatchSize + 1"
  by (simp add: readBatchSize_def)

lemma cursor_inv_final: "cursor_inv n good it \<Longrightarrow> cursor_final n it"
  using fetches_bound [of "cn_fetched (cur_conn it)" "length (cn_cursor (cur_conn it))" n]
  by (auto simp: cursor_inv_def cursor_final_def split: if_splits)

lemma cursor_Next_stops:
  assumes "cursor_inv n good it" and "fst (cursor_Next it) \<noteq> Ok True"
  shows "cursor_final n (snd (cursor_Next it))"
  using assms cursor_inv_final [OF assms(1)]
    fetches_bound [of "cn_fetched (cur_conn it)" "length (cn_cursor (cur_conn it))" n]
  by (auto simp: cursor_Next_def conn_fetch_def cursor_inv_def cursor_final_def Let_def
      split: if_splits option.splits outcome.splits prod.splits)

lemma cursor_Next_yields:
  assumes inv: "cursor_inv n good it" and yes: "fst (cursor_Next it) = Ok True"
  shows "cursor_inv n good (snd (cursor_Next it)) \<and> cursor_rank (snd (cursor_Next it)) < cursor_rank it
    \<and> (\<exists>ev. cursor_Event (snd (cursor_Next it)) = Ok ev \<and> good ev)"
proof (cases "cur_idx it < length (cur_buffer it)")
  case True
  then have "cursor_Next it = (Ok True, it\<lparr>cur_idx := cur_idx it + 1\<rparr>)"
    using yes by (auto simp: cursor_Next_def split: if_splits)
  then show ?thesis
    using True inv by (auto simp: cursor_inv_def cursor_rank_def cursor_Event_def list_all_length)
next
  case False
  let ?c = "cur_conn it"
  let ?rows = "cn_cursor ?c" and ?f = "cn_fetched ?c"
  have ex: "\<not> cur_exhausted it" using False yes by (auto simp: cursor_Next_def split: if_splits)
  obtain evs where evs: "CollectRows (take readBatchSize ?rows) = Ok evs" "evs \<noteq> []"
    and "snd (cursor_Next it) = it\<lparr>cur_conn := ?c\<lparr>cn_cursor := drop readBatchSize ?rows, cn_fetched := Suc ?f\<rparr>,
      cur_buffer := evs, cur_idx := 1, cur_exhausted := length evs < readBatchSize\<rparr>"
    using False ex yes by (auto simp: cursor_Next_def conn_fetch_def Let_def
        split: if_splits option.splits outcome.splits)
  moreover have len: "length evs = min (length ?rows) readBatchSize" using CollectRows_length [OF evs(1)] by simp
  moreover have sub: "decodes_into good (take readBatchSize ?rows)" "decodes_into good (drop readBatchSize ?rows)"
    using inv by (auto simp: cursor_inv_def decodes_into_def dest: in_set_takeD in_set_dropD)
  moreover have "list_all good evs" by (rule CollectRows_good [OF sub(1) evs(1)])
  moreover have "?f * readBatchSize + length ?rows \<le> n" using inv ex by (simp add: cursor_inv_def)
  ultimately show ?thesis
    using inv False fetches_bound [of ?f "length ?rows" n]
    by (cases evs) (auto simp: cursor_inv_def cursor_rank_def cursor_Event_def)
qed

interpretation cursor_any: ranked_iterator cursorIterator_methods "cursor_inv n good" cursor_rank good "cursor_final n"
  for n good
  by unfold_locales (simp_all add: cursorIterator_methods_def cursor_Next_yields cursor_Next_stops)

section \<open>What a read opens\<close>

lemma rowToSequencedEvent_typed:
  assumes "rowToSequencedEvent r = Ok se"
  shows "tags_ok (evTags (seEvent se))" and "pos_value (sePosition se) < 2 ^ 63"
    and "evType (seEvent se) = row_type r" and "fset (tag_values (evTags (seEvent se))) = set (row_tags r)"
proof -
  obtain t pos where t: "TagsFrom (row_tags r) = Inr t" "evTags (seEvent se) = t"
    and pos: "int64ToPosition (word_of_int (row_pos r)) = Ok pos" "sePosition se = pos"
    and "evType (seEvent se) = row_type r"
    using assms by (auto simp: rowToSequencedEvent_def bind_outcome_Ok_iff split: option.splits sum.splits)
  then show "tags_ok (evTags (seEvent se))" "evType (seEvent se) = row_type r"
      "fset (tag_values (evTags (seEvent se))) = set (row_tags r)"
    using TagsFrom_ok by (auto simp: TagsFrom_Inr_iff fset_of_list.rep_eq)
  show "pos_value (sePosition se) < 2 ^ 63"
    using pos sint_nonneg_iff [of "word_of_int (row_pos r)"]
      int64ToPosition_negative [of "word_of_int (row_pos r)"] int64ToPosition_nonneg [of "word_of_int (row_pos r)"]
    by (cases "0 \<le> sint (word_of_int (row_pos r) :: int64)") auto
qed

lemma open_cursor_Ok:
  assumes "fst (open_cursor env db q opts u) = Ok it"
  shows "\<exists>rows. it = \<lparr>cur_conn = \<lparr>cn_cursor = rows, cn_in_tx = True, cn_fetched = 0, cn_fails = re_fetch env,
        cn_released = False\<rparr>, cur_buffer = [], cur_idx = 0, cur_exhausted = False, cur_err = None, cur_closed = False\<rparr>
      \<and> set rows \<subseteq> {r \<in> set (db_rows db). query_selects q r} \<and> length rows \<le> length (db_rows db)"
proof -
  obtain st args rows where st: "plan_read q opts u = Ok (st, args)" "exec_declare st args (db_rows db) = Ok rows"
    and it: "it = \<lparr>cur_conn = \<lparr>cn_cursor = rows, cn_in_tx = True, cn_fetched = 0, cn_fails = re_fetch env,
        cn_released = False\<rparr>, cur_buffer = [], cur_idx = 0, cur_exhausted = False, cur_err = None, cur_closed = False\<rparr>"
    using assms by (auto simp: open_cursor_unfold split: option.splits outcome.splits)
  have "\<forall>a. readAfter opts = Some a \<longrightarrow> pos_value a < 2 ^ 63"
    using st(1) by (auto simp: plan_read_def positionToInt64_eq split: if_splits)
  then obtain st' args' where st': "plan_read q opts u = Ok (st', args')"
      "\<forall>r. list_all (eval_filter args' r) (st_filters st') \<longleftrightarrow> pos_selects opts u r \<and> query_selects q r"
    by (rule plan_read_sem [of opts q u])
  let ?sel = "filter (\<lambda>r. pos_selects opts u r \<and> query_selects q r) (db_rows db)"
  let ?ord = "sort_key (\<lambda>r. if st_descending st then - row_pos r else row_pos r) ?sel"
  have "\<exists>n. rows = take n ?ord"
    using st st' by (auto simp: exec_declare_def Let_def intro: exI [of _ "length ?sel"]
        split: if_splits option.splits sql_arg.splits)
  then have "set rows \<subseteq> set ?sel" "length rows \<le> length ?sel"
    by (auto dest: in_set_takeD)
  then show ?thesis
    using it length_filter_le [of _ "db_rows db"] by (intro exI [of _ rows]) (auto intro: order_trans)
qed

lemma pg_Read_Ok:
  assumes "fst (pg_Read env db q opts) = Ok it"
    and "\<And>r se. r \<in> set (db_rows db) \<Longrightarrow> query_selects q r \<Longrightarrow> rowToSequencedEvent r = Ok se \<Longrightarrow> good se"
  shows "cursor_inv (length (db_rows db)) good it \<and> cursor_rank it \<le> length (db_rows db)"
proof -
  obtain u where "fst (open_cursor env db q opts u) = Ok it"
    using assms(1) by (auto simp: pg_Read_def read_between_def split: if_splits outcome.splits)
  from open_cursor_Ok [OF this] show ?thesis
    using assms(2) by (auto simp: cursor_inv_def cursor_rank_def decodes_into_def)
qed

section \<open>Properties of reads of arbitrary tables\<close>

text \<open>
  C17: draining a read always ends. Whatever rows the table holds and whichever statements fail,
  \<open>Collect\<close> on the iterator of a \<open>Read\<close> returns (or panics on a negative position), has
  given the connection back, and has run at most one more fetch than the table has full batches.
\<close>

theorem pg_read_ends:
  assumes "fst (pg_Read env db q opts) = Ok it"
  shows "\<exists>r it'. Collect_it cursorIterator_methods it = Some (r, it') \<and> cn_released (cur_conn it')
    \<and> cn_fetched (cur_conn it') \<le> length (db_rows db) div readBatchSize + 1"
proof -
  obtain r it' where "Collect_it cursorIterator_methods it = Some (r, it_Close cursorIterator_methods it')"
    and "cursor_final (length (db_rows db)) it'"
    using cursor_any.Collect_it_ends [OF pg_Read_Ok [OF assms, where good = "\<lambda>_. True", THEN conjunct1]] by blast
  then show ?thesis
    by (auto simp: cursorIterator_methods_def cursor_Close_def cursor_final_def)
qed

definition foreign_row :: "int \<Rightarrow> string list \<Rightarrow> row" where
  "foreign_row p tags = \<lparr>row_pos = p, row_type = ''A'', row_tags = tags, row_payload = ''{}''\<rparr>"

lemma pg_Read_backwards_all:
  "\<exists>it. fst (pg_Read healthy_read (empty_db\<lparr>db_rows := [r]\<rparr>) QueryAll
       \<lparr>Backwards = True, readAfter = None, Limit = 0\<rparr>) = Ok it
     \<and> it = \<lparr>cur_conn = \<lparr>cn_cursor = [r], cn_in_tx = True, cn_fetched = 0, cn_fails = (\<lambda>_. None),
        cn_released = False\<rparr>, cur_buffer = [], cur_idx = 0, cur_exhausted = False, cur_err = None, cur_closed = False\<rparr>"
proof -
  let ?o = "\<lparr>Backwards = True, readAfter = None, Limit = 0\<rparr>"
  obtain st args where "plan_read QueryAll ?o None = Ok (st, args)" "stmt_params_ok args st"
      "\<forall>r. list_all (eval_filter args r) (st_filters st) \<longleftrightarrow> pos_selects ?o None r \<and> query_selects QueryAll r"
      "st_limit st = None"
    by (rule plan_read_sem [of ?o QueryAll None]) auto
  then show ?thesis
    by (simp add: pg_Read_def read_between_def open_cursor_unfold healthy_read_def exec_declare_def
        pos_selects_def query_selects_def QueryAll_def)
qed

theorem pg_read_ends_witness:
  "\<exists>it r it'. fst (pg_Read healthy_read (empty_db\<lparr>db_rows := [foreign_row (- 1) []]\<rparr>) QueryAll
       \<lparr>Backwards = True, readAfter = None, Limit = 0\<rparr>) = Ok it
     \<and> Collect_it cursorIterator_methods it = Some (r, it') \<and> cn_released (cur_conn it')
     \<and> cn_fetched (cur_conn it') \<le> 1"
proof -
  obtain it where it: "fst (pg_Read healthy_read (empty_db\<lparr>db_rows := [foreign_row (- 1) []]\<rparr>) QueryAll
       \<lparr>Backwards = True, readAfter = None, Limit = 0\<rparr>) = Ok it"
    using pg_Read_backwards_all by blast
  show ?thesis using pg_read_ends [OF it] it by (simp add: readBatchSize_def)
qed

text \<open>
  C18: every event a read delivers is well formed. Whatever rows the table holds, an event that
  \<open>Collect\<close> returns comes from a row of the table that the query selects, with the row's type,
  has a set of valid tags, the row's, and has a position below \<open>2 ^ 63\<close>, so that it can be
  passed back as \<open>After\<close>. There are at most as many events as rows.
\<close>

theorem pg_read_well_typed:
  assumes "fst (pg_Read env db q opts) = Ok it"
    and "Collect_it cursorIterator_methods it = Some (Ok (evs, e), it')"
  shows "length evs \<le> length (db_rows db)
    \<and> list_all (\<lambda>se. tags_ok (evTags (seEvent se)) \<and> pos_value (sePosition se) < 2 ^ 63
        \<and> (\<exists>r \<in> set (db_rows db). query_selects q r \<and> rowToSequencedEvent r = Ok se
             \<and> evType (seEvent se) = row_type r \<and> fset (tag_values (evTags (seEvent se))) = set (row_tags r))) evs"
    (is "_ \<and> list_all ?good evs")
proof -
  have "?good se" if "r \<in> set (db_rows db)" "query_selects q r" "rowToSequencedEvent r = Ok se" for r se
    using that rowToSequencedEvent_typed [OF that(3)] by blast
  then have "cursor_inv (length (db_rows db)) ?good it \<and> cursor_rank it \<le> length (db_rows db)"
    by (rule pg_Read_Ok [OF assms(1)])
  then show ?thesis
    using cursor_any.Collect_it_ends [of "length (db_rows db)" ?good it] assms(2) by auto
qed

theorem pg_read_well_typed_witness:
  "\<exists>it it' se. fst (pg_Read healthy_read (empty_db\<lparr>db_rows := [foreign_row 7 [''t'']]\<rparr>) QueryAll
       \<lparr>Backwards = True, readAfter = None, Limit = 0\<rparr>) = Ok it
     \<and> Collect_it cursorIterator_methods it = Some (Ok ([se], None), it')
     \<and> tags_ok (evTags (seEvent se)) \<and> evType (seEvent se) = ''A''"
proof -
  let ?r = "foreign_row 7 [''t'']"
  obtain it where it: "fst (pg_Read healthy_read (empty_db\<lparr>db_rows := [?r]\<rparr>) QueryAll
       \<lparr>Backwards = True, readAfter = None, Limit = 0\<rparr>) = Ok it"
    and it_eq: "it = \<lparr>cur_conn = \<lparr>cn_cursor = [?r], cn_in_tx = True, cn_fetched = 0, cn_fails = (\<lambda>_. None),
        cn_released = False\<rparr>, cur_buffer = [], cur_idx = 0, cur_exhausted = False, cur_err = None, cur_closed = False\<rparr>"
    using pg_Read_backwards_all by blast
  have "Unmarshal_payload ''{}'' = Some \<lparr>pf_Data = None, pf_Metadata = None\<rparr>"
    by (simp add: Unmarshal_payload_def skip_ws_def is_ws_def)
  moreover have "isValidTagToken ''t''"
    by (simp add: isValidTagToken_def ContainsFunc_def decode_rune_def IsSpace_def)
  moreover have "int64ToPosition 7 = Ok (SequencePosition 7)" by (rule int64ToPosition_nonneg) simp
  ultimately obtain se where se: "rowToSequencedEvent ?r = Ok se"
    by (auto simp: rowToSequencedEvent_def foreign_row_def TagsFrom_def)
  then have "fetch_all (\<lambda>_. None) 0 [?r] = ([se], None)"
    by (simp add: fetch_all.simps readBatchSize_def)
  then have rem: "cursor_ok it" "cursor_remaining it = [se]" "cursor_fate it = None"
    by (simp_all add: it_eq cursor_ok_def cursor_remaining_def cursor_live_def cursor_rest_def cursor_fate_def
        row_in_range_def foreign_row_def)
  obtain it' where "Collect_it cursorIterator_methods it = Some (Ok ([se], None), it')"
    using cursor.Collect_it_remaining [OF rem(1)] rem by auto
  then show ?thesis using pg_read_well_typed [OF it] it by (auto simp: foreign_row_def)
qed

end
