(* ===== verification/Spec2Isabelle.thy ===== *)
theory Spec2Isabelle
  imports Stores_Agree Conformance_Memory Conformance_Postgres Pg_Install Pg_Read_Any
begin

text \<open>
  \<^bold>\<open>A verified model of the DCB event store\<close>

  The program is an event store with dynamic consistency boundaries: clients append events under
  a condition ("no event after this position matches this query"), read the events a query
  matches, and subscribe to them. There are two stores behind one interface, one in memory
  (\<open>memory/\<close>) and one on PostgreSQL (\<open>postgres/\<close>), and a conformance suite that any
  store has to pass (\<open>eventstore/eventstoretest/\<close>). The development models all of it, proves
  each store correct on its own, proves that they agree, and proves that both pass the suite.

  \<^bold>\<open>Layout\<close>

  \<^item> \<open>Prelude\<close>: outcomes of Go calls (value, error, panic), integer types, generic lemmas.
    \<open>Go_Strings\<close>, \<open>Go_Strconv\<close>, \<open>Go_Json\<close>: what the source uses of the
    standard library (runes and UTF-8, \<open>strings\<close>, \<open>strconv\<close>, \<open>encoding/json\<close>).
  \<^item> \<open>Sequence_Position\<close>, \<open>Tags\<close>, \<open>Query\<close>, \<open>Event_Iterator\<close>: package
    \<open>eventstore\<close>, one theory per source file (\<open>Query\<close> has events, queries, conditions,
    commands and errors). Positions are 64-bit words, tags a finite set of strings, a query its
    flag and its items. An iterator is a record of its methods; \<open>Collect\<close> and \<open>All\<close> are
    partial functions, and what makes them end are the locales \<open>bounded_iterator\<close> and
    \<open>ranked_iterator\<close>.
  \<^item> \<open>Store_Contract\<close>: what both stores promise, as the locales \<open>append_store\<close> and
    \<open>event_store\<close> over the log of a store, with the client lemmas (of racing appends one wins,
    independent appends all succeed).
  \<^item> \<open>Memory_Matching\<close>, \<open>Memory_Store\<close>, \<open>Memory_Subscribe\<close>: package
    \<open>memory\<close>. The state is the event slice and the broadcast channel, with closed channels
    as a set; the mutex makes a call one step. A subscription is a step relation of its loop,
    appends and cancellation.
  \<^item> \<open>Lock_Keys\<close>, \<open>Pg_Serialize\<close>, \<open>Pg_Rows\<close>, \<open>Pg_Store\<close>,
    \<open>Pg_Append\<close>, \<open>Read_SQL\<close>, \<open>Pg_Read\<close>, \<open>Pg_Read_Any\<close>,
    \<open>Pg_Concurrency\<close>, \<open>Pg_Subscribe\<close>, \<open>Pg_Install\<close>: package
    \<open>postgres\<close>. The database is its rows, the last value of the sequence and the
    notifications sent; the stored procedures of \<open>store.go\<close> are functions on it; the text of
    the read statement is built as in \<open>readsql.go\<close> and proved to be the rendering of a
    statement whose meaning on rows is defined. The driver is an environment: each statement, lock and commit may fail,
    and a reply may be lost with the statement run or not. \<open>Pg_Concurrency\<close> interleaves
    appends and read barriers lock by lock and statement by statement; \<open>Pg_Subscribe\<close> adds
    subscriptions cut at their blocking calls, where a wait ends with a notification that was
    sent on the channel, with the poll interval or with an error; \<open>Pg_Install\<close> runs
    \<open>EnsureInstalled\<close> on a catalog of relations and functions.
  \<^item> \<open>Stores_Agree\<close>: from related states the two stores answer alike.
  \<^item> \<open>Conformance\<close>, \<open>Conformance_Contract\<close>, \<open>Conformance_Subscribe\<close>: the
    suite, each test case a bool-valued function of a store given as a record of its methods
    (\<open>store_api\<close>), and the proof, inside the locales \<open>suite_store\<close> and
    \<open>live_store\<close>, that a store with the contract passes. \<open>Conformance_Memory\<close> and
    \<open>Conformance_Postgres\<close> interpret the locales on the two stores.

  \<^bold>\<open>What is shown\<close>

  \<^item> Appends: the behaviour of both \<open>Append\<close>s on every branch, on PostgreSQL for every
    failure of the environment (\<open>function_outcome\<close> and \<open>copy_outcome\<close> of
    \<open>Pg_Append\<close> are the two paths in terms of the log); atomicity on PostgreSQL whatever
    fails; serializability, unique positions and freedom from deadlock of
    concurrent appends; coverage of the lock keys.
  \<^item> Reads: a drained read is exactly the selected events, ordered and limited; the barrier
    leaves no gaps; a failing read leaks no connection; over arbitrary rows a read still ends and
    delivers only well-formed events.
  \<^item> Subscriptions: every due event exactly once, in order and without gaps, in every
    interleaving; no wake-up is lost in memory, and on PostgreSQL polling makes progress without
    consuming a notification.
  \<^item> Data: round trips of positions, rows and payloads; validation of tags, queries,
    conditions and names; the exact range in which positions survive.
  \<^item> Installation: it is complete and idempotent, and destroys nothing whatever fails.
  \<^item> Both stores agree on storable appends that carry events and on reads with at most one tag
    per item, and pass the suite for every order of the racing goroutines and every
    schedule of the subscription goroutines.
  \<^item> Where the code departs from what it means to do (a read's tag overlap, the zero query, the
    tag delimiter, payloads that are not JSON, upper-case and longest table names, the unlock on a
    finished context, empty appends), a theorem shows it.

  \<^bold>\<open>Bounds and fuel\<close>

  The scanner of \<open>Go_Json\<close> has fuel \<open>2 * length + 1\<close>; each call consumes a character or
  returns, and \<open>skip_fuel\<close> shows that more fuel changes nothing. The waits of the suite
  (\<open>mustReceive\<close>, \<open>assertClosed\<close>, \<open>stop\<close>; in Go a time-out of seconds, or none)
  are a number of passes of the draining goroutine, beyond any number it made before: an event that is due is received within 8, and
  a cancelled subscription of a store with \<open>n\<close> events is closed within \<open>6 * n + 8\<close>; no
  subscription case appends more than five events, so 40 suffice. Every other loop is structurally
  recursive, has a termination proof, or is a partial function proved to return.

  \<^bold>\<open>What is not modelled\<close>

  \<^item> The planner and autovacuum settings in the SQL, which change no result, and the physical
    indexes beyond their names.
  \<^item> The wait for the migration lock: \<open>EnsureInstalled\<close> is modelled from the moment its lock
    request is answered. Its \<open>Exec\<close> failures are modelled.
  \<^item> Text encoding: PostgreSQL refuses parameters with NUL bytes or invalid UTF-8. The refusal is
    one of the failures the environment may choose; no predicate computes it. Nor is the limit
    of \<open>pg_notify\<close> on the length of a channel name modelled, which only names with
    non-ASCII letters can reach.
  \<^item> The order of equal keys in a lock statement is left open: in \<open>Pg_Concurrency\<close> and
    \<open>Pg_Subscribe\<close> a transaction takes its requests in any order sorted by key.
  \<^item> Time: poll intervals and time-outs are choices of the environment.
  \<^item> In the suite the appends of concurrent goroutines are single steps in an arbitrary order;
    that the interleaved statements of PostgreSQL appends amount to such an order is the
    serializability theorem of \<open>Pg_Concurrency\<close>. The suite's \<open>t.Run\<close> and assertion
    library are a bool.
  \<^item> Unit tests, package documentation and build files: they have no behaviour of their own.

  \<^bold>\<open>Plan\<close>

  Done: the data types, both stores, their concurrency, their agreement, the installation and the
  suite. Left: concurrent installations under the migration lock, validity of the JSON
  that reads of arbitrary tables return, and the suite run on the interleaved
  PostgreSQL system directly.
\<close>

end
